(* ===== verification/Prelude.thy ===== *)
theory Prelude
  imports Main "HOL-Library.Word"
begin

text \<open>
  Shared foundations of the gem5 memory-space development.

  \<^item> The way a simulator operation can end: normally, or in one of the ways the C++ code gives
    up (\<open>assert\<close>, \<open>panic\<close>, \<open>fatal\<close>), or in an expression whose C++ behaviour is undefined
    (a shift by at least the width of its left operand).
  \<^item> The sum-typed result of such operations, its sequencing, and the simplification and
    inversion rules that the components use to take a successful run apart.
  \<^item> Generic facts on 64-bit words that carry the address arithmetic of the components.
\<close>

unbundle bit_operations_syntax

section \<open>Outcomes of simulator operations\<close>

datatype sim_error = Assert_Failed | Panic | Fatal | Undefined

type_synonym 'a res = "sim_error + 'a"

abbreviation Ok :: "'a \<Rightarrow> 'a res" where
  "Ok x \<equiv> Inr x"

abbreviation Err :: "sim_error \<Rightarrow> 'a res" where
  "Err e \<equiv> Inl e"

definition bind_res :: "'a res \<Rightarrow> ('a \<Rightarrow> 'b res) \<Rightarrow> 'b res" where
  "bind_res m f = (case m of Inl e \<Rightarrow> Inl e | Inr x \<Rightarrow> f x)"

definition assert_that :: "bool \<Rightarrow> 'a res \<Rightarrow> 'a res" where
  "assert_that b k = (if b then k else Err Assert_Failed)"

named_theorems res_simps \<open>evaluation of results\<close>
named_theorems word_nat \<open>moving address arithmetic from words to natural numbers\<close>

lemma bind_res_Ok [simp, res_simps]: "bind_res (Ok x) f = f x"
  by (simp add: bind_res_def)

lemma bind_res_Err [simp, res_simps]: "bind_res (Err e) f = Err e"
  by (simp add: bind_res_def)

lemma bind_res_eq_Ok [res_simps]:
  "bind_res m f = Ok y \<longleftrightarrow> (\<exists>x. m = Ok x \<and> f x = Ok y)"
  by (cases m) auto

lemma bind_res_cong [fundef_cong]:
  "m = m' \<Longrightarrow> (\<And>x. m' = Ok x \<Longrightarrow> f x = f' x) \<Longrightarrow> bind_res m f = bind_res m' f'"
  by (cases m') auto

lemma assert_that_True [simp, res_simps]: "assert_that True k = k"
  by (simp add: assert_that_def)

lemma assert_that_False [simp, res_simps]: "assert_that False k = Err Assert_Failed"
  by (simp add: assert_that_def)

lemma assert_that_eq_Ok [res_simps]: "assert_that b k = Ok y \<longleftrightarrow> b \<and> k = Ok y"
  by (simp add: assert_that_def)

lemma assert_that_cong [fundef_cong]:
  "b = b' \<Longrightarrow> (b' \<Longrightarrow> k = k') \<Longrightarrow> assert_that b k = assert_that b' k'"
  by (simp add: assert_that_def)

text \<open>\<open>returns m\<close>: the computation ends normally.\<close>

definition returns :: "'a res \<Rightarrow> bool" where
  "returns m \<longleftrightarrow> (\<exists>x. m = Ok x)"

named_theorems returns_intros \<open>rules that follow a computation to its end\<close>

lemma returns_Ok [simp, returns_intros]: "returns (Ok x)"
  by (simp add: returns_def)

lemma returns_Err [simp]: "\<not> returns (Err e)"
  by (simp add: returns_def)

lemma returnsE: "returns m \<Longrightarrow> (\<And>x. m = Ok x \<Longrightarrow> P) \<Longrightarrow> P"
  by (auto simp: returns_def)

lemma returns_bind [returns_intros]:
  "returns m \<Longrightarrow> (\<And>x. m = Ok x \<Longrightarrow> returns (f x)) \<Longrightarrow> returns (bind_res m f)"
  by (auto simp: returns_def)

lemma returns_assert [returns_intros]: "b \<Longrightarrow> returns k \<Longrightarrow> returns (assert_that b k)"
  by simp

lemma returns_if [returns_intros]:
  "(b \<Longrightarrow> returns m) \<Longrightarrow> (\<not> b \<Longrightarrow> returns n) \<Longrightarrow> returns (if b then m else n)"
  by simp

section \<open>Loops that may not end\<close>

text \<open>
  An operation with a loop that may run for ever has a result of type \<open>'a run\<close>: \<open>None\<close> is a run that does not end. Such loops
  are defined with \<open>partial_function (option)\<close>.
\<close>

type_synonym 'a run = "'a res option"

abbreviation Done :: "'a \<Rightarrow> 'a run" where
  "Done x \<equiv> Some (Ok x)"

definition bind_run :: "'a run \<Rightarrow> ('a \<Rightarrow> 'b run) \<Rightarrow> 'b run" where
  "bind_run m f = Option.bind m (\<lambda>r. case r of Inl e \<Rightarrow> Some (Inl e) | Inr x \<Rightarrow> f x)"

lemma bind_run_simps [simp]:
  "bind_run (Done x) f = f x" "bind_run (Some (Err e)) f = Some (Err e)" "bind_run None f = None"
  by (simp_all add: bind_run_def)

lemma bind_run_eq_Done: "bind_run m f = Done y \<longleftrightarrow> (\<exists>x. m = Done x \<and> f x = Done y)"
proof (cases m)
  case (Some r)
  then show ?thesis by (cases r) simp_all
qed simp

lemma bind_run_mono [partial_function_mono]:
  assumes "mono_option m" "\<And>x. mono_option (f x)"
  shows "mono_option (\<lambda>g. bind_run (m g) (\<lambda>x. f x g))"
  unfolding bind_run_def
proof (rule bind_mono [OF assms(1)])
  show "mono_option (\<lambda>g. case r of Inl e \<Rightarrow> Some (Inl e) | Inr x \<Rightarrow> f x g)" for r
    using assms(2) by (cases r) (simp_all add: option.const_mono)
qed

section \<open>Addresses, ticks and the other machine types\<close>

text \<open>\<open>Addr\<close> and \<open>Tick\<close> are \<open>uint64_t\<close> in \<open>src/base/types.hh\<close>.\<close>

type_synonym addr = "64 word"
type_synonym tick = "64 word"

section \<open>Words and their bits\<close>

lemma two_power_less_D: "(2::nat) ^ a < 2 ^ b \<Longrightarrow> a < b"
  using power_less_imp_less_exp [of "2::nat" a b] by simp

lemma unat_of_nat_small [word_nat]: "n < 2 ^ LENGTH('a::len) \<Longrightarrow> unat (of_nat n :: 'a word) = n"
  by (simp add: unsigned_of_nat take_bit_nat_eq_self)

lemma unat_ucast_small [word_nat]:
  "unat (w :: 'a::len word) < 2 ^ LENGTH('b::len) \<Longrightarrow> unat (ucast w :: 'b word) = unat w"
  by (simp add: unsigned_ucast_eq take_bit_nat_eq_self)

lemma unat_ucast_up:
  assumes "LENGTH('a::len) \<le> LENGTH('b::len)"
  shows "unat (ucast (w :: 'a word) :: 'b word) = unat w"
proof (rule unat_ucast_small)
  have "unat w < 2 ^ LENGTH('a)" by (rule unsigned_less)
  also have "(2 :: nat) ^ LENGTH('a) \<le> 2 ^ LENGTH('b)" using assms by simp
  finally show "unat w < 2 ^ LENGTH('b)" .
qed

lemma unat_exp_lower: "n < LENGTH('a::len) \<Longrightarrow> unat ((2 :: 'a word) ^ n) = 2 ^ n"
  by transfer (simp add: take_bit_eq_mod nat_power_eq)

lemma drop_bit_add: "drop_bit m (drop_bit k (x :: 'a::len word)) = drop_bit (k + m) x"
  by (simp add: drop_bit_drop_bit add.commute)


lemma unat_drop_bit [word_nat]: "unat (drop_bit n (w :: 'a::len word)) = unat w div 2 ^ n"
  by (simp only: unat_drop_bit_eq) (simp only: drop_bit_eq_div)

lemma bit_unat_less:
  assumes "unat (v :: 'a::len word) < 2 ^ m" "bit v n"
  shows "n < m"
proof (rule ccontr)
  assume n: "\<not> n < m"
  have b: "bit (unat v) n" using assms(2) by (simp add: bit_unsigned_iff)
  have "take_bit m (unat v) = unat v" using assms(1) by (rule take_bit_nat_eq_self)
  then have "\<not> bit (unat v) n" using n by (metis bit_take_bit_iff)
  with b show False by simp
qed

lemma drop_bit_eq_0_iff_unat: "drop_bit k (v :: 'a::len word) = 0 \<longleftrightarrow> unat v < 2 ^ k"
proof -
  have "drop_bit k v = 0 \<longleftrightarrow> unat (drop_bit k v) = 0" by (simp only: unat_eq_zero)
  then show ?thesis by (simp only: unat_drop_bit div_eq_0_iff) simp
qed

lemma take_bit_eq_0_iff_bits: "take_bit k (x :: 'a::len word) = 0 \<longleftrightarrow> (\<forall>n<k. \<not> bit x n)"
  using bit_imp_le_length [of x] by (auto simp: bit_eq_iff bit_take_bit_iff)

lemma drop_bit_1_unat:
  assumes "drop_bit n (x :: 64 word) = 1"
  shows "2 ^ n \<le> unat x \<and> unat x < 2 ^ (n + 1)"
proof -
  have d: "unat x div 2 ^ n = 1"
    using arg_cong [OF assms, of unat] by (simp only: unat_drop_bit) simp
  then have "unat x = 2 ^ n + unat x mod 2 ^ n"
    by (metis mult.right_neutral mult_div_mod_eq)
  moreover have "unat x mod 2 ^ n < 2 ^ n" by simp
  ultimately have "2 ^ n \<le> unat x" "unat x < 2 ^ n + 2 ^ n" by linarith+
  then show ?thesis by simp
qed

lemma word_Suc_le: "(a :: 64 word) \<noteq> - 1 \<Longrightarrow> a + 1 \<le> b \<longleftrightarrow> a < b"
proof -
  assume "a \<noteq> - 1"
  then have "1 + a \<noteq> 0" by (metis add.commute add_eq_0_iff)
  then have "unat (a + 1) = Suc (unat a)" using unatSuc [of a] by (simp add: add.commute)
  then show ?thesis by (simp add: word_le_nat_alt word_less_nat_alt Suc_le_eq)
qed

lemma unat_take_bit: "unat (take_bit k (d :: addr)) = unat d mod 2 ^ k"
  by (simp only: unsigned_take_bit_eq) (simp only: take_bit_eq_mod)

lemma take_bit_page_add:
  assumes "take_bit k (v :: addr) = 0" "k < 64"
  shows "take_bit k (v + d) = take_bit k d"
proof (rule unsigned_word_eqI)
  have v: "unat v mod 2 ^ k = 0" using unat_take_bit [of k v] assms(1) by simp
  have "unat (take_bit k (v + d)) = ((unat v + unat d) mod 2 ^ 64) mod 2 ^ k"
    by (simp only: unat_take_bit) (simp add: unat_word_ariths)
  also have "\<dots> = (unat v + unat d) mod 2 ^ k" using assms(2) by (intro mod_mod_cancel le_imp_power_dvd) simp
  also have "\<dots> = unat d mod 2 ^ k" using v by (metis mod_add_left_eq add_0)
  finally show "unat (take_bit k (v + d)) = unat (take_bit k d)" by (simp only: unat_take_bit)
qed

lemma and_not_mask_minus: "x AND NOT (mask k) = x - take_bit k (x :: addr)"
proof -
  have "(x AND NOT (mask k)) + (x AND mask k) = x"
    by (subst disjunctive_add) (auto simp: bit_and_iff bit_not_iff bit_or_iff intro!: bit_word_eqI)
  then show ?thesis by (simp add: take_bit_eq_mask eq_diff_eq)
qed

lemma page_of_mult: "d - take_bit k d = of_nat (unat d div 2 ^ k) * (2 :: addr) ^ k"
proof -
  define q r where "q = unat d div 2 ^ k" and "r = unat d mod 2 ^ k"
  have "of_nat (unat (take_bit k d)) = take_bit k d" by simp
  then have t: "take_bit k d = of_nat r" by (simp only: unat_take_bit r_def)
  have "unat d = q * 2 ^ k + r" unfolding q_def r_def by (rule div_mult_mod_eq [symmetric])
  then have "of_nat (unat d) = (of_nat (q * 2 ^ k + r) :: addr)" by (rule arg_cong)
  then have "d = of_nat q * 2 ^ k + of_nat r" by simp
  then show ?thesis unfolding t q_def [symmetric] by (simp add: algebra_simps)
qed

lemma unat_eqI: "unat x = unat y \<Longrightarrow> x = y"
  by (rule unsigned_word_eqI)

lemma take_bit_aligned: "take_bit k (a - take_bit k a) = (0 :: addr)"
proof -
  have "take_bit k (of_nat q * 2 ^ k :: addr) = 0" for q
  proof -
    have "take_bit k (of_nat q * 2 ^ k :: addr) = take_bit k (push_bit k (of_nat q))" by (simp add: push_bit_eq_mult)
    also have "\<dots> = 0" by (simp only: take_bit_push_bit) simp
    finally show ?thesis .
  qed
  then show ?thesis unfolding page_of_mult .
qed

lemma take_bit_exp_0: "k < 64 \<Longrightarrow> take_bit k ((2 :: addr) ^ k) = 0"
  using unat_take_bit [of k "2 ^ k"] by (simp add: unat_exp_lower) (simp add: unat_eq_zero)

lemma unat_64: "unat (x :: addr) < 18446744073709551616"
  using unsigned_less [of x, where 'a = nat] by simp

lemma no_wrap_unat:
  assumes "(n :: addr) < n + l"
  shows "unat (n + l) = unat n + unat l"
  using assms by (metis less_imp_le unat_plus_simple word_le_nat_alt le_add1 not_le unat_plus_if' word_less_nat_alt no_olen_add_nat)

section \<open>Lists in order\<close>

lemma sorted_wrt_append_Cons:
  "sorted_wrt P (xs @ y # ys) \<Longrightarrow> \<forall>z\<in>set ys. P y z"
  by (simp add: sorted_wrt_append)

lemma sorted_wrt_hd: "sorted_wrt P xs \<Longrightarrow> x \<in> set xs \<Longrightarrow> x = hd xs \<or> P (hd xs) x"
  by (cases xs) auto

lemma sorted_wrt_last: "sorted_wrt P xs \<Longrightarrow> x \<in> set xs \<Longrightarrow> x = last xs \<or> P x (last xs)"
  by (induction xs) auto

lemma sorted_wrt_takeWhile: "sorted_wrt P xs \<Longrightarrow> sorted_wrt P (takeWhile Q xs)"
  by (subst takeWhile_eq_take) (rule sorted_wrt_take)

lemma sorted_wrt_dropWhile: "sorted_wrt P xs \<Longrightarrow> sorted_wrt P (dropWhile Q xs)"
  by (subst dropWhile_eq_drop) (rule sorted_wrt_drop)

lemma split_insert_set:
  "set (takeWhile P t @ x # dropWhile P t) = insert x (set t)"
  by (induction t) auto

lemma split_insert_distinct:
  "distinct (map f (takeWhile P t @ x # dropWhile P t)) \<longleftrightarrow> distinct (map f (x # t))"
proof -
  have "distinct (map f (xs @ x # ys)) \<longleftrightarrow> distinct (map f (x # xs @ ys))" for xs ys by auto
  then show ?thesis by (simp only: takeWhile_dropWhile_id)
qed

end
