(* ===== verification/Bitfield.thy ===== *)
theory Bitfield
  imports Prelude
begin

text \<open>
  The bit manipulation helpers of \<open>src/base/bitfield.hh\<close> (and the byte reversal table of
  \<open>src/base/bitfield.cc\<close>). Bit positions are C++ \<open>int\<close>s; values are words. The lemmas
  give each helper its meaning bit by bit (\<open>bit w n\<close> is bit \<open>n\<close> of \<open>w\<close>).
\<close>

unbundle bit_operations_syntax

section \<open>Masks and bit fields\<close>

definition mask_n :: "int \<Rightarrow> 64 word" where
  "mask_n nbits = (if nbits \<ge> 64 then - 1 else push_bit (nat nbits) 1 - 1)"

definition bits_raw :: "'a::len word \<Rightarrow> int \<Rightarrow> int \<Rightarrow> 'a word" where
  "bits_raw val first lst = drop_bit (nat lst) val AND ucast (mask_n (first - lst + 1))"

definition bits :: "'a::len word \<Rightarrow> int \<Rightarrow> int \<Rightarrow> 'a word res" where
  "bits val first lst = assert_that (first - lst \<ge> 0) (Ok (bits_raw val first lst))"

definition bits1 :: "'a::len word \<Rightarrow> int \<Rightarrow> 'a word res" where
  "bits1 val b = bits val b b"

definition mbits :: "64 word \<Rightarrow> int \<Rightarrow> int \<Rightarrow> 64 word" where
  "mbits val first lst = val AND (mask_n (first + 1) AND NOT (mask_n lst))"

definition mask_range :: "int \<Rightarrow> int \<Rightarrow> 64 word" where
  "mask_range first lst = mbits (- 1) first lst"

definition sext :: "int \<Rightarrow> 64 word \<Rightarrow> 64 word" where
  "sext N val = (let sign_bit = bits_raw val (N - 1) (N - 1)
                 in if sign_bit \<noteq> 0 then val OR NOT (mask_n N) else val)"

definition insertBits_raw :: "64 word \<Rightarrow> int \<Rightarrow> int \<Rightarrow> 64 word \<Rightarrow> 64 word" where
  "insertBits_raw val first lst bit_val =
     (let bmask = push_bit (nat lst) (mask_n (first - lst + 1))
      in (push_bit (nat lst) bit_val AND bmask) OR (val AND NOT bmask))"

definition insertBits :: "64 word \<Rightarrow> int \<Rightarrow> int \<Rightarrow> 64 word \<Rightarrow> 64 word res" where
  "insertBits val first lst bit_val =
     assert_that (first - lst \<ge> 0) (Ok (insertBits_raw val first lst bit_val))"

definition insertBits1 :: "64 word \<Rightarrow> int \<Rightarrow> 64 word \<Rightarrow> 64 word res" where
  "insertBits1 val b bit_val = insertBits val b b bit_val"

section \<open>Searching, counting and aligning\<close>

text \<open>
  \<open>findMsbSet\<close> and \<open>findLsbSet\<close> are sequences of six halving steps, one source line each:
  \<open>if (bits(val, 2k-1, k)) { msb += k; val >>= k; }\<close> and
  \<open>if (!bits(val, k-1, 0)) { lsb += k; val >>= k; }\<close> for \<open>k\<close> = 32, 16, 8, 4, 2, 1 (the last
  line of each skips the shift, whose result nobody reads).
\<close>

definition msb_step :: "nat \<Rightarrow> int \<times> 64 word \<Rightarrow> int \<times> 64 word" where
  "msb_step k = (\<lambda>(msb, val).
     if bits_raw val (2 * int k - 1) (int k) \<noteq> 0 then (msb + int k, drop_bit k val) else (msb, val))"

definition findMsbSet :: "64 word \<Rightarrow> int" where
  "findMsbSet val = (if val = 0 then 0 else fst (fold msb_step [32, 16, 8, 4, 2, 1] (0, val)))"

definition lsb_step :: "nat \<Rightarrow> int \<times> 64 word \<Rightarrow> int \<times> 64 word" where
  "lsb_step k = (\<lambda>(lsb, val).
     if bits_raw val (int k - 1) 0 = 0 then (lsb + int k, drop_bit k val) else (lsb, val))"

definition findLsbSet :: "64 word \<Rightarrow> int" where
  "findLsbSet val = (if val = 0 then 64 else fst (fold lsb_step [32, 16, 8, 4, 2, 1] (0, val)))"

definition isPow2 :: "'a::len word \<Rightarrow> bool" where
  "isPow2 v \<longleftrightarrow> v AND (v - 1) = 0"

definition popCount :: "64 word \<Rightarrow> nat" where
  "popCount val = length (filter (bit val) [0..<64])"

definition alignToPowerOfTwo :: "64 word \<Rightarrow> 64 word" where
  "alignToPowerOfTwo val =
     (let val = val - 1;
          val = val OR drop_bit 1 val;
          val = val OR drop_bit 2 val;
          val = val OR drop_bit 4 val;
          val = val OR drop_bit 8 val;
          val = val OR drop_bit 16 val;
          val = val OR drop_bit 32 val
      in val + 1)"

definition ctz64 :: "64 word \<Rightarrow> nat" where
  "ctz64 value = (if value \<noteq> 0 then hd (filter (bit value) [0..<64]) else 64)"

section \<open>Meaning of the bit fields\<close>

lemma bit_mask_n: "0 \<le> k \<Longrightarrow> bit (mask_n k) n \<longleftrightarrow> n < 64 \<and> int n < k"
proof (cases "k \<ge> 64")
  case True
  then show ?thesis by (auto simp: mask_n_def)
next
  case False
  assume "0 \<le> k"
  have "mask_n k = mask (nat k)"
    using False by (simp add: mask_n_def mask_eq_exp_minus_1 push_bit_of_1)
  then show ?thesis using \<open>0 \<le> k\<close> False by (auto simp: bit_mask_iff)
qed

lemma bit_bits_raw:
  fixes val :: "'a::len word"
  assumes "0 \<le> lst" "lst \<le> first" "LENGTH('a) \<le> 64"
  shows "bit (bits_raw val first lst) n \<longleftrightarrow> int n \<le> first - lst \<and> bit val (n + nat lst)"
  using assms bit_imp_le_length [of val "n + nat lst"]
  by (auto simp: bits_raw_def bit_and_iff bit_drop_bit_eq bit_ucast_iff bit_mask_n add.commute)

lemma bit_insertBits_raw:
  assumes "0 \<le> lst" "lst \<le> first"
  shows "bit (insertBits_raw val first lst bv) n \<longleftrightarrow>
     (if lst \<le> int n \<and> int n \<le> first then n < 64 \<and> bit bv (n - nat lst) else bit val n)"
  using assms bit_imp_le_length [of val n] 
  by (auto simp: insertBits_raw_def Let_def bit_or_iff bit_and_iff bit_push_bit_iff bit_not_iff
      bit_mask_n)

lemma insertBits_get:
  assumes "0 \<le> lst" "lst \<le> first" "first < 64"
  shows "bits_raw (insertBits_raw val first lst bv) first lst = take_bit (nat (first - lst + 1)) bv"
  using assms
  by (intro bit_word_eqI) (auto simp: bit_bits_raw bit_insertBits_raw bit_take_bit_iff)

section \<open>Most and least significant set bits\<close>

lemma ctz64_props:
  assumes "v \<noteq> 0"
  shows bit_ctz64: "bit v (ctz64 v)" and ctz64_least: "\<And>k. bit v k \<Longrightarrow> ctz64 v \<le> k"
    and ctz64_less: "ctz64 v < 64"
proof -
  let ?fs = "filter (bit v) [0..<64]"
  obtain k where k: "bit v k" using assms by (metis bit_0_eq bit_eq_iff bot_apply bot_bool_def)
  moreover have "k < 64" using bit_imp_le_length [OF k] by simp
  ultimately have ne: "?fs \<noteq> []" by (auto simp: filter_empty_conv)
  have hd: "ctz64 v = hd ?fs" using assms by (simp add: ctz64_def)
  have "hd ?fs \<in> set ?fs" using ne by (rule hd_in_set)
  then show "bit v (ctz64 v)" and "ctz64 v < 64" by (auto simp: hd)
  have srt: "sorted ?fs" by (simp add: sorted_wrt_filter)
  fix j assume j: "bit v j"
  then have "j \<in> set ?fs" using bit_imp_le_length [OF j] by simp
  then show "ctz64 v \<le> j" using srt ne by (cases ?fs) (auto simp: hd)
qed

lemma ctz64_eqI:
  assumes "bit v n" "\<And>k. k < n \<Longrightarrow> \<not> bit v k"
  shows "ctz64 v = n"
proof -
  have "v \<noteq> 0" using assms(1) by auto
  then show ?thesis
    using assms bit_ctz64 [of v] ctz64_least [of v n] by (meson le_neq_implies_less)
qed

lemma bits_raw_low: "0 < k \<Longrightarrow> bits_raw (v :: 64 word) (int k - 1) 0 = take_bit k v"
  by (intro bit_word_eqI) (auto simp: bit_bits_raw bit_take_bit_iff)

lemma bits_raw_high:
  assumes "0 < k" "unat (v :: 64 word) < 2 ^ (2 * k)"
  shows "bits_raw v (2 * int k - 1) (int k) = drop_bit k v"
proof (rule bit_word_eqI)
  fix n
  show "bit (bits_raw v (2 * int k - 1) (int k)) n = bit (drop_bit k v) n"
    using assms(1) bit_unat_less [OF assms(2), of "k + n"]
    by (auto simp: bit_bits_raw bit_drop_bit_eq add.commute)
qed

definition msb_inv :: "64 word \<Rightarrow> nat \<Rightarrow> int \<times> 64 word \<Rightarrow> bool" where
  "msb_inv x k = (\<lambda>(m, v). 0 \<le> m \<and> drop_bit (nat m) x = v \<and> v \<noteq> 0 \<and> unat v < 2 ^ k)"

lemma msb_step_inv:
  assumes k: "0 < k" and inv: "msb_inv x (2 * k) s"
  shows "msb_inv x k (msb_step k s)"
proof (cases s)
  case (Pair m v)
  have v: "0 \<le> m" "v = drop_bit (nat m) x" "v \<noteq> 0" and lim: "unat v < 2 ^ (2 * k)"
    using inv by (auto simp: Pair msb_inv_def)
  show ?thesis
  proof (cases "drop_bit k v = 0")
    case True
    then have "unat v < 2 ^ k" by (simp only: drop_bit_eq_0_iff_unat)
    moreover have "msb_step k s = s"
      using True by (simp add: Pair msb_step_def bits_raw_high [OF k lim])
    ultimately show ?thesis using v by (simp add: Pair msb_inv_def)
  next
    case False
    have "unat v < 2 ^ k * 2 ^ k" using lim by (simp add: power_add [symmetric] mult_2)
    then have "unat (drop_bit k v) < 2 ^ k" by (simp only: unat_drop_bit less_mult_imp_div_less)
    moreover have "drop_bit (nat (m + int k)) x = drop_bit k v"
      using v(1) by (simp add: v(2) nat_add_distrib drop_bit_drop_bit add.commute)
    ultimately show ?thesis
      using False v(1) by (simp add: Pair msb_step_def msb_inv_def bits_raw_high [OF k lim])
  qed
qed

lemma msb_inv_bounds:
  assumes "msb_inv x 1 (m, v)"
  shows "2 ^ nat m \<le> unat x \<and> unat x < 2 ^ (nat m + 1)"
proof (rule drop_bit_1_unat)
  have "unat v = 1" using assms by (simp add: msb_inv_def unat_gt_0 [symmetric] del: unat_gt_0)
  then have "v = 1" by (metis unat_1 unsigned_word_eqI)
  then show "drop_bit (nat m) x = 1" using assms by (simp add: msb_inv_def)
qed

lemma msb_fold_inv:
  assumes "val \<noteq> 0"
  shows "msb_inv val 1 (fold msb_step [32, 16, 8, 4, 2, 1] (0, val))"
proof -
  have "msb_inv val 64 (0, val)"
    using assms unsigned_less [of val] by (simp add: msb_inv_def)
  then have "msb_inv val 32 (fold msb_step [32] (0, val))"
    using msb_step_inv [of 32] by simp
  then have "msb_inv val 16 (fold msb_step [32, 16] (0, val))"
    using msb_step_inv [of 16] by simp
  then have "msb_inv val 8 (fold msb_step [32, 16, 8] (0, val))"
    using msb_step_inv [of 8] by simp
  then have "msb_inv val 4 (fold msb_step [32, 16, 8, 4] (0, val))"
    using msb_step_inv [of 4] by simp
  then have "msb_inv val 2 (fold msb_step [32, 16, 8, 4, 2] (0, val))"
    using msb_step_inv [of 2] by simp
  then show ?thesis
    using msb_step_inv [of 1] by simp
qed

lemma findMsbSet_bounds:
  assumes "val \<noteq> 0"
  shows "0 \<le> findMsbSet val \<and> 2 ^ nat (findMsbSet val) \<le> unat val \<and>
         unat val < 2 ^ (nat (findMsbSet val) + 1)"
proof -
  obtain m v where mv: "fold msb_step [32, 16, 8, 4, 2, 1] (0, val) = (m, v)"
    by (cases "fold msb_step [32, 16, 8, 4, 2, 1] (0, val)")
  have inv: "msb_inv val 1 (m, v)" using msb_fold_inv [OF assms] unfolding mv .
  have "findMsbSet val = m" unfolding findMsbSet_def mv using assms by simp
  then show ?thesis using msb_inv_bounds [OF inv] inv by (simp add: msb_inv_def)
qed

lemma findMsbSet_is_msb:
  assumes "val \<noteq> 0"
  shows "bit val (nat (findMsbSet val))" and "bit val n \<Longrightarrow> n \<le> nat (findMsbSet val)"
proof -
  let ?m = "nat (findMsbSet val)"
  have b: "2 ^ ?m \<le> unat val" "unat val < 2 ^ (?m + 1)" using findMsbSet_bounds [OF assms] by auto
  show le: "n \<le> ?m" if "bit val n" for n using bit_unat_less [OF b(2) that] by simp
  have "\<not> unat val < 2 ^ ?m" using b(1) by simp
  then have "drop_bit ?m val \<noteq> 0" by (simp add: drop_bit_eq_0_iff_unat)
  then obtain k where "bit val (?m + k)"
    by (auto simp: bit_eq_iff [of _ 0] bit_drop_bit_eq)
  then show "bit val ?m" using le [of "?m + k"] by simp
qed

lemma findMsbSet_eqI:
  assumes "2 ^ m \<le> unat n" "unat n < 2 ^ (m + 1)"
  shows "findMsbSet n = int m"
proof -
  have "0 < unat n" by (rule less_le_trans [OF _ assms(1)]) simp
  then have nz: "n \<noteq> 0" by auto
  define l where "l = nat (findMsbSet n)"
  have f: "0 \<le> findMsbSet n" "2 ^ l \<le> unat n" "unat n < 2 ^ (l + 1)"
    using findMsbSet_bounds [OF nz] by (auto simp: l_def)
  have "(2::nat) ^ l < 2 ^ (m + 1)" "(2::nat) ^ m < 2 ^ (l + 1)"
    using f assms by linarith+
  then have "l < m + 1" "m < l + 1"
    by (blast dest: two_power_less_D)+
  then show ?thesis using f(1) by (simp add: l_def)
qed

definition lsb_inv :: "64 word \<Rightarrow> nat \<Rightarrow> int \<times> 64 word \<Rightarrow> bool" where
  "lsb_inv x k = (\<lambda>(m, v). 0 \<le> m \<and> drop_bit (nat m) x = v \<and> take_bit (nat m) x = 0 \<and> take_bit k v \<noteq> 0)"

lemma lsb_step_inv: "0 < k \<Longrightarrow> lsb_inv x (2 * k) s \<Longrightarrow> lsb_inv x k (lsb_step k s)"
proof (cases s)
  case (Pair m v)
  assume k: "0 < k" and inv: "lsb_inv x (2 * k) s"
  have *: "0 \<le> m" "v = drop_bit (nat m) x" "\<And>n. n < nat m \<Longrightarrow> \<not> bit x n"
    "\<exists>n<2 * k. bit v n"
    using inv unfolding Pair lsb_inv_def by (auto simp: take_bit_eq_0_iff_bits)
  show ?thesis
  proof (cases "take_bit k v = 0")
    case False
    then show ?thesis using inv k by (simp add: Pair lsb_step_def lsb_inv_def bits_raw_low)
  next
    case True
    then have low: "\<And>n. n < k \<Longrightarrow> \<not> bit v n" by (simp add: take_bit_eq_0_iff_bits)
    obtain n where n: "n < 2 * k" "bit v n" using *(4) by blast
    then have "k \<le> n" using low by (meson not_less)
    then have "\<exists>n<k. bit (drop_bit k v) n"
      using n by (intro exI [of _ "n - k"]) (simp add: bit_drop_bit_eq)
    moreover have "\<not> bit x n" if "n < nat m + k" for n
    proof (cases "n < nat m")
      case False
      then have "\<not> bit v (n - nat m)" using low that by simp
      then show ?thesis using False by (simp add: *(2) bit_drop_bit_eq)
    qed (simp add: *(3))
    ultimately show ?thesis
      using True k *(1) by (simp add: Pair lsb_step_def lsb_inv_def bits_raw_low nat_add_distrib
          take_bit_eq_0_iff_bits *(2) add.commute)
  qed
qed

lemma lsb_fold_inv:
  assumes "val \<noteq> 0"
  shows "lsb_inv val 1 (fold lsb_step [32, 16, 8, 4, 2, 1] (0, val))"
proof -
  have "lsb_inv val 64 (0, val)"
    using assms by (simp add: lsb_inv_def take_bit_word_eq_self)
  then have "lsb_inv val 32 (fold lsb_step [32] (0, val))"
    using lsb_step_inv [of 32] by simp
  then have "lsb_inv val 16 (fold lsb_step [32, 16] (0, val))"
    using lsb_step_inv [of 16] by simp
  then have "lsb_inv val 8 (fold lsb_step [32, 16, 8] (0, val))"
    using lsb_step_inv [of 8] by simp
  then have "lsb_inv val 4 (fold lsb_step [32, 16, 8, 4] (0, val))"
    using lsb_step_inv [of 4] by simp
  then have "lsb_inv val 2 (fold lsb_step [32, 16, 8, 4, 2] (0, val))"
    using lsb_step_inv [of 2] by simp
  then show ?thesis
    using lsb_step_inv [of 1] by simp
qed

lemma findLsbSet_ctz64: "findLsbSet val = int (ctz64 val)"
proof (cases "val = 0")
  case True
  then show ?thesis by (simp add: findLsbSet_def ctz64_def)
next
  case False
  obtain m v where mv: "fold lsb_step [32, 16, 8, 4, 2, 1] (0, val) = (m, v)"
    by (cases "fold lsb_step [32, 16, 8, 4, 2, 1] (0, val)")
  have inv: "lsb_inv val 1 (m, v)" using lsb_fold_inv [OF False] unfolding mv .
  then have "0 \<le> m" "bit val (nat m)" "\<And>k. k < nat m \<Longrightarrow> \<not> bit val k"
    using take_bit_eq_0_iff_bits [of 1 v] by (auto simp: lsb_inv_def take_bit_eq_0_iff_bits bit_drop_bit_eq)
  then have "int (ctz64 val) = m" using ctz64_eqI [of val "nat m"] by simp
  then show ?thesis unfolding findLsbSet_def mv using False by simp
qed

section \<open>Aligning to a power of two\<close>

definition smeared :: "nat \<Rightarrow> 64 word \<Rightarrow> 64 word \<Rightarrow> bool" where
  "smeared t v x \<longleftrightarrow> (\<forall>n. bit x n \<longleftrightarrow> (\<exists>d<t. bit v (n + d)))"

lemma smeared_1: "smeared 1 v v"
  by (simp add: smeared_def)

lemma smeared_double:
  assumes "smeared t v x"
  shows "smeared (2 * t) v (x OR drop_bit t x)"
proof -
  have "(\<exists>d<2 * t. bit v (n + d)) \<longleftrightarrow> (\<exists>d<t. bit v (n + d)) \<or> (\<exists>d<t. bit v (t + n + d))"
    (is "?L \<longleftrightarrow> ?R") for n
  proof
    assume ?L
    then obtain d where d: "d < 2 * t" "bit v (n + d)" by blast
    show ?R
    proof (cases "d < t")
      case False
      with d show ?R by (intro disjI2 exI [of _ "d - t"]) (simp add: algebra_simps)
    qed (use d in blast)
  next
    assume ?R
    then show ?L
    proof
      assume "\<exists>d<t. bit v (t + n + d)"
      then obtain d where "d < t" "bit v (t + n + d)" by blast
      then show ?L by (intro exI [of _ "t + d"]) (simp add: algebra_simps)
    next
      assume "\<exists>d<t. bit v (n + d)"
      then obtain d where "d < t" "bit v (n + d)" by blast
      then show ?L by (intro exI [of _ d]) simp
    qed
  qed
  with assms show ?thesis by (simp add: smeared_def bit_or_iff bit_drop_bit_eq)
qed

lemma smeared_64_mask:
  assumes "smeared 64 v x"
  shows "x = (if v = 0 then 0 else mask (nat (findMsbSet v) + 1))"
proof (cases "v = 0")
  case True
  then show ?thesis using assms by (intro bit_word_eqI) (simp add: smeared_def)
next
  case False
  let ?m = "nat (findMsbSet v)"
  have m: "bit v ?m" "\<And>n. bit v n \<Longrightarrow> n \<le> ?m" using findMsbSet_is_msb [OF False] by auto
  have m64: "?m < 64" using bit_imp_le_length [OF m(1)] by simp
  have x: "bit x n \<longleftrightarrow> n \<le> ?m" for n
  proof
    assume "bit x n"
    then obtain d where "bit v (n + d)" using assms by (auto simp: smeared_def)
    then show "n \<le> ?m" using m(2) by fastforce
  next
    assume "n \<le> ?m"
    then have "?m - n < 64 \<and> bit v (n + (?m - n))" using m(1) m64 by simp
    then show "bit x n" using assms unfolding smeared_def by blast
  qed
  have "x = mask (?m + 1)"
    by (rule bit_word_eqI) (use m64 in \<open>auto simp only: x bit_mask_iff possible_bit_word\<close>)
  then show ?thesis using False by simp
qed

lemma alignToPowerOfTwo_smear:
  "alignToPowerOfTwo val = (if val = 1 then 1 else mask (nat (findMsbSet (val - 1)) + 1) + 1)"
proof -
  let ?v = "val - 1"
  define x1 where "x1 = ?v OR drop_bit 1 ?v"
  define x2 where "x2 = x1 OR drop_bit 2 x1"
  define x4 where "x4 = x2 OR drop_bit 4 x2"
  define x8 where "x8 = x4 OR drop_bit 8 x4"
  define x16 where "x16 = x8 OR drop_bit 16 x8"
  define x32 where "x32 = x16 OR drop_bit 32 x16"
  have "smeared 2 ?v x1" using smeared_double [OF smeared_1] by (simp add: x1_def)
  then have "smeared 4 ?v x2" using smeared_double [of 2] by (simp add: x2_def)
  then have "smeared 8 ?v x4" using smeared_double [of 4] by (simp add: x4_def)
  then have "smeared 16 ?v x8" using smeared_double [of 8] by (simp add: x8_def)
  then have "smeared 32 ?v x16" using smeared_double [of 16] by (simp add: x16_def)
  then have "smeared 64 ?v x32" using smeared_double [of 32] by (simp add: x32_def)
  then have "x32 = (if ?v = 0 then 0 else mask (nat (findMsbSet ?v) + 1))"
    by (rule smeared_64_mask)
  moreover have "alignToPowerOfTwo val = x32 + 1"
    by (simp only: alignToPowerOfTwo_def Let_def x1_def x2_def x4_def x8_def x16_def x32_def)
  moreover have "?v = 0 \<longleftrightarrow> val = 1" by simp
  ultimately show ?thesis by (simp only: if_distrib [of "\<lambda>w. w + 1"] add_0)
qed

lemma alignToPowerOfTwo_zero: "alignToPowerOfTwo 0 = 0"
  by (simp add: alignToPowerOfTwo_def)

lemma alignToPowerOfTwo_spec:
  assumes "0 < unat val" "unat val \<le> 2 ^ 63"
  shows "\<exists>k. unat (alignToPowerOfTwo val) = 2 ^ k \<and> unat val \<le> 2 ^ k \<and> 2 ^ k < 2 * unat val"
proof (cases "val = 1")
  case True
  then show ?thesis by (intro exI [of _ 0]) (simp add: alignToPowerOfTwo_smear)
next
  case False
  have v: "unat (val - 1) = unat val - 1" using assms(1) by (metis unat_gt_0 unat_minus_one)
  have nz: "val - 1 \<noteq> 0" using False by simp
  define m where "m = nat (findMsbSet (val - 1))"
  have b: "2 ^ m \<le> unat val - 1" "unat val - 1 < 2 ^ (m + 1)"
    using findMsbSet_bounds [OF nz] unfolding m_def v by auto
  have "(2::nat) ^ m < 2 ^ 63" using b(1) assms by simp
  then have m63: "m < 63" by (rule two_power_less_D)
  have "alignToPowerOfTwo val = 2 ^ (m + 1)"
    using False by (simp add: alignToPowerOfTwo_smear m_def mask_eq_exp_minus_1)
  moreover have "unat ((2::64 word) ^ (m + 1)) = 2 ^ (m + 1)"
    using m63 by (intro unat_exp_lower) simp
  moreover have "unat val \<le> 2 ^ (m + 1)" using b(2) by linarith
  moreover have "2 ^ m < unat val" using b(1) assms(1) by linarith
  ultimately show ?thesis by (intro exI [of _ "m + 1"]) simp
qed

section \<open>Properties\<close>

text \<open>
  Also: \<open>insertBits\<close> writes exactly the bits \<open>lst\<close> to \<open>first\<close> of a word: reading
  the field back with \<open>bits\<close> gives the value written, cut to the field, and no bit outside changes.
\<close>

theorem insertBits_bits:
  assumes "0 \<le> lst" "lst \<le> first" "first < 64"
  shows "\<exists>w. insertBits val first lst bv = Ok w \<and>
     bits w first lst = Ok (take_bit (nat (first - lst + 1)) bv) \<and>
     (\<forall>n. int n < lst \<or> first < int n \<longrightarrow> bit w n = bit val n)"
  using insertBits_get [OF assms, of val bv] bit_insertBits_raw [OF assms(1,2), of val bv] assms
  by (simp add: insertBits_def bits_def)

theorem insertBits_bits_witness:
  "\<exists>w. insertBits 0xff00 11 4 0xab = Ok w \<and> bits w 11 4 = Ok 0xab"
  using insertBits_bits [of 4 11 "0xff00" "0xab"] by simp blast

text \<open>
  Also: for a value between 1 and \<open>2^63\<close>, \<open>alignToPowerOfTwo\<close> returns
  the least power of two that is not below it.
\<close>

theorem alignToPowerOfTwo_least:
  assumes "0 < unat val" "unat val \<le> 2 ^ 63"
  shows "\<exists>k. unat (alignToPowerOfTwo val) = 2 ^ k \<and> unat val \<le> 2 ^ k \<and>
     (\<forall>j. unat val \<le> 2 ^ j \<longrightarrow> k \<le> j)"
proof -
  obtain k where k: "unat (alignToPowerOfTwo val) = 2 ^ k" "unat val \<le> 2 ^ k" "2 ^ k < 2 * unat val"
    using alignToPowerOfTwo_spec [OF assms] by blast
  have "k \<le> j" if "unat val \<le> 2 ^ j" for j
  proof -
    have "(2 :: nat) ^ k < 2 ^ Suc j" using k(3) that by simp
    then show ?thesis by (simp only: power_strict_increasing_iff [of "2::nat"] one_less_numeral_iff
        less_Suc_eq_le semiring_norm)
  qed
  with k show ?thesis by blast
qed

theorem alignToPowerOfTwo_least_witness:
  "\<exists>k. unat (alignToPowerOfTwo 5000) = 2 ^ k \<and> (5000 :: nat) \<le> 2 ^ k \<and>
     (\<forall>j. (5000 :: nat) \<le> 2 ^ j \<longrightarrow> k \<le> j)"
  using alignToPowerOfTwo_least [of 5000] by simp

text \<open>The in-place forms of \<open>insertBits\<close>: the new value of the argument passed by reference.\<close>

definition replaceBits :: "64 word \<Rightarrow> int \<Rightarrow> int \<Rightarrow> 64 word \<Rightarrow> 64 word res" where
  "replaceBits val first last_bit bit_val = insertBits val first last_bit bit_val"

definition replaceBits1 :: "64 word \<Rightarrow> int \<Rightarrow> 64 word \<Rightarrow> 64 word res" where
  "replaceBits1 val b bit_val = insertBits val b b bit_val"

definition reverseLookUpTable :: "8 word list" where
  "reverseLookUpTable =
    [0x00, 0x80, 0x40, 0xc0, 0x20, 0xa0, 0x60, 0xe0, 0x10, 0x90, 0x50, 0xd0, 0x30, 0xb0, 0x70, 0xf0,
     0x08, 0x88, 0x48, 0xc8, 0x28, 0xa8, 0x68, 0xe8, 0x18, 0x98, 0x58, 0xd8, 0x38, 0xb8, 0x78, 0xf8,
     0x04, 0x84, 0x44, 0xc4, 0x24, 0xa4, 0x64, 0xe4, 0x14, 0x94, 0x54, 0xd4, 0x34, 0xb4, 0x74, 0xf4,
     0x0c, 0x8c, 0x4c, 0xcc, 0x2c, 0xac, 0x6c, 0xec, 0x1c, 0x9c, 0x5c, 0xdc, 0x3c, 0xbc, 0x7c, 0xfc,
     0x02, 0x82, 0x42, 0xc2, 0x22, 0xa2, 0x62, 0xe2, 0x12, 0x92, 0x52, 0xd2, 0x32, 0xb2, 0x72, 0xf2,
     0x0a, 0x8a, 0x4a, 0xca, 0x2a, 0xaa, 0x6a, 0xea, 0x1a, 0x9a, 0x5a, 0xda, 0x3a, 0xba, 0x7a, 0xfa,
     0x06, 0x86, 0x46, 0xc6, 0x26, 0xa6, 0x66, 0xe6, 0x16, 0x96, 0x56, 0xd6, 0x36, 0xb6, 0x76, 0xf6,
     0x0e, 0x8e, 0x4e, 0xce, 0x2e, 0xae, 0x6e, 0xee, 0x1e, 0x9e, 0x5e, 0xde, 0x3e, 0xbe, 0x7e, 0xfe,
     0x01, 0x81, 0x41, 0xc1, 0x21, 0xa1, 0x61, 0xe1, 0x11, 0x91, 0x51, 0xd1, 0x31, 0xb1, 0x71, 0xf1,
     0x09, 0x89, 0x49, 0xc9, 0x29, 0xa9, 0x69, 0xe9, 0x19, 0x99, 0x59, 0xd9, 0x39, 0xb9, 0x79, 0xf9,
     0x05, 0x85, 0x45, 0xc5, 0x25, 0xa5, 0x65, 0xe5, 0x15, 0x95, 0x55, 0xd5, 0x35, 0xb5, 0x75, 0xf5,
     0x0d, 0x8d, 0x4d, 0xcd, 0x2d, 0xad, 0x6d, 0xed, 0x1d, 0x9d, 0x5d, 0xdd, 0x3d, 0xbd, 0x7d, 0xfd,
     0x03, 0x83, 0x43, 0xc3, 0x23, 0xa3, 0x63, 0xe3, 0x13, 0x93, 0x53, 0xd3, 0x33, 0xb3, 0x73, 0xf3,
     0x0b, 0x8b, 0x4b, 0xcb, 0x2b, 0xab, 0x6b, 0xeb, 0x1b, 0x9b, 0x5b, 0xdb, 0x3b, 0xbb, 0x7b, 0xfb,
     0x07, 0x87, 0x47, 0xc7, 0x27, 0xa7, 0x67, 0xe7, 0x17, 0x97, 0x57, 0xd7, 0x37, 0xb7, 0x77, 0xf7,
     0x0f, 0x8f, 0x4f, 0xcf, 0x2f, 0xaf, 0x6f, 0xef, 0x1f, 0x9f, 0x5f, 0xdf, 0x3f, 0xbf, 0x7f, 0xff]"

fun reverse_loop :: "nat \<Rightarrow> 64 word \<Rightarrow> 64 word \<Rightarrow> 64 word" where
  "reverse_loop 0 val out = out"
| "reverse_loop (Suc n) val out =
     reverse_loop n (drop_bit 8 val) (push_bit 8 out OR ucast (reverseLookUpTable ! unat (val AND 0xff)))"

definition reverseBits :: "64 word \<Rightarrow> nat \<Rightarrow> 64 word res" where
  "reverseBits val sz = (if sz \<le> 8 then Ok (reverse_loop sz val 0) else Err Assert_Failed)"

lemma table_eq:
  "map uint reverseLookUpTable = map (\<lambda>b. horner_sum of_bool 2 (map (bit b) [7, 6, 5, 4, 3, 2, 1, 0])) [0..255]"
  by code_simp

lemma table_mirrors:
  assumes "b < 256" "i < 8"
  shows "bit (reverseLookUpTable ! b) i \<longleftrightarrow> bit b (7 - i)"
proof -
  have l: "length reverseLookUpTable = 256" using arg_cong [OF table_eq, of length] by simp
  have "uint (reverseLookUpTable ! b) = map uint reverseLookUpTable ! b" using l assms(1) by simp
  also have "\<dots> = horner_sum of_bool 2 (map (bit (int b)) [7, 6, 5, 4, 3, 2, 1, 0])"
    unfolding table_eq using assms(1) by (simp add: nth_upto del: list.map)
  finally have "bit (uint (reverseLookUpTable ! b)) i \<longleftrightarrow> bit (int b) ([7, 6, 5, 4, 3, 2, 1, 0] ! i)"
    using assms(2) by (simp add: bit_horner_sum_bit_iff del: list.map)
  moreover have "[7, 6, 5, 4, 3, 2, 1, 0] ! i = 7 - i" using assms(2) by (auto simp: less_Suc_eq numeral_eq_Suc)
  ultimately show ?thesis using assms(2) by (simp add: bit_uint_iff bit_of_nat_iff_bit)
qed

lemma reverse_loop_bit:
  assumes "8 * n \<le> 64"
  shows "bit (reverse_loop n val out) i \<longleftrightarrow> i < 64 \<and> (if i < 8 * n then bit val (8 * n - 1 - i) else bit out (i - 8 * n))"
  using assms
proof (induction n arbitrary: val out)
  case 0
  then show ?case using bit_imp_le_length [of out i] by auto
next
  case (Suc n)
  let ?b = "unat (val AND 0xff)" and ?i = "i - 8 * n"
  let ?out = "push_bit 8 out OR ucast (reverseLookUpTable ! ?b)"
  have v: "val AND 0xff = take_bit 8 val" by (simp add: take_bit_eq_mask mask_eq_exp_minus_1)
  have b: "?b < 256" unfolding v by (simp add: unat_take_bit)
  have bb: "bit ?b j \<longleftrightarrow> j < 8 \<and> bit val j" for j 
    unfolding v using bit_imp_le_length [of val j] by (auto simp: bit_unsigned_iff bit_take_bit_iff simp del: unsigned_take_bit_eq)
  have "bit ?out ?i \<longleftrightarrow> (if ?i < 8 then bit val (7 - ?i) else bit out (?i - 8))" if "8 * n \<le> i" "i < 64"
  proof (cases "?i < 8")
    case True
    have "7 - ?i < 8" by simp
    then have "bit (reverseLookUpTable ! ?b) ?i \<longleftrightarrow> bit val (7 - ?i)"
      using table_mirrors [OF b True] bb [of "7 - ?i"] by blast
    then show ?thesis using that True by (simp add: bit_or_iff bit_push_bit_iff bit_unsigned_iff)
  next
    case False
    then have "\<not> bit (reverseLookUpTable ! ?b) ?i" using bit_imp_le_length [of "reverseLookUpTable ! ?b" ?i] by auto
    moreover have "?i < 64" using that by linarith
    ultimately show ?thesis using that False by (simp add: bit_or_iff bit_push_bit_iff bit_unsigned_iff)
  qed
  then show ?case using Suc.IH [of "drop_bit 8 val" ?out] Suc.prems
    by (auto simp: bit_drop_bit_eq add.commute)
qed

text \<open>
  The reversal by the table of bytes mirrors the lowest \<open>sz\<close> bytes of a 64-bit value bit by
  bit and clears the rest. More bytes than the value has are refused.
\<close>

theorem reverseBits_mirrors:
  "if sz \<le> 8 then \<exists>r. reverseBits val sz = Ok r \<and> (\<forall>i. bit r i \<longleftrightarrow> i < 8 * sz \<and> bit val (8 * sz - 1 - i))
   else reverseBits val sz = Err Assert_Failed"
proof (cases "sz \<le> 8")
  case True
  then have "bit (reverse_loop sz val 0) i \<longleftrightarrow> i < 8 * sz \<and> bit val (8 * sz - 1 - i)" for i
    by (simp add: reverse_loop_bit)
  then show ?thesis using True by (simp add: reverseBits_def)
qed (simp add: reverseBits_def)

end
