(* ===== verification/IntMath.thy ===== *)
theory IntMath
  imports Bitfield
begin

text \<open>
  The integer helpers of \<open>src/base/intmath.hh\<close>: logarithms, powers of two, ceiling division
  and the rounding functions that page and region arithmetic rests on.
\<close>

unbundle bit_operations_syntax

section \<open>Definitions\<close>

text \<open>
  \<open>power\<close> squares and multiplies on \<open>uint64_t\<close>; its warning about an overflow does not change the
  result.
\<close>

function power_loop :: "32 word \<Rightarrow> 64 word \<Rightarrow> 64 word \<Rightarrow> 64 word" where
  "power_loop e component result =
     (if e = 0 then result
      else power_loop (drop_bit 1 e) (component * component)
             (if e AND 1 \<noteq> 0 then result * component else result))"
  by pat_completeness auto

termination power_loop
proof (relation "measure (\<lambda>(e, _). unat e)")
  fix e :: "32 word" and c r :: "64 word"
  assume "e \<noteq> 0"
  then have "0 < unat e" by (simp add: unat_gt_0)
  then have "unat (drop_bit 1 e) < unat e" by (simp only: unat_drop_bit) simp
  then show "((drop_bit 1 e, c * c, if e AND 1 \<noteq> 0 then r * c else r), e, c, r)
      \<in> measure (\<lambda>(e, _). unat e)" by simp
qed simp

definition power_u :: "32 word \<Rightarrow> 32 word \<Rightarrow> 64 word" where
  "power_u n e = power_loop e (ucast n) 1"

text \<open>
  \<open>floorLog2\<close> halves like \<open>findMsbSet\<close>, with a literal mask per line; the first three lines
  are guarded by the size \<open>ts\<close> of the operand type in bytes.
\<close>

definition flog2_step :: "nat \<Rightarrow> 64 word \<Rightarrow> int \<times> 64 word \<Rightarrow> int \<times> 64 word" where
  "flog2_step k m = (\<lambda>(y, ux). if ux AND m \<noteq> 0 then (y + int k, drop_bit k ux) else (y, ux))"

definition floorLog2 :: "nat \<Rightarrow> 64 word \<Rightarrow> int res" where
  "floorLog2 ts x = assert_that (x > 0)
     (let s = (0, x);
          s = (if ts \<ge> 8 then flog2_step 32 0xffffffff00000000 s else s);
          s = (if ts \<ge> 4 then flog2_step 16 0x00000000ffff0000 s else s);
          s = (if ts \<ge> 2 then flog2_step 8 0x000000000000ff00 s else s);
          s = flog2_step 4 0x00000000000000f0 s;
          s = flog2_step 2 0x000000000000000c s;
          s = flog2_step 1 0x0000000000000002 s
      in Ok (fst s))"

definition ceilLog2 :: "nat \<Rightarrow> 64 word \<Rightarrow> int res" where
  "ceilLog2 ts n = assert_that (n > 0)
     (if n = 1 then Ok 0 else bind_res (floorLog2 ts (n - 1)) (\<lambda>l. Ok (l + 1)))"

definition isPowerOf2 :: "64 word \<Rightarrow> bool" where
  "isPowerOf2 n \<longleftrightarrow> n \<noteq> 0 \<and> \<not> (n AND (n - 1) \<noteq> 0)"

text \<open>\<open>divCeil\<close> is used at type \<open>int64_t\<close>; C++ division truncates towards zero.\<close>

definition trunc_div :: "int \<Rightarrow> int \<Rightarrow> int" where
  "trunc_div a b = sgn a * sgn b * (\<bar>a\<bar> div \<bar>b\<bar>)"

definition divCeil :: "int \<Rightarrow> int \<Rightarrow> int" where
  "divCeil a b = trunc_div (a + b - 1) b"

definition roundUp :: "64 word \<Rightarrow> 64 word \<Rightarrow> 64 word res" where
  "roundUp val align = assert_that (isPowerOf2 align)
     (let mask = align - 1 in Ok ((val + mask) AND NOT mask))"

definition roundDown :: "64 word \<Rightarrow> 64 word \<Rightarrow> 64 word res" where
  "roundDown val align = assert_that (isPowerOf2 align)
     (let mask = align - 1 in Ok (val AND NOT mask))"

section \<open>Powers of two\<close>

lemma exp_minus_1_mask: "(2 :: 'a::len word) ^ k - 1 = mask k"
  by (simp add: mask_eq_exp_minus_1)

lemma isPowerOf2_exp: "k < 64 \<Longrightarrow> isPowerOf2 (2 ^ k)"
proof -
  assume k: "k < 64"
  have "(2 :: 64 word) ^ k AND mask k = 0"
    by (rule bit_word_eqI) (auto simp: bit_and_iff bit_exp_iff bit_mask_iff)
  moreover have "(2 :: 64 word) ^ k \<noteq> 0" using k by simp
  ultimately show ?thesis by (simp add: isPowerOf2_def exp_minus_1_mask)
qed

lemma isPowerOf2_imp_exp:
  assumes "isPowerOf2 n"
  shows "\<exists>k<64. n = 2 ^ k"
proof -
  have nz: "n \<noteq> 0" and conj: "n AND (n - 1) = 0" using assms by (auto simp: isPowerOf2_def)
  define m where "m = nat (findMsbSet n)"
  have bm: "bit n m" using findMsbSet_is_msb(1) [OF nz] by (simp add: m_def)
  have m64: "m < 64" using bit_imp_le_length [OF bm] by simp
  have b: "2 ^ m \<le> unat n" "unat n < 2 ^ (m + 1)" using findMsbSet_bounds [OF nz] by (auto simp: m_def)
  have "unat n = 2 ^ m"
  proof (rule ccontr)
    assume "unat n \<noteq> 2 ^ m"
    then have lower: "2 ^ m \<le> unat (n - 1)" using b(1) nz by (simp add: unat_minus_one)
    have upper: "unat (n - 1) < 2 ^ (m + 1)" using b(2) nz by (simp add: unat_minus_one)
    have "0 < unat (n - 1)" by (rule less_le_trans [OF _ lower]) simp
    then have nz': "n - 1 \<noteq> 0" by (metis unat_0 less_irrefl)
    have "findMsbSet (n - 1) = int m" using lower upper by (rule findMsbSet_eqI)
    then have "bit (n - 1) m" using findMsbSet_is_msb(1) [OF nz'] by simp
    then have "bit (n AND (n - 1)) m" using bm by (simp add: bit_and_iff)
    then show False by (simp add: conj)
  qed
  then have "unat n = unat ((2 :: 64 word) ^ m)" using m64 by (simp add: unat_exp_lower)
  then have "n = 2 ^ m" by (rule unsigned_word_eqI)
  then show ?thesis using m64 by blast
qed

lemma isPowerOf2_iff: "isPowerOf2 n \<longleftrightarrow> (\<exists>k<64. n = 2 ^ k)"
  using isPowerOf2_exp isPowerOf2_imp_exp by blast


section \<open>Logarithms\<close>

lemma flog2_step_msb_step:
  assumes k: "0 < k" "2 * k \<le> 64" and m: "m = push_bit k (mask k)" and inv: "msb_inv x (2 * k) s"
  shows "flog2_step k m s = msb_step k s"
proof (cases s)
  case (Pair y v)
  have lim: "unat v < 2 ^ (2 * k)" using inv by (simp add: Pair msb_inv_def)
  have "v AND m = push_bit k (drop_bit k v)"
  proof (rule bit_word_eqI)
    fix n
    show "bit (v AND m) n = bit (push_bit k (drop_bit k v)) n"
      using bit_unat_less [OF lim, of n] k
      by (auto simp: m bit_and_iff bit_push_bit_iff bit_mask_iff bit_drop_bit_eq)
  qed
  moreover have "push_bit k (drop_bit k v) = 0 \<longleftrightarrow> drop_bit k v = 0"
  proof
    assume *: "push_bit k (drop_bit k v) = 0"
    have "bit v (k + n) \<Longrightarrow> False" for n
      using arg_cong [OF *, of "\<lambda>w. bit w (k + n)"] bit_imp_le_length [of v "k + n"]
      by (simp add: bit_push_bit_iff bit_drop_bit_eq)
    then show "drop_bit k v = 0" by (intro bit_word_eqI) (auto simp: bit_drop_bit_eq)
  qed simp
  ultimately show ?thesis
    by (simp add: Pair flog2_step_def msb_step_def bits_raw_high [OF k(1) lim])
qed

lemma flog2_step_inv:
  assumes "0 < k" "2 * k \<le> 64" "m = push_bit k (mask k)" "msb_inv x (2 * k) s"
  shows "msb_inv x k (flog2_step k m s)"
  using assms by (simp add: flog2_step_msb_step msb_step_inv)

lemma msb_inv_findMsbSet: "msb_inv x 1 s \<Longrightarrow> fst s = findMsbSet x"
  using msb_inv_bounds [of x "fst s" "snd s"] findMsbSet_eqI [of "nat (fst s)" x]
  by (auto simp: msb_inv_def split: prod.splits)


lemma floorLog2_eq:
  assumes x: "x \<noteq> 0" and ts: "ts \<in> {1, 2, 4, 8}" "unat x < 2 ^ (8 * ts)"
  shows "floorLog2 ts x = Ok (findMsbSet x)"
proof -
  note step = flog2_step_inv [of _ _ x]
  define s32 where "s32 = (if ts \<ge> 8 then flog2_step 32 0xffffffff00000000 (0, x) else (0, x))"
  define s16 where "s16 = (if ts \<ge> 4 then flog2_step 16 0x00000000ffff0000 s32 else s32)"
  define s8 where "s8 = (if ts \<ge> 2 then flog2_step 8 0x000000000000ff00 s16 else s16)"
  define s4 where "s4 = flog2_step 4 0x00000000000000f0 s8"
  define s2 where "s2 = flog2_step 2 0x000000000000000c s4"
  define s1 where "s1 = flog2_step 1 0x0000000000000002 s2"
  have start: "msb_inv x (8 * ts) (0, x)" using x ts by (simp add: msb_inv_def)
  have "msb_inv x (min 32 (8 * ts)) s32"
    using start ts(1) step [of 32 "0xffffffff00000000" "(0, x)"] by (auto simp: s32_def mask_eq_exp_minus_1)
  then have "msb_inv x (min 16 (8 * ts)) s16"
    using ts(1) step [of 16 "0x00000000ffff0000" s32] by (auto simp: s16_def s32_def mask_eq_exp_minus_1)
  then have "msb_inv x 8 s8"
    using ts(1) step [of 8 "0x000000000000ff00" s16] by (auto simp: s8_def mask_eq_exp_minus_1)
  then have "msb_inv x 4 s4"
    using step [of 4 "0x00000000000000f0" s8] by (simp add: s4_def mask_eq_exp_minus_1)
  then have "msb_inv x 2 s2"
    using step [of 2 "0x000000000000000c" s4] by (simp add: s2_def mask_eq_exp_minus_1)
  then have "msb_inv x 1 s1"
    using step [of 1 "0x0000000000000002" s2] by (simp add: s1_def mask_eq_exp_minus_1)
  then have "fst s1 = findMsbSet x" by (rule msb_inv_findMsbSet)
  moreover have "x > 0" using x by (simp add: word_gt_0)
  ultimately show ?thesis
    by (simp only: floorLog2_def Let_def assert_that_True s32_def s16_def s8_def s4_def s2_def s1_def)
qed

lemma findMsbSet_exp: "k < 64 \<Longrightarrow> findMsbSet (2 ^ k) = int k"
  by (rule findMsbSet_eqI) (simp_all add: unat_exp_lower)

lemma floorLog2_exp: "k < 64 \<Longrightarrow> floorLog2 8 (2 ^ k) = Ok (int k)"
  using unsigned_less [of "(2::64 word) ^ k"] by (subst floorLog2_eq) (simp_all add: findMsbSet_exp)

section \<open>Rounding\<close>

lemma unat_and_not_mask:
  fixes v :: "'a::len word"
  shows "unat (v AND NOT (mask k)) = unat v - unat v mod 2 ^ k"
proof -
  have "v AND NOT (mask k) = push_bit k (drop_bit k v)"
    by (rule bit_word_eqI) (auto simp: bit_and_iff bit_not_iff bit_mask_iff bit_push_bit_iff bit_drop_bit_eq)
  then have "unat (v AND NOT (mask k)) = take_bit LENGTH('a) (push_bit k (drop_bit k (unat v)))"
    by (simp only: unsigned_push_bit_eq unat_drop_bit_eq)
  also have "push_bit k (drop_bit k (unat v)) = unat v - unat v mod 2 ^ k"
    by (simp only: push_bit_eq_mult drop_bit_eq_div minus_mod_eq_div_mult)
  also have "take_bit LENGTH('a) (unat v - unat v mod 2 ^ k) = unat v - unat v mod 2 ^ k"
  proof (rule take_bit_nat_eq_self)
    have "unat v < 2 ^ LENGTH('a)" by (rule unsigned_less)
    then show "unat v - unat v mod 2 ^ k < 2 ^ LENGTH('a)" by linarith
  qed
  finally show ?thesis .
qed

lemma roundDown_spec:
  assumes "isPowerOf2 align"
  shows "\<exists>w. roundDown val align = Ok w \<and> unat w = unat val - unat val mod unat align"
proof -
  obtain k where k: "k < 64" "align = 2 ^ k" using assms isPowerOf2_iff by blast
  have "unat (val AND NOT (align - 1)) = unat val - unat val mod unat align"
    using k by (simp only: exp_minus_1_mask unat_and_not_mask) (simp add: unat_exp_lower)
  then show ?thesis using assms by (simp add: roundDown_def)
qed

lemma roundUp_spec:
  assumes "isPowerOf2 align" and "unat val + (unat align - 1) < 2 ^ 64"
  shows "\<exists>w. roundUp val align = Ok w \<and> unat align dvd unat w \<and> unat val \<le> unat w \<and>
             unat w < unat val + unat align"
proof -
  obtain k where k: "k < 64" "align = 2 ^ k" using assms isPowerOf2_iff by blast
  have a: "unat align = 2 ^ k" using k by (simp add: unat_exp_lower)
  have "unat (align - 1) = unat align - 1"
    using k by (intro unat_minus_one) simp
  then have sum: "unat (val + (align - 1)) = unat val + (2 ^ k - 1)"
    using assms(2) a by (simp add: unat_word_ariths)
  define w where "w = (val + (align - 1)) AND NOT (align - 1)"
  have "unat w = unat (val + (align - 1)) - unat (val + (align - 1)) mod 2 ^ k"
    using k(2) by (simp only: w_def exp_minus_1_mask unat_and_not_mask)
  then have w: "unat w = unat val + (2 ^ k - 1) - (unat val + (2 ^ k - 1)) mod 2 ^ k" by (simp only: sum)
  have m: "(unat val + (2 ^ k - 1)) mod 2 ^ k < 2 ^ k" by simp
  have "2 ^ k dvd unat w" unfolding w by (rule dvd_minus_mod)
  moreover have "unat val \<le> unat w" "unat w < unat val + 2 ^ k"
    using m unfolding w by linarith+
  moreover have "roundUp val align = Ok w"
    using assms(1) by (simp only: roundUp_def assert_that_True Let_def w_def)
  ultimately show ?thesis unfolding a by blast
qed

lemma roundUp_aligned:
  assumes "isPowerOf2 align" and "unat val + (unat align - 1) < 2 ^ 64" and "unat align dvd unat val"
  shows "roundUp val align = Ok val"
proof -
  obtain w where w: "roundUp val align = Ok w" "unat align dvd unat w" "unat val \<le> unat w"
    "unat w < unat val + unat align"
    using roundUp_spec [OF assms(1,2)] by blast
  have "unat align dvd unat w - unat val" using w(2) assms(3) by (rule dvd_diff_nat)
  moreover have "unat w - unat val < unat align" using w(3,4) by linarith
  ultimately have "unat w = unat val" using w(3) by (auto dest: dvd_imp_le)
  then show ?thesis using w(1) by (simp add: unsigned_word_eqI)
qed

section \<open>Ceiling division\<close>

lemma divCeil_spec:
  assumes "0 \<le> a" "0 < b"
  shows "divCeil a b = (a + b - 1) div b" and "a \<le> divCeil a b * b" and "divCeil a b * b < a + b"
proof -
  have "0 \<le> a + b - 1" using assms by simp
  then show eq: "divCeil a b = (a + b - 1) div b"
    using assms by (cases "a + b - 1 = 0") (auto simp: divCeil_def trunc_div_def)
  have "(a + b - 1) div b * b = a + b - 1 - (a + b - 1) mod b"
    by (simp add: minus_mod_eq_div_mult)
  moreover have "0 \<le> (a + b - 1) mod b" "(a + b - 1) mod b < b" using assms by simp_all
  ultimately show "a \<le> divCeil a b * b" "divCeil a b * b < a + b"
    unfolding eq by linarith+
qed

section \<open>Powers\<close>

declare power_loop.simps [simp del]

lemma power_loop_eq: "power_loop e c r = r * c ^ unat e"
proof (induction e c r rule: power_loop.induct)
  case (1 e c r)
  show ?case
  proof (cases "e = 0")
    case True
    then show ?thesis by (simp add: power_loop.simps)
  next
    case False
    define h where "h = unat (drop_bit 1 e)"
    have b: "e AND 1 \<noteq> 0 \<longleftrightarrow> odd (unat e)"
    proof -
      have "odd (unat e) \<longleftrightarrow> odd e" using bit_unsigned_iff [of e 0] by (simp add: bit_0)
      then show ?thesis by (simp add: and_one_eq mod_2_eq_odd)
    qed
    have h: "unat e = 2 * h + unat e mod 2" unfolding h_def by (simp only: unat_drop_bit) simp
    have c: "(c * c) ^ h = c ^ (2 * h)" by (simp add: power_mult power2_eq_square)
    have step: "power_loop e c r = (if odd (unat e) then r * c else r) * (c * c) ^ h"
    proof -
      have "power_loop e c r = power_loop (drop_bit 1 e) (c * c) (if e AND 1 \<noteq> 0 then r * c else r)"
        using False by (subst power_loop.simps) (simp only: if_False)
      then show ?thesis using 1 [OF False] by (simp only: b h_def)
    qed
    show ?thesis
    proof (cases "odd (unat e)")
      case True
      then have "unat e = 2 * h + 1" using h by (simp add: odd_iff_mod_2_eq_one)
      then show ?thesis using True unfolding step c by simp
    next
      case False
      then have "unat e = 2 * h" using h by simp
      then show ?thesis using False unfolding step c by simp
    qed
  qed
qed

section \<open>Properties\<close>

text \<open>
  Also: \<open>floorLog2\<close> of a non-zero value of each operand width is the
  exponent of the largest power of two not above it, and \<open>power\<close> is exponentiation modulo \<open>2^64\<close>.
\<close>

theorem intmath_logs_and_powers:
  assumes "x \<noteq> 0" "ts \<in> {1, 2, 4, 8}" "unat x < 2 ^ (8 * ts)"
  shows "(\<exists>l. floorLog2 ts x = Ok (int l) \<and> 2 ^ l \<le> unat x \<and> unat x < 2 ^ (l + 1)) \<and>
         unat (power_u n e) = unat n ^ unat e mod 2 ^ 64"
proof
  have "floorLog2 ts x = Ok (int (nat (findMsbSet x)))"
    using floorLog2_eq [OF assms] findMsbSet_bounds [OF assms(1)] by simp
  then show "\<exists>l. floorLog2 ts x = Ok (int l) \<and> 2 ^ l \<le> unat x \<and> unat x < 2 ^ (l + 1)"
    using findMsbSet_bounds [OF assms(1)] by blast
  have "power_u n e = of_nat (unat n ^ unat e)"
    unfolding power_u_def power_loop_eq by simp
  moreover have "unat (of_nat k :: 64 word) = k mod 2 ^ 64" for k
    by (simp add: unsigned_of_nat take_bit_eq_mod)
  ultimately show "unat (power_u n e) = unat n ^ unat e mod 2 ^ 64" by (simp only:)
qed

theorem intmath_logs_and_powers_witness:
  "(\<exists>l. floorLog2 4 1000 = Ok (int l) \<and> 2 ^ l \<le> (1000::nat) \<and> (1000::nat) < 2 ^ (l + 1)) \<and>
   unat (power_u 3 4) = 81"
  using intmath_logs_and_powers [of 1000 4 3 4] by simp

text \<open>
  Also: for a power-of-two alignment, \<open>roundDown\<close> gives the largest multiple
  not above the value and, when the value is not within an alignment of \<open>2^64\<close>, \<open>roundUp\<close> the
  smallest multiple not below it; any other alignment fails the assertion.
\<close>

theorem rounding_correct:
  "if isPowerOf2 align then
     (\<exists>w. roundDown val align = Ok w \<and> unat w = unat val - unat val mod unat align) \<and>
     (unat val + (unat align - 1) < 2 ^ 64 \<longrightarrow>
       (\<exists>w. roundUp val align = Ok w \<and> unat align dvd unat w \<and> unat val \<le> unat w \<and>
            unat w < unat val + unat align))
   else roundDown val align = Err Assert_Failed \<and> roundUp val align = Err Assert_Failed"
  using roundDown_spec roundUp_spec by (simp add: roundDown_def roundUp_def)

theorem rounding_correct_witness:
  "(\<exists>w. roundDown 5000 4096 = Ok w \<and> unat w = 4096) \<and>
   (\<exists>w. roundUp 5000 4096 = Ok w \<and> 4096 dvd unat w \<and> 5000 \<le> unat w \<and> unat w < 9096)"
proof -
  have "isPowerOf2 4096" using isPowerOf2_exp [of 12] by simp
  then show ?thesis using rounding_correct [of 4096 5000] by simp
qed

end
