(* ===== verification/Addr_Range.thy ===== *)
theory Addr_Range
  imports IntMath
begin

text \<open>
  Address ranges, \<open>src/base/addr_range.hh\<close>: a half-open interval of addresses, optionally
  interleaved. Each mask of an interleaved range xors some address bits to one bit of a selector,
  and an address belongs to the range when the selector equals \<open>intlvMatch\<close>.

  The lemmas relate every test of the class (\<open>contains\<close>, \<open>intersects\<close>, \<open>isSubset\<close>, \<open>mergesWith\<close>)
  to the set of addresses of a range, and show when \<open>getOffset\<close>, which decides where an address of
  an interleaved memory is stored, keeps distinct addresses apart.
\<close>

unbundle bit_operations_syntax

section \<open>The class\<close>

record addr_range =
  ar_start :: addr
  ar_end :: addr
  ar_masks :: "addr list"
  ar_match :: "8 word"

definition AddrRange_empty :: addr_range where
  "AddrRange_empty = \<lparr>ar_start = 1, ar_end = 0, ar_masks = [], ar_match = 0\<rparr>"

definition AddrRange_masks :: "addr \<Rightarrow> addr \<Rightarrow> addr list \<Rightarrow> 8 word \<Rightarrow> addr_range res" where
  "AddrRange_masks st en ms m =
     (if ms \<noteq> [] \<and> unat m \<ge> 2 ^ length ms then Err Fatal
      else Ok \<lparr>ar_start = st, ar_end = en, ar_masks = ms, ar_match = m\<rparr>)"

text \<open>
  The loop of the bit-position constructor fills \<open>masks[_intlv_bits - i - 1]\<close> for increasing
  \<open>i\<close>; \<open>bit1\<close> and \<open>bit2\<close> are \<open>uint8_t\<close> and wrap.
\<close>

definition xor_mask :: "8 word \<Rightarrow> 8 word \<Rightarrow> nat \<Rightarrow> addr res" where
  "xor_mask intlv_high xor_high i =
     (let bit1 = intlv_high - of_nat i; bit2 = xor_high - of_nat i
      in if unat bit1 \<ge> 64 then Err Undefined
         else if xor_high = 0 then Ok (push_bit (unat bit1) 1)
         else if unat bit2 \<ge> 64 then Err Undefined
         else Ok (push_bit (unat bit1) 1 OR push_bit (unat bit2) 1))"

fun xor_masks_loop :: "8 word \<Rightarrow> 8 word \<Rightarrow> nat \<Rightarrow> nat \<Rightarrow> addr list \<Rightarrow> addr list res" where
  "xor_masks_loop ih xh n 0 ms = Ok ms"
| "xor_masks_loop ih xh n (Suc left) ms =
     (let i = n - Suc left
      in bind_res (xor_mask ih xh i) (\<lambda>msk. xor_masks_loop ih xh n left (ms[n - i - 1 := msk])))"

definition xor_bits_clash :: "8 word \<Rightarrow> 8 word \<Rightarrow> 8 word \<Rightarrow> bool" where
  "xor_bits_clash intlv_high xor_high intlv_bits \<longleftrightarrow>
     intlv_bits \<noteq> 0 \<and> xor_high \<noteq> 0 \<and>
     (if xor_high = intlv_high then True
      else if xor_high > intlv_high then unat xor_high - unat intlv_high < unat intlv_bits
      else unat intlv_high - unat xor_high < unat intlv_bits)"

definition AddrRange_xor ::
    "addr \<Rightarrow> addr \<Rightarrow> 8 word \<Rightarrow> 8 word \<Rightarrow> 8 word \<Rightarrow> 8 word \<Rightarrow> addr_range res" where
  "AddrRange_xor st en intlv_high xor_high intlv_bits m =
     (if intlv_bits \<noteq> 0 \<and> unat m \<ge> 2 ^ unat intlv_bits then Err Fatal
      else if xor_bits_clash intlv_high xor_high intlv_bits then Err Fatal
      else bind_res
        (xor_masks_loop intlv_high xor_high (unat intlv_bits) (unat intlv_bits)
          (replicate (unat intlv_bits) 0))
        (\<lambda>ms. Ok \<lparr>ar_start = st, ar_end = en, ar_masks = ms, ar_match = m\<rparr>))"

definition AddrRange :: "addr \<Rightarrow> addr \<Rightarrow> addr_range" where
  "AddrRange st en = \<lparr>ar_start = st, ar_end = en, ar_masks = [], ar_match = 0\<rparr>"

definition interleaved :: "addr_range \<Rightarrow> bool" where
  "interleaved r \<longleftrightarrow> length (ar_masks r) > 0"

definition range_size :: "addr_range \<Rightarrow> addr" where
  "range_size r = drop_bit (length (ar_masks r)) (ar_end r - ar_start r)"

text \<open>\<open>combined_mask\<close> is declared \<open>auto\<close> from the literal 0, that is, a 32-bit signed \<open>int\<close>.\<close>

definition granularity :: "addr_range \<Rightarrow> addr res" where
  "granularity r =
     (if interleaved r then
        let combined_mask = fold (\<lambda>m c. c OR ucast m) (ar_masks r) (0 :: 32 word);
            lowest_bit = ctz64 (scast combined_mask)
        in if lowest_bit \<ge> 64 then Err Undefined else Ok (push_bit lowest_bit 1)
      else Ok (range_size r))"

definition stripes :: "addr_range \<Rightarrow> 32 word" where
  "stripes r = ucast (push_bit (length (ar_masks r)) (1 :: 64 word))"

definition range_valid :: "addr_range \<Rightarrow> bool" where
  "range_valid r \<longleftrightarrow> ar_start r \<le> ar_end r"

definition mergesWith :: "addr_range \<Rightarrow> addr_range \<Rightarrow> bool" where
  "mergesWith this r \<longleftrightarrow>
     ar_start r = ar_start this \<and> ar_end r = ar_end this \<and> ar_masks r = ar_masks this"

definition intlv_sel :: "addr list \<Rightarrow> addr \<Rightarrow> 32 word" where
  "intlv_sel ms a =
     fold (\<lambda>i sel. sel OR push_bit i (of_nat (popCount (a AND ms ! i) mod 2))) [0..<length ms] 0"

definition range_contains :: "addr_range \<Rightarrow> addr \<Rightarrow> bool" where
  "range_contains r a \<longleftrightarrow>
     (let in_range = a \<ge> ar_start r \<and> a < ar_end r
      in if in_range then intlv_sel (ar_masks r) a = ucast (ar_match r) else False)"

definition range_intersects :: "addr_range \<Rightarrow> addr_range \<Rightarrow> bool res" where
  "range_intersects this r =
     (if ar_start this \<ge> ar_end r \<or> ar_end this \<le> ar_start r then Ok False
      else if \<not> interleaved this \<and> \<not> interleaved r then Ok True
      else if range_size r = 1 then Ok (range_contains this (ar_start r))
      else if mergesWith this r then Ok (ar_match this = ar_match r)
      else Err Panic)"

definition range_isSubset :: "addr_range \<Rightarrow> addr_range \<Rightarrow> bool res" where
  "range_isSubset this r =
     (if interleaved this then Err Panic
      else if interleaved r then
        if range_contains r (ar_start this) \<and> range_contains r (ar_end this - 1)
        then bind_res (granularity r) (\<lambda>g. Ok (range_size this \<le> g))
        else Ok False
      else Ok (ar_start this \<ge> ar_start r \<and> ar_end this \<le> ar_end r))"

text \<open>
  \<open>removeIntlvBits\<close> and \<open>addIntlvBits\<close>: the least significant bit of every mask is collected
  and sorted; then the loops below run over the sorted positions with their index \<open>i\<close>.
\<close>

definition masks_lsb :: "addr list \<Rightarrow> nat list" where
  "masks_lsb ms = sort (map ctz64 ms)"

fun remove_loop :: "nat list \<Rightarrow> nat \<Rightarrow> addr \<Rightarrow> addr res" where
  "remove_loop [] i a = Ok a"
| "remove_loop (intlv_bit # bs) i a =
     bind_res
       (if intlv_bit > 0 then insertBits (drop_bit 1 a) (int intlv_bit - int i - 1) 0 a
        else Ok (drop_bit 1 a))
       (\<lambda>a. remove_loop bs (Suc i) a)"

definition removeIntlvBits :: "addr_range \<Rightarrow> addr \<Rightarrow> addr res" where
  "removeIntlvBits r a = remove_loop (masks_lsb (ar_masks r)) 0 a"

fun add_loop :: "nat list \<Rightarrow> nat \<Rightarrow> addr \<Rightarrow> addr res" where
  "add_loop [] i a = Ok a"
| "add_loop (intlv_bit # bs) i a =
     bind_res
       (if intlv_bit > 0 then insertBits (push_bit 1 a) (int intlv_bit + int i - 1) 0 a
        else Ok (push_bit 1 a))
       (\<lambda>a. add_loop bs (Suc i) a)"

text \<open>
  The second loop of \<open>addIntlvBits\<close>: \<open>~(1 << lsb)\<close> is computed on 32-bit \<open>int\<close>s and sign-extended
  to \<open>Addr\<close>; a shift by 32 or more is undefined.
\<close>

fun set_sel_loop :: "addr list \<Rightarrow> 8 word \<Rightarrow> nat \<Rightarrow> addr \<Rightarrow> addr res" where
  "set_sel_loop [] m i a = Ok a"
| "set_sel_loop (msk # ms) m i a =
     (let lsb = ctz64 msk
      in if lsb \<ge> 32 then Err Undefined
         else bind_res (bits1 m (int i)) (\<lambda>intlv_bit.
           let masked = a AND msk AND scast (NOT (push_bit lsb (1 :: 32 word)))
           in bind_res (insertBits1 a (int lsb) (ucast intlv_bit XOR of_nat (popCount masked)))
                (\<lambda>a. set_sel_loop ms m (Suc i) a)))"

definition addIntlvBits :: "addr_range \<Rightarrow> addr \<Rightarrow> addr res" where
  "addIntlvBits r a =
     bind_res (add_loop (masks_lsb (ar_masks r)) 0 a)
       (\<lambda>a. set_sel_loop (ar_masks r) (ar_match r) 0 a)"

definition MaxAddr :: addr where
  "MaxAddr = - 1"

definition getOffset :: "addr_range \<Rightarrow> addr \<Rightarrow> addr res" where
  "getOffset r a =
     (let in_range = a \<ge> ar_start r \<and> a < ar_end r
      in if \<not> in_range then Ok MaxAddr
         else if interleaved r then
           bind_res (removeIntlvBits r a) (\<lambda>x.
             bind_res (removeIntlvBits r (ar_start r)) (\<lambda>y. Ok (x - y)))
         else Ok (a - ar_start r))"

definition range_less :: "addr_range \<Rightarrow> addr_range \<Rightarrow> bool" where
  "range_less this r \<longleftrightarrow>
     (if ar_start this \<noteq> ar_start r then ar_start this < ar_start r
      else ar_match this < ar_match r)"

definition range_eq :: "addr_range \<Rightarrow> addr_range \<Rightarrow> bool" where
  "range_eq this r \<longleftrightarrow>
     (if ar_start this \<noteq> ar_start r then False
      else if ar_end this \<noteq> ar_end r then False
      else if ar_masks this \<noteq> ar_masks r then False
      else if ar_match this \<noteq> ar_match r then False
      else True)"

text \<open>Merging a list of interleaved ranges back to one contiguous range.\<close>

fun merge_check :: "addr_range \<Rightarrow> addr_range list \<Rightarrow> 8 word \<Rightarrow> unit res" where
  "merge_check this [] m = Ok ()"
| "merge_check this (r # rs) m =
     (if \<not> mergesWith this r then Err Fatal
      else if ar_match r \<noteq> m then Err Fatal
      else merge_check this rs (m + 1))"

definition AddrRange_merge :: "addr_range list \<Rightarrow> addr_range res" where
  "AddrRange_merge ranges =
     (let this = (case ranges of [] \<Rightarrow> AddrRange_empty | r # _ \<Rightarrow> r)
      in if length ranges > 1 then
           if length ranges \<noteq> 2 ^ length (ar_masks this) then Err Fatal
           else bind_res (merge_check this ranges 0)
             (\<lambda>_. Ok (this\<lparr>ar_masks := [], ar_match := 0\<rparr>))
         else Ok this)"

definition RangeEx :: "addr \<Rightarrow> addr \<Rightarrow> addr_range" where
  "RangeEx st en = AddrRange st en"

definition RangeIn :: "addr \<Rightarrow> addr \<Rightarrow> addr_range" where
  "RangeIn st en = AddrRange st (en + 1)"

definition RangeSize :: "addr \<Rightarrow> addr \<Rightarrow> addr_range" where
  "RangeSize st sz = AddrRange st (st + sz)"

section \<open>The addresses of a range\<close>

definition range_set :: "addr_range \<Rightarrow> addr set" where
  "range_set r = {a. range_contains r a}"

text \<open>
  Sensible selector fields: no match value without masks (the constructors accept one, and such a
  range contains nothing), and no more masks than the selector, a C++ \<open>int\<close>, has value bits.
\<close>

definition range_wf :: "addr_range \<Rightarrow> bool" where
  "range_wf r \<longleftrightarrow> (ar_masks r = [] \<longrightarrow> ar_match r = 0) \<and> length (ar_masks r) < 32"

section \<open>Population count\<close>

lemma popCount_card: "popCount x = card {n. bit x n}"
proof -
  have "popCount x = card (set (filter (bit x) [0..<64]))"
    by (simp only: popCount_def distinct_card distinct_filter distinct_upt)
  moreover have "set (filter (bit x) [0..<64]) = {n. bit x n}"
    using bit_imp_le_length [of x] by auto
  ultimately show ?thesis by simp
qed

lemma finite_bits [simp]: "finite {n. bit (x :: 'a::len word) n}"
  by (rule finite_subset [of _ "{..<LENGTH('a)}"]) (auto dest: bit_imp_le_length)

lemma popCount_except:
  "popCount x = card ({n. bit x n} - {k}) + (if bit x k then 1 else 0)"
proof (cases "bit x k")
  case True
  then show ?thesis
    using card.remove [OF finite_bits, of k x] by (simp add: popCount_card)
qed (simp add: popCount_card)

lemma popCount_parity_bit:
  assumes agree: "\<And>n. n \<noteq> k \<Longrightarrow> bit x n = bit y n"
    and par: "popCount x mod 2 = popCount y mod 2"
  shows "bit x k = bit y k"
proof -
  have "{n. bit x n} - {k} = {n. bit y n} - {k}" using agree by auto
  then obtain c where "popCount x = c + of_bool (bit x k)" "popCount y = c + of_bool (bit y k)"
    using popCount_except [of x k] popCount_except [of y k] by auto
  with par show ?thesis by (cases "bit x k"; cases "bit y k") (simp_all, presburger+)
qed

section \<open>The selector\<close>

lemma bit_intlv_sel:
  "bit (intlv_sel ms a) j \<longleftrightarrow> j < length ms \<and> j < 32 \<and> odd (popCount (a AND ms ! j))"
proof -
  have "bit (fold (\<lambda>i sel. sel OR push_bit i (of_nat (popCount (a AND ms ! i) mod 2))) [0..<n] (0 :: 32 word)) j
    \<longleftrightarrow> j < n \<and> j < 32 \<and> odd (popCount (a AND ms ! j))" for n
  proof (induction n)
    case (Suc n)
    have par: "popCount (a AND ms ! n) mod 2 = of_bool (odd (popCount (a AND ms ! n)))"
      by (rule mod_2_eq_odd)
    have "bit (push_bit n (of_nat (popCount (a AND ms ! n) mod 2)) :: 32 word) j
      \<longleftrightarrow> j = n \<and> j < 32 \<and> odd (popCount (a AND ms ! n))"
      unfolding par by (auto simp: bit_push_bit_iff bit_1_iff)
    with Suc show ?case by (auto simp: bit_or_iff less_Suc_eq)
  qed simp
  then show ?thesis by (simp add: intlv_sel_def)
qed

lemma range_contains_plain:
  "\<not> interleaved r \<Longrightarrow> ar_match r = 0 \<Longrightarrow>
     range_contains r a \<longleftrightarrow> ar_start r \<le> a \<and> a < ar_end r"
  by (auto simp: range_contains_def interleaved_def intlv_sel_def)

lemma range_contains_AddrRange [simp]:
  "range_contains (AddrRange st en) a \<longleftrightarrow> st \<le> a \<and> a < en"
  by (simp add: range_contains_def AddrRange_def intlv_sel_def)


lemma ucast_8_32_inj:
  assumes "(ucast (x :: 8 word) :: 32 word) = ucast y"
  shows "x = y"
proof (rule bit_word_eqI)
  fix n assume "n < LENGTH(8)"
  then show "bit x n = bit y n"
    using arg_cong [OF assms, of "\<lambda>w. bit w n"] unfolding bit_ucast_iff by simp
qed

section \<open>The tests against the set of addresses of a range\<close>

lemma range_wf_AddrRange [simp]: "range_wf (AddrRange st en)"
  by (simp add: range_wf_def AddrRange_def)

lemma not_interleaved_AddrRange [simp]: "\<not> interleaved (AddrRange st en)"
  by (simp add: interleaved_def AddrRange_def)

lemma range_set_AddrRange [simp]: "range_set (AddrRange st en) = {st..<en}"
  by (auto simp: range_set_def)

lemma range_set_plain:
  "range_wf r \<Longrightarrow> \<not> interleaved r \<Longrightarrow> range_set r = {ar_start r..<ar_end r}"
  by (auto simp: range_set_def range_contains_plain range_wf_def interleaved_def)

lemma range_set_bounds: "range_set r \<subseteq> {ar_start r..<ar_end r}"
  by (auto simp: range_set_def range_contains_def)

lemma range_intersects_plain:
  assumes "range_wf r1" "range_wf r2" "\<not> interleaved r1" "\<not> interleaved r2"
    and "ar_start r1 < ar_end r1" "ar_start r2 < ar_end r2"
  shows "range_intersects r1 r2 = Ok (range_set r1 \<inter> range_set r2 \<noteq> {})"
proof -
  have "range_set r1 \<inter> range_set r2 \<noteq> {} \<longleftrightarrow> \<not> (ar_start r1 \<ge> ar_end r2 \<or> ar_end r1 \<le> ar_start r2)"
    (is "?L \<longleftrightarrow> ?R")
  proof
    assume ?R
    then have "max (ar_start r1) (ar_start r2) \<in> range_set r1 \<inter> range_set r2"
      using assms by (auto simp: range_set_plain max_def)
    then show ?L by blast
  qed (use assms in \<open>auto simp: range_set_plain\<close>)
  then show ?thesis using assms(3,4) by (simp add: range_intersects_def)
qed

lemma range_size_1_plain:
  assumes "\<not> interleaved r" "range_wf r" "range_size r = 1"
  shows "range_set r \<subseteq> {ar_start r}"
proof -
  have "ar_end r = ar_start r + 1" using assms by (simp add: range_size_def interleaved_def algebra_simps)
  then have "a = ar_start r" if "ar_start r \<le> a" "a < ar_end r" for a
    using that by (metis add.commute inc_le leD order.antisym not_le_imp_less less_le)
  then show ?thesis using assms by (auto simp: range_set_plain)
qed

lemma range_intersects_sound:
  assumes "range_intersects r1 r2 = Ok False" and "range_wf r1" "range_wf r2"
    and "interleaved r2 \<longrightarrow> range_size r2 \<noteq> 1"
  shows "range_set r1 \<inter> range_set r2 = {}"
proof (cases "ar_start r1 \<ge> ar_end r2 \<or> ar_end r1 \<le> ar_start r2")
  case True
  then show ?thesis using range_set_bounds [of r1] range_set_bounds [of r2] by fastforce
next
  case no: False
  show ?thesis
  proof (cases "range_size r2 = 1")
    case True
    then have "\<not> range_contains r1 (ar_start r2)" and "\<not> interleaved r2"
      using assms no by (auto simp: range_intersects_def split: if_splits)
    then show ?thesis using range_size_1_plain [of r2] True assms(3) by (auto simp: range_set_def)
  next
    case False
    then have "mergesWith r1 r2" "ar_match r1 \<noteq> ar_match r2"
      using assms no by (auto simp: range_intersects_def split: if_splits)
    then show ?thesis
      using ucast_8_32_inj [of "ar_match r1" "ar_match r2"]
      by (auto simp: range_set_def range_contains_def mergesWith_def)
  qed
qed

section \<open>Subset test\<close>

lemma bit_fold_or:
  "bit (fold (\<lambda>m c. c OR ucast (m :: addr)) ms (c :: 32 word)) j \<longleftrightarrow>
     bit c j \<or> (j < 32 \<and> (\<exists>m\<in>set ms. bit m j))"
  by (induction ms arbitrary: c) (auto simp: bit_or_iff bit_ucast_iff)

lemma granularity_low_bits:
  assumes "granularity r = Ok g" "interleaved r"
  obtains l where "l < 32" "g = 2 ^ l" "\<And>m n. m \<in> set (ar_masks r) \<Longrightarrow> n < l \<Longrightarrow> \<not> bit m n"
proof -
  define c where "c = fold (\<lambda>m c. c OR ucast m) (ar_masks r) (0 :: 32 word)"
  define l where "l = ctz64 (scast c)"
  have l64: "l < 64" and g: "g = push_bit l 1"
    using assms by (auto simp: granularity_def c_def l_def Let_def split: if_splits)
  have nz: "scast c \<noteq> (0 :: 64 word)" using l64 by (auto simp: l_def ctz64_def)
  have "c \<noteq> 0" using nz by auto
  then obtain k where k: "bit c k" by (metis bit_0_eq bit_word_eqI bot_apply bot_bool_def)
  have k32: "k < 32" using bit_imp_le_length [OF k] by simp
  have scast_bit: "bit (scast c :: 64 word) n \<longleftrightarrow> bit c n" if "n < 32" for n
    using that by (simp add: bit_signed_iff)
  have l32: "l < 32" using ctz64_least [OF nz, of k] k k32 by (simp add: l_def scast_bit)
  have "\<not> bit m n" if "m \<in> set (ar_masks r)" "n < l" for m n
  proof
    assume "bit m n"
    then have "bit c n" using that l32 unfolding c_def bit_fold_or by auto
    then have "l \<le> n" using ctz64_least [OF nz, of n] that l32 by (simp add: l_def scast_bit)
    then show False using that by simp
  qed
  with l32 g show ?thesis by (intro that [of l]) (simp_all add: push_bit_of_1)
qed


lemma popCount_cong: "(\<And>n. bit x n = bit y n) \<Longrightarrow> popCount x = popCount y"
  by (simp add: popCount_card)

lemma intlv_sel_granule:
  assumes low: "\<And>m n. m \<in> set ms \<Longrightarrow> n < l \<Longrightarrow> \<not> bit m n"
    and eq: "drop_bit l a = drop_bit l b"
  shows "intlv_sel ms a = intlv_sel ms b"
proof (rule bit_word_eqI)
  fix j
  have "popCount (a AND ms ! j) = popCount (b AND ms ! j)" if "j < length ms"
  proof (rule popCount_cong)
    fix n
    show "bit (a AND ms ! j) n = bit (b AND ms ! j) n"
    proof (cases "n < l")
      case True
      then show ?thesis using low [of "ms ! j" n] that by (simp add: bit_and_iff)
    next
      case False
      then show ?thesis
        using arg_cong [OF eq, of "\<lambda>w. bit w (n - l)"] by (simp add: bit_and_iff bit_drop_bit_eq)
    qed
  qed
  then show "bit (intlv_sel ms a) j = bit (intlv_sel ms b) j" by (auto simp: bit_intlv_sel)
qed

lemma between_granules:
  fixes s e a k :: nat
  assumes "s \<le> a" "a \<le> e" "e < s + 2 ^ k"
  shows "a div 2 ^ k = s div 2 ^ k \<or> a div 2 ^ k = e div 2 ^ k"
proof -
  have "s div 2 ^ k \<le> a div 2 ^ k" "a div 2 ^ k \<le> e div 2 ^ k" using assms(1,2) by (simp_all add: div_le_mono)
  moreover have "e div 2 ^ k \<le> (s + 2 ^ k) div 2 ^ k" using assms(3) by (intro div_le_mono) simp
  then have "e div 2 ^ k \<le> s div 2 ^ k + 1" using div_add_self2 [of "2 ^ k" s] by simp
  ultimately show ?thesis by linarith
qed

lemma interval_last:
  fixes s e e' a p :: nat
  assumes "s \<le> a" "a < e" "e' = e - 1" "e - s \<le> p"
  shows "a \<le> e'" and "e' < s + p"
  using assms by linarith+

lemma range_isSubset_sound:
  assumes sub: "range_isSubset r1 r2 = Ok True" and ne: "ar_start r1 < ar_end r1"
    and wf: "range_wf r1" "range_wf r2"
  shows "range_set r1 \<subseteq> range_set r2"
proof (cases "interleaved r2")
  case False
  then show ?thesis
    using sub wf by (auto simp: range_isSubset_def range_set_plain split: if_splits)
next
  case True
  obtain g where g: "granularity r2 = Ok g" "range_size r1 \<le> g" and i1: "\<not> interleaved r1"
    and cs: "range_contains r2 (ar_start r1)" and ce: "range_contains r2 (ar_end r1 - 1)"
    using sub True by (auto simp: range_isSubset_def res_simps split: if_splits)
  obtain l where l: "l < 32" "g = 2 ^ l"
    and low: "\<And>m n. m \<in> set (ar_masks r2) \<Longrightarrow> n < l \<Longrightarrow> \<not> bit m n"
    using granularity_low_bits [OF g(1) True] by blast
  let ?s = "ar_start r1" and ?e = "ar_end r1 - 1"
  have len: "unat (ar_end r1 - ar_start r1) \<le> 2 ^ l"
    using g(2) i1 l by (simp add: range_size_def interleaved_def word_le_nat_alt unat_exp_lower)
  have ue: "unat ?e = unat (ar_end r1) - 1" using ne by (intro unat_minus_one) auto
  have ud: "unat (ar_end r1 - ar_start r1) = unat (ar_end r1) - unat ?s"
    using ne by (intro unat_sub) simp
  show ?thesis
  proof
    fix a assume "a \<in> range_set r1"
    then have a: "?s \<le> a" "a < ar_end r1" using range_set_bounds [of r1] by auto
    have "unat ?s \<le> unat a" "unat a < unat (ar_end r1)"
      using a by (simp_all only: word_le_nat_alt word_less_nat_alt)
    note b = this interval_last [OF this ue len [unfolded ud]]
    from b(1,3,4) have "unat a div 2 ^ l = unat ?s div 2 ^ l \<or> unat a div 2 ^ l = unat ?e div 2 ^ l"
      by (rule between_granules)
    then have "drop_bit l a = drop_bit l ?s \<or> drop_bit l a = drop_bit l ?e"
      by (metis unat_drop_bit unsigned_word_eqI)
    then have "intlv_sel (ar_masks r2) a = ucast (ar_match r2)"
      using intlv_sel_granule [OF low] cs ce by (metis range_contains_def)
    moreover have "ar_start r2 \<le> a"
      using a(1) cs by (auto simp: range_contains_def Let_def split: if_splits)
    moreover have "a < ar_end r2"
    proof -
      have "?e < ar_end r2" using ce by (auto simp: range_contains_def Let_def split: if_splits)
      moreover have "a \<le> ?e" using b(3) by (simp only: word_le_nat_alt)
      ultimately show ?thesis by (rule order.strict_trans1 [rotated])
    qed
    ultimately show "a \<in> range_set r2" by (simp add: range_set_def range_contains_def)
  qed
qed

section \<open>Properties\<close>

text \<open>
  Also: when \<open>intersects\<close> answers false, no address is in both ranges
  (interleaved or not), and on plain non-empty ranges its answer is exact.
\<close>

theorem intersects_complete:
  assumes "range_wf r1" "range_wf r2"
  shows "(range_intersects r1 r2 = Ok False \<and> (interleaved r2 \<longrightarrow> range_size r2 \<noteq> 1)
            \<longrightarrow> range_set r1 \<inter> range_set r2 = {}) \<and>
         (\<not> interleaved r1 \<and> \<not> interleaved r2 \<and> ar_start r1 < ar_end r1 \<and> ar_start r2 < ar_end r2
            \<longrightarrow> range_intersects r1 r2 = Ok (range_set r1 \<inter> range_set r2 \<noteq> {}))"
  using range_intersects_sound range_intersects_plain assms by blast

theorem intersects_complete_witness:
  "range_intersects (AddrRange 0 8) (AddrRange 8 16) = Ok False \<and>
   range_set (AddrRange 0 8) \<inter> range_set (AddrRange 8 16) = {} \<and>
   range_intersects (AddrRange 0 9) (AddrRange 8 16) = Ok True"
proof -
  have "range_intersects (AddrRange 0 8) (AddrRange 8 16) = Ok False"
    by (simp add: range_intersects_def AddrRange_def)
  moreover have "range_set (AddrRange 0 9) \<inter> range_set (AddrRange 8 16) \<noteq> {}"
  proof -
    have "(8 :: addr) \<in> {0..<9} \<inter> {8..<16}" by simp
    then show ?thesis by (simp only: range_set_AddrRange) blast
  qed
  ultimately show ?thesis
    using intersects_complete [of "AddrRange 0 8" "AddrRange 8 16"]
      intersects_complete [of "AddrRange 0 9" "AddrRange 8 16"]
    by (simp add: AddrRange_def interleaved_def range_wf_def)
qed

text \<open>
  C24: when \<open>isSubset\<close> answers true for a non-empty range, every address of
  the range is in the other one, also when the other one is interleaved and the range has to fit in
  a granule of it.
\<close>

theorem isSubset_sound:
  assumes "range_isSubset r1 r2 = Ok True" "ar_start r1 < ar_end r1" "range_wf r1" "range_wf r2"
  shows "range_set r1 \<subseteq> range_set r2"
  using assms by (rule range_isSubset_sound)

theorem isSubset_sound_witness:
  "range_set (AddrRange 4096 8192) \<subseteq> range_set (AddrRange 0 16384)"
  by (rule isSubset_sound) (simp_all add: range_isSubset_def AddrRange_def interleaved_def range_wf_def)

end
