(* ===== verification/Addr_Intlv.thy ===== *)
theory Addr_Intlv
  imports Addr_Range
begin

text \<open>
  Interleaved address ranges, \<open>src/base/addr_range.hh\<close>: what \<open>removeIntlvBits\<close>, \<open>addIntlvBits\<close>
  and \<open>getOffset\<close> do to the addresses of a range. Removing the interleaving bits is injective on
  the addresses of a range with well-formed masks, and the bit-position constructor only builds
  such masks. Adding the bits back is the inverse for one and two masks and is not for three.
\<close>

unbundle bit_operations_syntax

section \<open>Well-formed masks\<close>

text \<open>
  Masks as the constructors build them: every mask has a bit, and its least significant bit
  belongs to no other mask.
\<close>

definition masks_wf :: "addr list \<Rightarrow> bool" where
  "masks_wf ms \<longleftrightarrow> 0 \<notin> set ms \<and>
     (\<forall>i<length ms. \<forall>j<length ms. i \<noteq> j \<longrightarrow> \<not> bit (ms ! j) (ctz64 (ms ! i)))"

text \<open>The address bits that mask \<open>i\<close> of the bit-position constructor combines.\<close>

definition xor_bits :: "8 word \<Rightarrow> 8 word \<Rightarrow> nat \<Rightarrow> nat set" where
  "xor_bits ih xh i = (if xh = 0 then {unat ih - i} else {unat ih - i, unat xh - i})"

text \<open>A range with three masks for which adding bits back does not undo removing them.\<close>

definition three_masks :: addr_range where
  "three_masks = \<lparr>ar_start = 0, ar_end = 256, ar_masks = [8, 16, 32], ar_match = 7\<rparr>"

section \<open>Removing the interleaving bits\<close>

lemma remove_step_bit:
  assumes "insertBits (drop_bit 1 a) (int k - 1) 0 a = Ok x"
  shows "bit x n = (if n < k then bit a n else bit a (Suc n))"
proof -
  have k: "0 < k" and x: "x = insertBits_raw (drop_bit 1 a) (int k - 1) 0 a"
    using assms by (auto simp: insertBits_def res_simps)
  show ?thesis
    using k bit_imp_le_length [of a n] by (auto simp: x bit_insertBits_raw bit_drop_bit_eq)
qed

lemma remove_loop_agree:
  assumes "remove_loop ps i a = Ok x" "remove_loop ps i b = Ok x"
    and "sorted_wrt (<) ps" "\<forall>p\<in>set ps. i \<le> p"
    and "n + i \<notin> set ps"
  shows "bit a n = bit b n"
  using assms
proof (induction ps arbitrary: i a b n)
  case (Cons p ps)
  define k where "k = p - i"
  have pk: "p = k + i" using Cons.prems(4) by (simp add: k_def)
  obtain a' b' where
    a': "(if p > 0 then insertBits (drop_bit 1 a) (int p - int i - 1) 0 a else Ok (drop_bit 1 a)) = Ok a'"
      "remove_loop ps (Suc i) a' = Ok x" and
    b': "(if p > 0 then insertBits (drop_bit 1 b) (int p - int i - 1) 0 b else Ok (drop_bit 1 b)) = Ok b'"
      "remove_loop ps (Suc i) b' = Ok x"
    using Cons.prems(1,2) by (auto simp: res_simps)
  have step: "bit y' m = (if m < k then bit y m else bit y (Suc m))"
    if "(if p > 0 then insertBits (drop_bit 1 y) (int p - int i - 1) 0 y else Ok (drop_bit 1 y)) = Ok y'"
    for y y' m
  proof (cases "p > 0")
    case True
    then show ?thesis using that remove_step_bit [of y k y' m] by (simp add: pk)
  next
    case False
    then show ?thesis using that by (auto simp: pk bit_drop_bit_eq)
  qed
  have IH: "bit a' m = bit b' m" if "m + Suc i \<notin> set ps" for m
  proof (rule Cons.IH [OF a'(2) b'(2)])
    show "sorted_wrt (<) ps" using Cons.prems(3) by simp
    show "\<forall>p\<in>set ps. Suc i \<le> p" using Cons.prems(3,4) by fastforce
  qed (rule that)
  have nk: "n \<noteq> k" using Cons.prems(5) by (auto simp: pk)
  show ?case
  proof (cases "n < k")
    case True
    then have "n + Suc i \<notin> set ps" using Cons.prems(3) by (auto simp: pk)
    then show ?thesis using IH [of n] step [OF a'(1), of n] step [OF b'(1), of n] True by simp
  next
    case False
    with nk obtain m where m: "n = Suc m" "k \<le> m" by (cases n) auto
    then have "m + Suc i \<notin> set ps" using Cons.prems(5) by simp
    then show ?thesis using IH [of m] step [OF a'(1), of m] step [OF b'(1), of m] m by simp
  qed
qed simp

lemma remove_loop_Ok:
  assumes "sorted_wrt (<) ps" "\<forall>p\<in>set ps. i < p"
  shows "\<exists>x. remove_loop ps i a = Ok x"
  using assms
proof (induction ps arbitrary: i a)
  case (Cons p ps)
  then have "i < p" "\<forall>q\<in>set ps. Suc i < q" by (auto simp: Suc_le_eq dest: le_less_trans)
  moreover from this obtain y where "insertBits (drop_bit 1 a) (int p - int i - 1) 0 a = Ok y"
    by (auto simp: insertBits_def)
  ultimately show ?case using Cons by simp
qed simp

lemma masks_wf_nth: "masks_wf ms \<Longrightarrow> i < length ms \<Longrightarrow> ms ! i \<noteq> 0"
  unfolding masks_wf_def by (metis nth_mem)

lemma masks_wf_other:
  "masks_wf ms \<Longrightarrow> i < length ms \<Longrightarrow> j < length ms \<Longrightarrow> i \<noteq> j \<Longrightarrow> \<not> bit (ms ! j) (ctz64 (ms ! i))"
  unfolding masks_wf_def by blast

lemma masks_wf_distinct:
  assumes "masks_wf ms"
  shows "sorted_wrt (<) (masks_lsb ms)" and "set (masks_lsb ms) = ctz64 ` set ms"
proof -
  have "distinct (map ctz64 ms)"
  proof (simp only: distinct_conv_nth length_map, intro allI impI)
    fix i j assume ij: "i < length ms" "j < length ms" "i \<noteq> j"
    have "bit (ms ! j) (ctz64 (ms ! j))" using assms ij by (intro bit_ctz64 masks_wf_nth)
    then show "map ctz64 ms ! i \<noteq> map ctz64 ms ! j" using masks_wf_other [OF assms ij] ij by auto
  qed
  then show "sorted_wrt (<) (masks_lsb ms)" by (simp add: masks_lsb_def strict_sorted_iff)
qed (simp add: masks_lsb_def)

text \<open>
  Off the least significant bits of the masks an address is free; on them it is determined by
  the selector.
\<close>

lemma intlv_sel_determines:
  assumes wf: "masks_wf ms" and len: "length ms < 32"
    and agree: "\<And>n. n \<notin> ctz64 ` set ms \<Longrightarrow> bit a n = bit b n"
    and sel: "intlv_sel ms a = intlv_sel ms b"
  shows "a = b"
proof (rule bit_word_eqI)
  fix n
  show "bit a n = bit b n"
  proof (cases "n \<in> ctz64 ` set ms")
    case True
    then obtain i where i: "i < length ms" "n = ctz64 (ms ! i)" by (auto simp: in_set_conv_nth)
    have nz: "ms ! i \<noteq> 0" using wf i(1) by (rule masks_wf_nth)
    have others: "m \<notin> ctz64 ` set ms" if "bit (ms ! i) m" "m \<noteq> n" for m
    proof
      assume "m \<in> ctz64 ` set ms"
      then obtain j where j: "j < length ms" "m = ctz64 (ms ! j)" by (auto simp: in_set_conv_nth)
      then have "i \<noteq> j" using that(2) i(2) by auto
      then show False using masks_wf_other [OF wf j(1) i(1)] that(1) j(2) by auto
    qed
    have "bit (a AND ms ! i) m = bit (b AND ms ! i) m" if "m \<noteq> n" for m
      using agree [OF others [OF _ that]] by (auto simp: bit_and_iff)
    moreover have "popCount (a AND ms ! i) mod 2 = popCount (b AND ms ! i) mod 2"
      using arg_cong [OF sel, of "\<lambda>w. bit w i"] i len
      by (simp add: bit_intlv_sel odd_iff_mod_2_eq_one mod2_eq_if)
    ultimately have "bit (a AND ms ! i) n = bit (b AND ms ! i) n" by (rule popCount_parity_bit)
    then show ?thesis using bit_ctz64 [OF nz] i by (simp add: bit_and_iff)
  qed (rule agree)
qed

lemma removeIntlvBits_inj:
  assumes wf: "masks_wf (ar_masks r)" and len: "length (ar_masks r) < 32"
    and ra: "removeIntlvBits r a = Ok x" and rb: "removeIntlvBits r b = Ok x"
    and sel: "intlv_sel (ar_masks r) a = intlv_sel (ar_masks r) b"
  shows "a = b"
  using wf len _ sel
proof (rule intlv_sel_determines)
  fix n assume "n \<notin> ctz64 ` set (ar_masks r)"
  then show "bit a n = bit b n"
    using remove_loop_agree [of "masks_lsb (ar_masks r)" 0 a x b n] ra rb masks_wf_distinct [OF wf]
    by (simp add: removeIntlvBits_def)
qed

lemma removeIntlvBits_Ok:
  assumes "masks_wf (ar_masks r)" "\<forall>m\<in>set (ar_masks r). \<not> bit m 0"
  shows "\<exists>x. removeIntlvBits r a = Ok x"
  unfolding removeIntlvBits_def
proof (rule remove_loop_Ok)
  show "sorted_wrt (<) (masks_lsb (ar_masks r))" using masks_wf_distinct(1) [OF assms(1)] .
  show "\<forall>p\<in>set (masks_lsb (ar_masks r)). 0 < p"
  proof
    fix p assume "p \<in> set (masks_lsb (ar_masks r))"
    then obtain i where i: "i < length (ar_masks r)" "p = ctz64 (ar_masks r ! i)"
      using masks_wf_distinct(2) [OF assms(1)] by (auto simp: in_set_conv_nth)
    have "bit (ar_masks r ! i) p" unfolding i(2) by (intro bit_ctz64 masks_wf_nth [OF assms(1) i(1)])
    then show "0 < p" using assms(2) nth_mem [OF i(1)] by (cases p) auto
  qed
qed

lemma getOffset_inj:
  assumes wf: "masks_wf (ar_masks r)" "range_wf r"
    and a: "range_contains r a" "getOffset r a = Ok off"
    and b: "range_contains r b" "getOffset r b = Ok off"
  shows "a = b"
proof (cases "interleaved r")
  case False
  then show ?thesis using a b by (auto simp: getOffset_def range_contains_def Let_def split: if_splits)
next
  case True
  have *: "removeIntlvBits r c = Ok (off + y)"
    if "range_contains r c" "getOffset r c = Ok off" "removeIntlvBits r (ar_start r) = Ok y" for c y
    using that True by (auto simp: getOffset_def range_contains_def Let_def res_simps split: if_splits)
  obtain y where y: "removeIntlvBits r (ar_start r) = Ok y"
    using a True by (auto simp: getOffset_def range_contains_def Let_def res_simps split: if_splits)
  show ?thesis
  proof (rule removeIntlvBits_inj)
    show "removeIntlvBits r a = Ok (off + y)" "removeIntlvBits r b = Ok (off + y)"
      using * y a b by blast+
    show "intlv_sel (ar_masks r) a = intlv_sel (ar_masks r) b"
      using a(1) b(1) by (simp add: range_contains_def Let_def split: if_splits)
    show "length (ar_masks r) < 32" using wf(2) by (simp add: range_wf_def)
  qed (rule wf)
qed

section \<open>Adding the interleaving bits back\<close>

lemma bit_scast_not:
  assumes "k < 31"
  shows "bit (scast (NOT ((2 :: 32 word) ^ k)) :: 64 word) n \<longleftrightarrow> n < 64 \<and> n \<noteq> k"
  using assms by (auto simp: bit_signed_iff bit_not_iff bit_exp_iff push_bit_of_1 min_def)

lemma bit_ucast_xor_0:
  "bit (ucast b XOR of_nat c :: 64 word) 0 \<longleftrightarrow> bit (b :: 8 word) 0 \<noteq> odd c"
proof -
  have "bit (of_nat c :: 64 word) 0 = odd c" by (simp only: bit_of_nat_iff bit_0 possible_bit_word) simp
  then show ?thesis by (simp only: bit_xor_iff bit_ucast_iff) simp
qed

declare set_sel_loop.simps(2) [simp del]

lemma set_sel_step:
  assumes "set_sel_loop (msk # ms) m i a = Ok y" "ctz64 msk < 31"
  obtains a' where "set_sel_loop ms m (Suc i) a' = Ok y"
    and "\<And>n. bit a' n \<longleftrightarrow>
      (if n = ctz64 msk then bit m i \<noteq> odd (popCount (a AND msk AND NOT (push_bit (ctz64 msk) 1)))
       else bit a n)"
proof -
  let ?l = "ctz64 msk"
  define masked where "masked = a AND msk AND scast (NOT (push_bit ?l (1 :: 32 word)))"
  have bits: "bits1 m (int i) = Ok (bits_raw m (int i) (int i))"
    by (simp add: bits1_def bits_def)
  have b0: "bit (bits_raw m (int i) (int i)) 0 = bit m i"
    by (simp add: bit_bits_raw)
  define a' where "a' = insertBits_raw a (int ?l) (int ?l)
      (ucast (bits_raw m (int i) (int i)) XOR of_nat (popCount masked))"
  have "set_sel_loop ms m (Suc i) a' = Ok y"
    using assms by (simp add: set_sel_loop.simps(2) Let_def bits masked_def a'_def insertBits1_def insertBits_def)
  moreover have "masked = a AND msk AND NOT (push_bit ?l 1)"
    unfolding masked_def using assms(2)
    by (intro bit_word_eqI) (auto simp: bit_and_iff bit_scast_not bit_not_iff bit_exp_iff push_bit_of_1)
  moreover have "bit a' n \<longleftrightarrow> (if n = ?l then bit m i \<noteq> odd (popCount masked) else bit a n)" for n
    using assms(2) by (auto simp: a'_def bit_insertBits_raw bit_ucast_xor_0 b0)
  ultimately show ?thesis by (intro that [of a']) simp_all
qed

lemma popCount_odd_split:
  "odd (popCount x) \<longleftrightarrow> bit x k \<noteq> odd (popCount (x AND NOT (push_bit k 1)))"
proof -
  have "{n. bit (x AND NOT (push_bit k 1)) n} = {n. bit x n} - {k}"
    using bit_imp_le_length [of x] by (auto simp: bit_and_iff bit_not_iff bit_exp_iff push_bit_of_1)
  then have "popCount (x AND NOT (push_bit k 1)) = card ({n. bit x n} - {k})"
    by (simp only: popCount_card)
  then show ?thesis using popCount_except [of x k] by auto
qed

lemma set_sel_loop_frame:
  assumes "set_sel_loop ms m i a = Ok y" "\<forall>msk\<in>set ms. ctz64 msk < 31" "n \<notin> ctz64 ` set ms"
  shows "bit y n = bit a n"
  using assms
proof (induction ms arbitrary: i a)
  case (Cons msk ms)
  have l: "ctz64 msk < 31" and n: "n \<noteq> ctz64 msk" using Cons.prems(2,3) by auto
  obtain a' where a': "set_sel_loop ms m (Suc i) a' = Ok y" "bit a' n = bit a n"
    by (rule set_sel_step [OF Cons.prems(1) l]) (simp add: n)
  then show ?case using Cons.IH [OF a'(1)] Cons.prems(2,3) by simp
qed simp

lemma masks_wf_Cons:
  assumes "masks_wf (m # ms)"
  shows "masks_wf ms"
  unfolding masks_wf_def
proof (intro conjI allI impI)
  show "0 \<notin> set ms" using assms by (simp add: masks_wf_def)
  fix i j assume "i < length ms" "j < length ms" "i \<noteq> j"
  then show "\<not> bit (ms ! j) (ctz64 (ms ! i))" using masks_wf_other [OF assms, of "Suc i" "Suc j"] by simp
qed

lemma masks_wf_head:
  assumes "masks_wf (m # ms)" "k \<in> ctz64 ` set ms"
  shows "\<not> bit m k"
proof -
  obtain i where "i < length ms" "k = ctz64 (ms ! i)" using assms(2) by (auto simp: in_set_conv_nth)
  then show ?thesis using masks_wf_other [OF assms(1), of "Suc i" 0] by simp
qed

lemma set_sel_loop_parity:
  assumes "set_sel_loop ms m i a = Ok y" "\<forall>msk\<in>set ms. ctz64 msk < 31" "masks_wf ms" "j < length ms"
  shows "odd (popCount (y AND ms ! j)) = bit m (i + j)"
  using assms
proof (induction ms arbitrary: i a j)
  case (Cons msk ms)
  let ?l = "ctz64 msk"
  obtain a' where a': "set_sel_loop ms m (Suc i) a' = Ok y"
    and bit_a': "\<And>n. bit a' n \<longleftrightarrow>
      (if n = ?l then bit m i \<noteq> odd (popCount (a AND msk AND NOT (push_bit ?l 1))) else bit a n)"
    using set_sel_step [OF Cons.prems(1)] Cons.prems(2) by auto
  show ?case
  proof (cases j)
    case (Suc j')
    have "odd (popCount (y AND ms ! j')) = bit m (Suc i + j')"
    proof (rule Cons.IH [OF a' _ masks_wf_Cons [OF Cons.prems(3)]])
      show "\<forall>msk\<in>set ms. ctz64 msk < 31" using Cons.prems(2) by simp
      show "j' < length ms" using Cons.prems(4) Suc by simp
    qed
    then show ?thesis unfolding Suc nth_Cons_Suc by simp
  next
    case 0
    have "bit (y AND msk) n = bit (a' AND msk) n" for n
      using set_sel_loop_frame [OF a', of n] Cons.prems(2) masks_wf_head [OF Cons.prems(3), of n]
      by (auto simp: bit_and_iff)
    then have "popCount (y AND msk) = popCount (a' AND msk)" by (rule popCount_cong)
    moreover have "bit msk ?l" by (rule bit_ctz64) (use masks_wf_nth [OF Cons.prems(3), of 0] in simp)
    moreover have "a' AND msk AND NOT (push_bit ?l 1) = a AND msk AND NOT (push_bit ?l 1)"
      by (rule bit_word_eqI) (auto simp: bit_and_iff bit_not_iff bit_exp_iff push_bit_of_1 bit_a')
    ultimately show ?thesis
      using popCount_odd_split [of "a' AND msk" ?l] 0 by (auto simp: bit_and_iff bit_a' and.assoc)
  qed
qed simp


lemma bit_times_2: "bit ((x :: 64 word) * 2) n \<longleftrightarrow> 0 < n \<and> n < 64 \<and> bit x (n - 1)"
proof -
  have "x * 2 = push_bit 1 x" by simp
  then show ?thesis by (auto simp only: bit_push_bit_iff possible_bit_word) simp_all
qed

lemma add_step_bit:
  assumes "insertBits (push_bit 1 x) (int k - 1) 0 x = Ok y"
  shows "bit y n = (if n < k then bit x n else n < 64 \<and> bit x (n - 1))"
proof -
  have k: "0 < k" and y: "y = insertBits_raw (push_bit 1 x) (int k - 1) 0 x"
    using assms by (auto simp: insertBits_def res_simps)
  show ?thesis
    using k bit_imp_le_length [of x n] by (auto simp: y bit_insertBits_raw bit_times_2)
qed

lemma remove_1_bit:
  assumes "remove_loop [p] 0 a = Ok x"
  shows "bit x m = (if m < p then bit a m else bit a (Suc m))"
proof (cases "p > 0")
  case True
  then have "insertBits (drop_bit 1 a) (int p - 1) 0 a = Ok x" using assms by (simp add: res_simps)
  then show ?thesis by (rule remove_step_bit)
next
  case False
  then show ?thesis using assms by (auto simp: bit_drop_bit_eq)
qed

lemma add_1_bit:
  assumes "add_loop [p] 0 x = Ok y"
  shows "bit y m = (if m < p then bit x m else 0 < m \<and> m < 64 \<and> bit x (m - 1))"
proof (cases "p > 0")
  case True
  then have "insertBits (push_bit 1 x) (int p - 1) 0 x = Ok y" using assms by (simp add: res_simps)
  then show ?thesis using True add_step_bit by auto
next
  case False
  then have "y = x * 2" using assms by simp
  then show ?thesis using False by (simp only: bit_times_2) simp
qed

lemma add_remove_1:
  assumes rm: "remove_loop [p] 0 a = Ok x" and ad: "add_loop [p] 0 x = Ok y" and n: "n \<noteq> p"
  shows "bit y n = bit a n"
  using n bit_imp_le_length [of a n] by (auto simp: remove_1_bit [OF rm] add_1_bit [OF ad])

lemma add_remove_2:
  assumes rm: "remove_loop [p, q] 0 a = Ok x" and ad: "add_loop [p, q] 0 x = Ok y" and pq: "p < q"
    and n: "n \<noteq> p" "n \<noteq> q"
  shows "bit y n = bit a n"
proof -
  obtain a1 where a1: "remove_loop [p] 0 a = Ok a1"
    and x: "insertBits (drop_bit 1 a1) (int (q - 1) - 1) 0 a1 = Ok x"
    using rm pq by (auto simp: res_simps of_nat_diff)
  obtain y1 where y1: "add_loop [p] 0 x = Ok y1"
    and y: "insertBits (push_bit 1 y1) (int (q + 1) - 1) 0 y1 = Ok y"
    using ad pq by (auto simp: res_simps)
  have bx: "bit x m = (if m < q - 1 then bit a1 m else bit a1 (Suc m))" for m
    using x by (rule remove_step_bit)
  have lim: "n < 64" if "bit a n" using bit_imp_le_length [OF that] by simp
  note bits = bx add_step_bit [OF y] add_1_bit [OF y1] remove_1_bit [OF a1]
  consider "n < p" | m where "n = Suc m" "p \<le> m" "Suc m < q" | m where "n = Suc (Suc m)" "q \<le> Suc m"
  proof -
    consider "n < p" | "p < n" "n < q" | "q < n" using n by linarith
    then show ?thesis
    proof cases
      case 2
      then show ?thesis by (intro that(2) [of "n - 1"]) simp_all
    next
      case 3
      then show ?thesis using pq by (intro that(3) [of "n - 2"]) simp_all
    qed (rule that(1))
  qed
  then show ?thesis
  proof cases
    case 1
    then have "n < q - 1" using pq by linarith
    with 1 pq show ?thesis by (simp add: bits)
  next
    case (2 m)
    have "bit y n = (n < 64 \<and> bit x m)" using 2 by (simp add: bits(2)) (simp add: bits(3))
    moreover have "m < q - 1" using 2 by linarith
    then have "bit x m = bit a n" using 2 by (simp add: bits)
    ultimately show ?thesis using lim by blast
  next
    case (3 m)
    have "bit y n = (n < 64 \<and> bit y1 (Suc m))" using 3 by (simp add: bits(2))
    also have "bit y1 (Suc m) = (Suc m < 64 \<and> bit x m)" using 3 pq by (simp add: bits(3))
    finally have "bit y n = (n < 64 \<and> bit x m)" using 3 by auto
    moreover have "\<not> m < q - 1" using 3 by linarith
    then have "bit x m = bit a n" using 3 pq by (simp add: bits)
    ultimately show ?thesis using lim by blast
  qed
qed

lemma masks_lsb_length: "length (masks_lsb ms) = length ms"
  by (simp add: masks_lsb_def)

lemma addIntlvBits_removeIntlvBits:
  assumes wf: "masks_wf (ar_masks r)" "range_wf r" and two: "length (ar_masks r) \<le> 2"
    and low: "\<forall>m\<in>set (ar_masks r). ctz64 m < 31"
    and a: "range_contains r a"
    and rm: "removeIntlvBits r a = Ok x" and ad: "addIntlvBits r x = Ok y"
  shows "y = a"
proof -
  let ?ms = "ar_masks r" and ?ps = "masks_lsb (ar_masks r)"
  obtain z where z: "add_loop ?ps 0 x = Ok z" "set_sel_loop ?ms (ar_match r) 0 z = Ok y"
    using ad by (auto simp: addIntlvBits_def res_simps)
  have rm': "remove_loop ?ps 0 a = Ok x" using rm by (simp add: removeIntlvBits_def)
  have set_ps: "set ?ps = ctz64 ` set ?ms" and srt: "sorted_wrt (<) ?ps"
    using masks_wf_distinct [OF wf(1)] by auto
  have zn: "bit z n = bit a n" if n: "n \<notin> ctz64 ` set ?ms" for n
  proof -
    have "length ?ps \<le> 2" using two by (simp add: masks_lsb_length)
    then consider "?ps = []" | p where "?ps = [p]" | p q where "?ps = [p, q]"
      by (cases ?ps; cases "tl ?ps") auto
    then show ?thesis
    proof cases
      case 1
      then show ?thesis using rm' z(1) by simp
    next
      case (2 p)
      then have "n \<noteq> p" using n set_ps by auto
      with rm' z(1) show ?thesis unfolding 2 by (rule add_remove_1)
    next
      case (3 p q)
      then have "n \<noteq> p" "n \<noteq> q" "p < q" using n set_ps srt by auto
      then show ?thesis using add_remove_2 [OF rm' [unfolded 3] z(1) [unfolded 3]] by blast
    qed
  qed
  have sel: "bit (intlv_sel ?ms y) j = bit (intlv_sel ?ms a) j" for j
  proof (cases "j < length ?ms")
    case True
    have "bit (intlv_sel ?ms a) j = bit (ucast (ar_match r) :: 32 word) j"
      using a by (simp add: range_contains_def Let_def split: if_splits)
    moreover have "odd (popCount (y AND ?ms ! j)) = bit (ar_match r) j"
      using set_sel_loop_parity [OF z(2) low wf(1) True] by simp
    ultimately show ?thesis using True two by (simp add: bit_intlv_sel bit_ucast_iff)
  qed (simp add: bit_intlv_sel)
  show ?thesis
  proof (rule intlv_sel_determines [OF wf(1)])
    show "length ?ms < 32" using two by simp
    show "bit y n = bit a n" if "n \<notin> ctz64 ` set ?ms" for n
      using set_sel_loop_frame [OF z(2) low that] zn [OF that] by simp
    show "intlv_sel ?ms y = intlv_sel ?ms a" by (rule bit_word_eqI) (rule sel)
  qed
qed

lemma add_loop_Ok: "\<exists>y. add_loop ps i x = Ok y"
proof (induction ps arbitrary: i x)
  case (Cons p ps)
  have "\<exists>y. (if p > 0 then insertBits (push_bit 1 x) (int p + int i - 1) 0 x else Ok (push_bit 1 x)) = Ok y"
    by (simp add: insertBits_def)
  then obtain y where y: "(if p > 0 then insertBits (push_bit 1 x) (int p + int i - 1) 0 x else Ok (push_bit 1 x)) = Ok y"
    by blast
  show ?case using Cons.IH [of "Suc i" y] by (simp only: add_loop.simps y bind_res_Ok)
qed simp

lemma set_sel_loop_Ok: "\<forall>m\<in>set ms. ctz64 m < 32 \<Longrightarrow> \<exists>y. set_sel_loop ms m i a = Ok y"
proof (induction ms arbitrary: i a)
  case (Cons msk ms)
  then show ?case
    by (simp add: set_sel_loop.simps(2) Let_def bits1_def bits_def insertBits1_def insertBits_def)
qed simp

lemma intlv_roundtrip:
  assumes wf: "masks_wf (ar_masks r)" "range_wf r" and two: "length (ar_masks r) \<le> 2"
    and low: "\<forall>m\<in>set (ar_masks r). \<not> bit m 0 \<and> ctz64 m < 31"
    and a: "range_contains r a"
  shows "\<exists>x. removeIntlvBits r a = Ok x \<and> addIntlvBits r x = Ok a"
proof -
  obtain x where x: "removeIntlvBits r a = Ok x" using removeIntlvBits_Ok wf(1) low by blast
  obtain z where z: "add_loop (masks_lsb (ar_masks r)) 0 x = Ok z" using add_loop_Ok by blast
  obtain y where y: "set_sel_loop (ar_masks r) (ar_match r) 0 z = Ok y"
    using set_sel_loop_Ok [of "ar_masks r"] low by fastforce
  have "addIntlvBits r x = Ok y" using z y by (simp add: addIntlvBits_def)
  moreover from this have "y = a" using addIntlvBits_removeIntlvBits [OF wf two _ a x] low by blast
  ultimately show ?thesis using x by blast
qed


lemma ctz64_exp: "k < 64 \<Longrightarrow> ctz64 (2 ^ k) = k"
  by (rule ctz64_eqI) (auto simp: bit_exp_iff)

lemma popCount_0: "popCount 0 = 0"
  by (simp add: popCount_card)

lemma popCount_exp: "k < 64 \<Longrightarrow> popCount (2 ^ k) = 1"
proof -
  assume "k < 64"
  then have "{n. bit ((2 :: 64 word) ^ k) n} = {k}" by (auto simp: bit_exp_iff)
  then show ?thesis by (simp add: popCount_card)
qed

lemmas three_mask_eval =
  ctz64_exp [of 3, simplified] ctz64_exp [of 4, simplified] ctz64_exp [of 5, simplified]
  popCount_exp [of 3, simplified] popCount_exp [of 4, simplified] popCount_exp [of 5, simplified]
  popCount_0

lemma three_masks_built: "AddrRange_xor 0 256 5 0 3 7 = Ok three_masks"
proof -
  have "xor_masks_loop 5 0 (Suc (Suc (Suc 0))) (Suc (Suc (Suc 0))) [0, 0, 0] = Ok [8, 16, 32]"
    by (simp add: xor_mask_def)
  moreover have "replicate 3 0 = [0, 0, 0 :: addr]" by (simp add: numeral_3_eq_3)
  ultimately have "xor_masks_loop 5 0 3 3 (replicate 3 0) = Ok [8, 16, 32]"
    by (simp only: numeral_3_eq_3)
  then show ?thesis by (simp add: AddrRange_xor_def xor_bits_clash_def three_masks_def)
qed

lemma three_masks_contains: "range_contains three_masks 0x78"
  by (simp add: range_contains_def three_masks_def intlv_sel_def three_mask_eval)

lemma three_masks_remove: "removeIntlvBits three_masks 0x78 = Ok 0x8"
  by (simp add: removeIntlvBits_def three_masks_def masks_lsb_def three_mask_eval
      insertBits_def insertBits_raw_def mask_n_def)

lemma three_masks_add: "addIntlvBits three_masks 0x8 = Ok 0x38"
  by (simp add: addIntlvBits_def three_masks_def masks_lsb_def three_mask_eval set_sel_loop.simps(2)
      bits1_def bits_def bits_raw_def
      insertBits1_def insertBits_def insertBits_raw_def mask_n_def)

section \<open>Masks built by the bit-position constructor\<close>

lemma xor_masks_loop_nth:
  assumes "xor_masks_loop ih xh n left ms = Ok ms'" "left \<le> n" "length ms = n"
  shows "length ms' = n \<and> (\<forall>k<left. xor_mask ih xh (n - 1 - k) = Ok (ms' ! k)) \<and>
         (\<forall>k. left \<le> k \<longrightarrow> k < n \<longrightarrow> ms' ! k = ms ! k)"
  using assms
proof (induction left arbitrary: ms)
  case (Suc left)
  obtain msk where msk: "xor_mask ih xh (n - Suc left) = Ok msk"
    and rec: "xor_masks_loop ih xh n left (ms[n - (n - Suc left) - 1 := msk]) = Ok ms'"
    using Suc.prems(1) by (auto simp: res_simps Let_def)
  have idx: "n - (n - Suc left) - 1 = left" using Suc.prems(2) by simp
  have IH: "length ms' = n" "\<forall>k<left. xor_mask ih xh (n - 1 - k) = Ok (ms' ! k)"
    "\<forall>k. left \<le> k \<longrightarrow> k < n \<longrightarrow> ms' ! k = ms[left := msk] ! k"
    using Suc.IH [OF rec] Suc.prems(2,3) unfolding idx by auto
  have "ms' ! left = msk" using IH(3) Suc.prems(2,3) by simp
  then have "xor_mask ih xh (n - 1 - left) = Ok (ms' ! left)" using msk by simp
  then show ?case using IH by (auto simp: less_Suc_eq)
qed simp

lemma unat_sub_small:
  assumes "i \<le> unat (h :: 8 word)"
  shows "unat (h - of_nat i) = unat h - i"
proof -
  have "unat h < 2 ^ LENGTH(8)" by (rule unsigned_less)
  then have "unat (of_nat i :: 8 word) = i"
    using assms by (intro unat_of_nat_small) (rule le_less_trans)
  moreover from this have "(of_nat i :: 8 word) \<le> h" using assms by (simp add: word_le_nat_alt)
  ultimately show ?thesis using unat_sub by fastforce
qed

lemma unat_sub_beyond: "unat ((h :: 8 word) - of_nat (Suc (unat h))) = 255"
proof -
  have "h - of_nat (Suc (unat h)) = - 1" by simp
  moreover have "unat (- 1 :: 8 word) = 255" by (simp add: unsigned_minus_1_eq_mask mask_eq_exp_minus_1)
  ultimately show ?thesis by simp
qed

text \<open>All the positions below a high bit have to exist, or the first missing one shifts by 255.\<close>

lemma high_bit_enough:
  assumes "\<forall>i<n. unat ((h :: 8 word) - of_nat i) < 64"
  shows "n \<le> Suc (unat h)" and "i < n \<Longrightarrow> unat (h - of_nat i) = unat h - i"
proof -
  show n: "n \<le> Suc (unat h)"
  proof (rule ccontr)
    assume "\<not> n \<le> Suc (unat h)"
    then have "unat (h - of_nat (Suc (unat h))) < 64" using assms by (metis not_le)
    then show False unfolding unat_sub_beyond by simp
  qed
  show "unat (h - of_nat i) = unat h - i" if "i < n"
    using that n by (intro unat_sub_small) simp
qed

lemma xor_mask_OkD:
  assumes "xor_mask ih xh i = Ok m"
  shows "unat (ih - of_nat i) < 64" and "xh \<noteq> 0 \<Longrightarrow> unat (xh - of_nat i) < 64"
  using assms by (simp_all add: xor_mask_def Let_def split: if_split_asm)

lemma xor_mask_bits:
  assumes "\<forall>i<n. \<exists>m. xor_mask ih xh i = Ok m" and "i < n" "xor_mask ih xh i = Ok m"
  shows "bit m k \<longleftrightarrow> k \<in> xor_bits ih xh i"
    and "i \<le> unat ih" and "xh \<noteq> 0 \<Longrightarrow> i \<le> unat xh"
proof -
  have ih: "\<forall>j<n. unat (ih - of_nat j) < 64"
    using assms(1) xor_mask_OkD(1) by blast
  have xh: "\<forall>j<n. unat (xh - of_nat j) < 64" if "xh \<noteq> 0"
    using assms(1) that xor_mask_OkD(2) by blast
  note ih' = high_bit_enough [OF ih]
  note xh' = high_bit_enough [OF xh]
  show "i \<le> unat ih" using ih'(1) assms(2) by simp
  show "i \<le> unat xh" if "xh \<noteq> 0" using xh'(1) [OF that] assms(2) by simp
  have b1: "unat (ih - of_nat i) = unat ih - i" "unat ih - i < 64"
    using ih'(2) [OF assms(2)] ih assms(2) by force+
  have b2: "unat (xh - of_nat i) = unat xh - i" "unat xh - i < 64" if "xh \<noteq> 0"
    using xh'(2) [OF that assms(2)] xh [OF that] assms(2) by force+
  show "bit m k \<longleftrightarrow> k \<in> xor_bits ih xh i"
  proof (cases "xh = 0")
    case True
    then show ?thesis using assms(3) b1
      by (auto simp: xor_mask_def Let_def xor_bits_def bit_exp_iff push_bit_of_1)
  next
    case False
    then show ?thesis using assms(3) b1 b2 [OF False]
      by (auto simp: xor_mask_def Let_def xor_bits_def bit_or_iff bit_exp_iff push_bit_of_1)
  qed
qed

lemma ctz64_xor_bits:
  assumes "\<And>k. bit m k \<longleftrightarrow> k \<in> xor_bits ih xh i" "m \<noteq> 0"
  shows "ctz64 m \<in> xor_bits ih xh i"
  using assms(1) bit_ctz64 [OF assms(2)] by blast

lemma xor_bits_disjoint:
  assumes "xh = 0 \<or> unat ih + n \<le> unat xh \<or> unat xh + n \<le> unat ih"
    and "i < n" "j < n" "i \<noteq> j" "i \<le> unat ih" "j \<le> unat ih"
    and "xh \<noteq> 0 \<Longrightarrow> i \<le> unat xh" "xh \<noteq> 0 \<Longrightarrow> j \<le> unat xh"
  shows "xor_bits ih xh i \<inter> xor_bits ih xh j = {}"
  using assms by (auto simp: xor_bits_def)

lemma AddrRange_xor_Ok:
  assumes "AddrRange_xor st en ih xh nb m = Ok r"
  shows "\<exists>ms. xor_masks_loop ih xh (unat nb) (unat nb) (replicate (unat nb) 0) = Ok ms \<and>
      r = \<lparr>ar_start = st, ar_end = en, ar_masks = ms, ar_match = m\<rparr>"
    and "\<not> xor_bits_clash ih xh nb"
  using assms unfolding AddrRange_xor_def by (simp_all only: bind_res_eq_Ok sum.inject split: if_split_asm) auto

lemma xor_bits_apart:
  assumes "\<not> xor_bits_clash ih xh nb" "0 < unat nb"
  shows "xh = 0 \<or> unat ih + unat nb \<le> unat xh \<or> unat xh + unat nb \<le> unat ih"
proof -
  have "nb \<noteq> 0" using assms(2) by auto
  moreover have "xh > ih \<longleftrightarrow> unat ih < unat xh" by (rule word_less_nat_alt)
  ultimately show ?thesis using assms(1) unfolding xor_bits_clash_def by (auto split: if_split_asm)
qed

lemma xor_masks_loop_wf:
  assumes ms: "xor_masks_loop ih xh n n (replicate n 0) = Ok ms"
    and apart: "0 < n \<Longrightarrow> xh = 0 \<or> unat ih + n \<le> unat xh \<or> unat xh + n \<le> unat ih"
  shows "masks_wf ms \<and> length ms = n"
proof -
  have len: "length ms = n" and nth: "\<And>k. k < n \<Longrightarrow> xor_mask ih xh (n - 1 - k) = Ok (ms ! k)"
    using xor_masks_loop_nth [OF ms] by auto
  have ok: "\<forall>i<n. \<exists>m. xor_mask ih xh i = Ok m"
  proof (intro allI impI)
    fix i assume "i < n"
    then have e: "n - 1 - i < n" "n - 1 - (n - 1 - i) = i" by simp_all
    have "xor_mask ih xh i = Ok (ms ! (n - 1 - i))" using nth [OF e(1)] by (simp only: e(2))
    then show "\<exists>m. xor_mask ih xh i = Ok m" by blast
  qed
  have sub: "n - 1 - k < n" if "k < n" for k using that by simp
  have bits: "bit (ms ! k) b \<longleftrightarrow> b \<in> xor_bits ih xh (n - 1 - k)" if "k < n" for k b
    using ok sub [OF that] nth [OF that] by (rule xor_mask_bits(1))
  have le: "n - 1 - k \<le> unat ih" if "k < n" for k
    using ok sub [OF that] nth [OF that] by (rule xor_mask_bits(2))
  have le': "n - 1 - k \<le> unat xh" if "k < n" "xh \<noteq> 0" for k
    using ok sub [OF that(1)] nth [OF that(1)] that(2) by (rule xor_mask_bits(3))
  have nz: "ms ! k \<noteq> 0" if "k < n" for k
  proof -
    have "unat ih - (n - 1 - k) \<in> xor_bits ih xh (n - 1 - k)" by (simp add: xor_bits_def)
    then have "bit (ms ! k) (unat ih - (n - 1 - k))" using bits [OF that] by blast
    then show ?thesis by auto
  qed
  have "\<not> bit (ms ! j) (ctz64 (ms ! i))" if ij: "i < n" "j < n" "i \<noteq> j" for i j
  proof
    assume "bit (ms ! j) (ctz64 (ms ! i))"
    then have "ctz64 (ms ! i) \<in> xor_bits ih xh (n - 1 - j)" using bits ij(2) by blast
    moreover have "ctz64 (ms ! i) \<in> xor_bits ih xh (n - 1 - i)"
      using bit_ctz64 [OF nz [OF ij(1)]] bits [OF ij(1)] by blast
    moreover have "n - 1 - i \<noteq> n - 1 - j" "0 < n" using ij by linarith+
    ultimately show False
      using xor_bits_disjoint [of xh ih n "n - 1 - i" "n - 1 - j"] sub [OF ij(1)] sub [OF ij(2)]
        le [OF ij(1)] le [OF ij(2)] le' [OF ij(1)] le' [OF ij(2)] apart by blast
  qed
  moreover have "0 \<notin> set ms"
  proof
    assume "0 \<in> set ms"
    then obtain k where "k < n" "ms ! k = 0" unfolding in_set_conv_nth len by blast
    then show False using nz by blast
  qed
  ultimately show ?thesis unfolding masks_wf_def len by blast
qed

lemma AddrRange_xor_masks_wf:
  assumes "AddrRange_xor st en ih xh nb m = Ok r"
  shows "masks_wf (ar_masks r) \<and> length (ar_masks r) = unat nb"
proof -
  obtain ms where ms: "xor_masks_loop ih xh (unat nb) (unat nb) (replicate (unat nb) 0) = Ok ms"
    and r: "ar_masks r = ms"
    using AddrRange_xor_Ok(1) [OF assms] by auto
  show ?thesis unfolding r
    using ms xor_bits_apart [OF AddrRange_xor_Ok(2) [OF assms]] by (rule xor_masks_loop_wf)
qed

section \<open>Properties\<close>

text \<open>
  C22: \<open>getOffset\<close>, which turns an address into the location inside the
  memory that backs the range, never sends two addresses of one range to the same offset, for every
  range that the bit-position constructor builds.
\<close>

theorem getOffset_no_alias:
  assumes "AddrRange_xor st en ih xh nb m = Ok r" "unat nb < 32" "nb = 0 \<longrightarrow> m = 0"
    and "range_contains r a" "getOffset r a = Ok off"
    and "range_contains r b" "getOffset r b = Ok off"
  shows "a = b"
proof -
  have wf: "masks_wf (ar_masks r)" "length (ar_masks r) = unat nb"
    using AddrRange_xor_masks_wf [OF assms(1)] by auto
  then have "range_wf r"
    using assms(2,3) AddrRange_xor_Ok(1) [OF assms(1)] by (auto simp: range_wf_def unat_eq_zero)
  then show ?thesis by (rule getOffset_inj [OF wf(1) _ assms(4-7)])
qed

theorem getOffset_no_alias_witness:
  "\<exists>r. AddrRange_xor 0 256 6 0 1 1 = Ok r \<and> range_contains r 64 \<and> getOffset r 64 = Ok 0 \<and>
     (\<forall>b. range_contains r b \<and> getOffset r b = Ok 0 \<longrightarrow> 64 = b)"
proof -
  define r where "r = \<lparr>ar_start = 0, ar_end = 256, ar_masks = [64 :: addr], ar_match = 1 :: 8 word\<rparr>"
  have mk: "AddrRange_xor 0 256 6 0 1 1 = Ok r"
    by (simp add: AddrRange_xor_def xor_bits_clash_def xor_mask_def r_def)
  have c: "range_contains r 64"
    by (simp add: range_contains_def intlv_sel_def r_def popCount_exp [of 6, simplified])
  have o: "getOffset r 64 = Ok 0"
    by (simp add: getOffset_def r_def interleaved_def removeIntlvBits_def masks_lsb_def
        ctz64_exp [of 6, simplified] insertBits_def insertBits_raw_def mask_n_def)
  have "\<forall>b. range_contains r b \<and> getOffset r b = Ok 0 \<longrightarrow> 64 = b"
    using getOffset_no_alias [OF mk _ _ c o] by simp
  with mk c o show ?thesis by blast
qed



text \<open>
  Also: with three masks the two functions are not inverse:
  address 0x78 of the range becomes 0x8, and adding the bits back gives 0x38.
\<close>

theorem intlv_three_masks_differ:
  "AddrRange_xor 0 256 5 0 3 7 = Ok three_masks \<and> range_contains three_masks 0x78 \<and>
   removeIntlvBits three_masks 0x78 = Ok 0x8 \<and> addIntlvBits three_masks 0x8 = Ok 0x38"
  by (intro conjI three_masks_built three_masks_contains three_masks_remove three_masks_add)

end
