(* ===== verification/Addr_Range_Map.thy ===== *)
theory Addr_Range_Map
  imports Addr_Intlv "HOL-Library.Product_Lexorder"
begin

text \<open>
  The address decoder \<open>AddrRangeMap\<close>, \<open>src/base/addr_range_map.hh\<close>: an ordered map from address
  ranges to values with a most-recently-used cache of iterators.

  The \<open>std::map\<close> is the list of its nodes in key order. A node has an identity of its own, and an
  iterator is that identity (\<open>None\<close> is \<open>end()\<close>), so that an iterator of an erased node is not
  confused with a later node for the same range; dereferencing it is undefined.

  The lemmas show that \<open>insert\<close> keeps the ranges apart, that looking up an address gives the entry
  whose range contains it whatever the cache holds, and where the implementation departs from this.
\<close>

section \<open>The class\<close>

record 'v range_map =
  rm_tree :: "(nat \<times> addr_range \<times> 'v) list"
  rm_cache :: "nat list"
  rm_fresh :: nat

definition rm_empty :: "'v range_map" where
  "rm_empty = \<lparr>rm_tree = [], rm_cache = [], rm_fresh = 0\<rparr>"

abbreviation node_range :: "nat \<times> addr_range \<times> 'v \<Rightarrow> addr_range" where
  "node_range e \<equiv> fst (snd e)"

text \<open>The loop over the cache; a hit is spliced to the front.\<close>

fun cache_scan ::
    "(addr_range \<Rightarrow> bool res) \<Rightarrow> (nat \<times> addr_range \<times> 'v) list \<Rightarrow> nat list \<Rightarrow> nat list
       \<Rightarrow> (nat \<times> nat list) option res" where
  "cache_scan cond t pre [] = Ok None"
| "cache_scan cond t pre (it # rest) =
     (case map_of t it of
        None \<Rightarrow> Err Undefined
      | Some (r, _) \<Rightarrow> bind_res (cond r) (\<lambda>b.
          if b then Ok (Some (it, it # pre @ rest)) else cache_scan cond t (pre @ [it]) rest))"

definition addNewEntryToCache :: "nat \<Rightarrow> nat \<Rightarrow> nat list \<Rightarrow> nat list" where
  "addNewEntryToCache max_cache_size it cache =
     (if max_cache_size \<noteq> 0 then
        if length cache \<ge> max_cache_size then
          if max_cache_size > 1 then it # butlast cache else butlast cache @ [it]
        else it # cache
      else cache)"

text \<open>The loop that walks back from the upper bound, on the reversed list of the nodes before it.\<close>

fun find_back ::
    "(addr_range \<Rightarrow> bool res) \<Rightarrow> (nat \<times> addr_range \<times> 'v) list \<Rightarrow> nat option res" where
  "find_back cond [] = Ok None"
| "find_back cond (e # es) =
     bind_res (cond (node_range e)) (\<lambda>b.
       if b then Ok (Some (fst e))
       else case es of
         [] \<Rightarrow> Ok None
       | e' # _ \<Rightarrow> if mergesWith (node_range e') (node_range e) then find_back cond es else Ok None)"

abbreviation not_above :: "addr_range \<Rightarrow> nat \<times> addr_range \<times> 'v \<Rightarrow> bool" where
  "not_above r e \<equiv> \<not> range_less r (node_range e)"

definition tree_find ::
    "(addr_range \<Rightarrow> bool res) \<Rightarrow> addr_range \<Rightarrow> (nat \<times> addr_range \<times> 'v) list \<Rightarrow> nat option res" where
  "tree_find cond r t =
     (case dropWhile (not_above r) t of
        [] \<Rightarrow> find_back cond (rev (takeWhile (not_above r) t))
      | e # _ \<Rightarrow> bind_res (cond (node_range e)) (\<lambda>b.
          if b then Ok (Some (fst e)) else find_back cond (rev (takeWhile (not_above r) t))))"

definition rm_find ::
    "nat \<Rightarrow> 'v range_map \<Rightarrow> addr_range \<Rightarrow> (addr_range \<Rightarrow> bool res)
       \<Rightarrow> ('v range_map \<times> nat option) res" where
  "rm_find mcs s r cond =
     bind_res (cache_scan cond (rm_tree s) [] (rm_cache s)) (\<lambda>hit.
       case hit of
         Some (it, cache) \<Rightarrow> Ok (s\<lparr>rm_cache := cache\<rparr>, Some it)
       | None \<Rightarrow> bind_res (tree_find cond r (rm_tree s)) (\<lambda>res.
           case res of
             None \<Rightarrow> Ok (s, None)
           | Some it \<Rightarrow> Ok (s\<lparr>rm_cache := addNewEntryToCache mcs it (rm_cache s)\<rparr>, Some it)))"

definition rm_contains ::
    "nat \<Rightarrow> 'v range_map \<Rightarrow> addr_range \<Rightarrow> ('v range_map \<times> nat option) res" where
  "rm_contains mcs s r = rm_find mcs s r (\<lambda>r1. range_isSubset r r1)"

definition rm_contains_addr ::
    "nat \<Rightarrow> 'v range_map \<Rightarrow> addr \<Rightarrow> ('v range_map \<times> nat option) res" where
  "rm_contains_addr mcs s a = rm_contains mcs s (RangeSize a 1)"

definition rm_intersects ::
    "nat \<Rightarrow> 'v range_map \<Rightarrow> addr_range \<Rightarrow> ('v range_map \<times> nat option) res" where
  "rm_intersects mcs s r = rm_find mcs s r (\<lambda>r1. range_intersects r r1)"

text \<open>\<open>std::map::insert\<close>: an equivalent key keeps its node, otherwise a new node is linked in.\<close>

definition tree_insert ::
    "'v range_map \<Rightarrow> addr_range \<Rightarrow> 'v \<Rightarrow> 'v range_map \<times> nat option" where
  "tree_insert s r v =
     (case find (\<lambda>e. \<not> range_less (node_range e) r \<and> \<not> range_less r (node_range e)) (rm_tree s) of
        Some e \<Rightarrow> (s, Some (fst e))
      | None \<Rightarrow>
          (s\<lparr>rm_tree := takeWhile (\<lambda>e. range_less (node_range e) r) (rm_tree s) @
               (rm_fresh s, r, v) # dropWhile (\<lambda>e. range_less (node_range e) r) (rm_tree s),
             rm_fresh := Suc (rm_fresh s)\<rparr>, Some (rm_fresh s)))"

definition rm_insert ::
    "nat \<Rightarrow> 'v range_map \<Rightarrow> addr_range \<Rightarrow> 'v \<Rightarrow> ('v range_map \<times> nat option) res" where
  "rm_insert mcs s r v =
     bind_res (rm_intersects mcs s r) (\<lambda>(s, it).
       if it \<noteq> None then Ok (s, None) else Ok (tree_insert s r v))"

definition rm_erase :: "'v range_map \<Rightarrow> nat option \<Rightarrow> 'v range_map res" where
  "rm_erase s p =
     (case p of
        None \<Rightarrow> Err Undefined
      | Some i \<Rightarrow>
          if i \<in> set (map fst (rm_tree s)) then
            Ok (s\<lparr>rm_cache := removeAll i (rm_cache s),
                  rm_tree := filter (\<lambda>e. fst e \<noteq> i) (rm_tree s)\<rparr>)
          else Err Undefined)"

text \<open>
  The position of an iterator in the node sequence; \<open>end()\<close> is past the last node. The loop of the
  range form of \<open>erase\<close> removes \<open>p\<close> itself from the cache once per node of the range.
\<close>

definition it_pos :: "'v range_map \<Rightarrow> nat option \<Rightarrow> nat option" where
  "it_pos s p =
     (case p of
        None \<Rightarrow> Some (length (rm_tree s))
      | Some i \<Rightarrow>
          if i \<in> set (map fst (rm_tree s))
          then Some (length (takeWhile (\<lambda>e. fst e \<noteq> i) (rm_tree s))) else None)"

definition rm_erase_range :: "'v range_map \<Rightarrow> nat option \<Rightarrow> nat option \<Rightarrow> 'v range_map res" where
  "rm_erase_range s p q =
     (case (it_pos s p, it_pos s q) of
        (Some m, Some n) \<Rightarrow>
          if m > n then Err Undefined
          else Ok (s\<lparr>rm_cache :=
                       fold (\<lambda>_ c. case p of None \<Rightarrow> c | Some i \<Rightarrow> removeAll i c) [m..<n] (rm_cache s),
                     rm_tree := take m (rm_tree s) @ drop n (rm_tree s)\<rparr>)
      | _ \<Rightarrow> Err Undefined)"

definition rm_clear :: "'v range_map \<Rightarrow> 'v range_map" where
  "rm_clear s = s\<lparr>rm_cache := [], rm_tree := []\<rparr>"

definition rm_size :: "'v range_map \<Rightarrow> nat" where
  "rm_size s = length (rm_tree s)"

definition rm_is_empty :: "'v range_map \<Rightarrow> bool" where
  "rm_is_empty s \<longleftrightarrow> rm_tree s = []"

section \<open>The invariant\<close>

definition rkey :: "addr_range \<Rightarrow> addr \<times> 8 word" where
  "rkey r = (ar_start r, ar_match r)"

text \<open>
  Two entries live side by side when they are different channels of one interleaved region or when
  the intervals that enclose them are disjoint.
\<close>

definition beside :: "addr_range \<Rightarrow> addr_range \<Rightarrow> bool" where
  "beside r1 r2 \<longleftrightarrow>
     mergesWith r1 r2 \<and> ar_match r1 \<noteq> ar_match r2 \<or>
     ar_end r1 \<le> ar_start r2 \<or> ar_end r2 \<le> ar_start r1"

definition entry_ok :: "addr_range \<Rightarrow> bool" where
  "entry_ok r \<longleftrightarrow> range_wf r \<and> ar_start r < ar_end r \<and>
     (interleaved r \<longrightarrow> range_size r \<noteq> 1 \<and> (\<exists>g. granularity r = Ok g))"

definition rm_ok :: "'v range_map \<Rightarrow> bool" where
  "rm_ok s \<longleftrightarrow>
     sorted_wrt (\<lambda>e f. rkey (node_range e) < rkey (node_range f)) (rm_tree s) \<and>
     distinct (map fst (rm_tree s)) \<and> (\<forall>e\<in>set (rm_tree s). fst e < rm_fresh s) \<and>
     set (rm_cache s) \<subseteq> fst ` set (rm_tree s) \<and>
     (\<forall>e\<in>set (rm_tree s). entry_ok (node_range e)) \<and>
     (\<forall>e\<in>set (rm_tree s). \<forall>f\<in>set (rm_tree s). fst e \<noteq> fst f \<longrightarrow> beside (node_range e) (node_range f))"

definition rm_entries :: "'v range_map \<Rightarrow> (addr_range \<times> 'v) set" where
  "rm_entries s = snd ` set (rm_tree s)"

text \<open>
  How a client uses the decoder: whether \<open>insert\<close> returned \<open>end()\<close>, and the value behind the iterator
  that \<open>contains\<close> returned.
\<close>

definition rm_put :: "nat \<Rightarrow> 'v range_map \<Rightarrow> addr_range \<Rightarrow> 'v \<Rightarrow> ('v range_map \<times> bool) res" where
  "rm_put mcs s r v = bind_res (rm_insert mcs s r v) (\<lambda>(s', it). Ok (s', it \<noteq> None))"

definition rm_deref :: "'v range_map \<Rightarrow> nat \<Rightarrow> 'v res" where
  "rm_deref s i = (case map_of (rm_tree s) i of None \<Rightarrow> Err Undefined | Some (_, v) \<Rightarrow> Ok v)"

definition rm_get :: "nat \<Rightarrow> 'v range_map \<Rightarrow> addr_range \<Rightarrow> ('v range_map \<times> 'v option) res" where
  "rm_get mcs s r = bind_res (rm_contains mcs s r) (\<lambda>(s', it).
     case it of None \<Rightarrow> Ok (s', None) | Some i \<Rightarrow> bind_res (rm_deref s' i) (\<lambda>v. Ok (s', Some v)))"

text \<open>Concrete maps: two adjacent ranges with both iterators cached, and four interleaved channels.\<close>

definition two_cached :: "nat range_map" where
  "two_cached = \<lparr>rm_tree = [(0, AddrRange 0 8, 10), (1, AddrRange 8 16, 11)], rm_cache = [1, 0], rm_fresh = 2\<rparr>"

definition channel :: "8 word \<Rightarrow> addr_range" where
  "channel m = \<lparr>ar_start = 0x80000000, ar_end = 0x80001000,
     ar_masks = [0x40000040, 0x80000080], ar_match = m\<rparr>"

definition four_channels :: "nat range_map" where
  "four_channels = \<lparr>rm_tree = [(0, channel 0, 10), (1, channel 1, 11), (2, channel 2, 12), (3, channel 3, 13)],
     rm_cache = [], rm_fresh = 4\<rparr>"

section \<open>Order of entries\<close>

lemma range_less_rkey: "range_less r1 r2 \<longleftrightarrow> rkey r1 < rkey r2"
  by (auto simp: range_less_def rkey_def)

lemma mergesWith_sym: "mergesWith r1 r2 \<longleftrightarrow> mergesWith r2 r1"
  by (auto simp: mergesWith_def)

lemma mergesWith_trans: "mergesWith r1 r2 \<Longrightarrow> mergesWith r2 r3 \<Longrightarrow> mergesWith r1 r3"
  by (auto simp: mergesWith_def)

lemma beside_sym: "beside r1 r2 \<longleftrightarrow> beside r2 r1"
  by (auto simp: beside_def mergesWith_sym)

lemma beside_disjoint:
  assumes "beside r1 r2" "range_contains r1 a" "range_contains r2 a"
  shows False
proof -
  have b: "ar_start r1 \<le> a" "a < ar_end r1" "ar_start r2 \<le> a" "a < ar_end r2"
    and sel: "intlv_sel (ar_masks r1) a = ucast (ar_match r1)"
      "intlv_sel (ar_masks r2) a = ucast (ar_match r2)"
    using assms(2,3) by (auto simp: range_contains_def Let_def split: if_split_asm)
  have "ar_masks r1 = ar_masks r2 \<and> ar_match r1 \<noteq> ar_match r2"
    using assms(1) b by (auto simp: beside_def mergesWith_def)
  then show False using sel ucast_8_32_inj by metis
qed

lemma intersects_beside:
  assumes "range_intersects r e = Ok False" "entry_ok r" "entry_ok e"
    and "interleaved r \<longrightarrow> range_size e \<noteq> 1"
  shows "beside r e"
  using assms by (auto simp: range_intersects_def beside_def entry_ok_def split: if_split_asm)

section \<open>Looking up\<close>

lemma cache_scan_Some:
  assumes "cache_scan cond t pre rest = Ok (Some (it, c))"
  shows "\<exists>r v. map_of t it = Some (r, v) \<and> cond r = Ok True \<and> it \<in> set rest \<and>
           set c = set pre \<union> set rest"
  using assms
proof (induction rest arbitrary: pre)
  case (Cons i rest)
  obtain r v where i: "map_of t i = Some (r, v)" using Cons.prems by (auto split: option.splits)
  obtain b where b: "cond r = Ok b" using Cons.prems i by (auto simp: res_simps)
  show ?case
  proof (cases b)
    case True
    then show ?thesis using Cons.prems i b by auto
  next
    case False
    then have "cache_scan cond t (pre @ [i]) rest = Ok (Some (it, c))" using Cons.prems i b by simp
    from Cons.IH [OF this] show ?thesis by auto
  qed
qed simp

lemma cache_scan_Ok:
  assumes "\<forall>it\<in>set rest. \<exists>r v b. map_of t it = Some (r, v) \<and> cond r = Ok b"
  shows "\<exists>x. cache_scan cond t pre rest = Ok x"
  using assms
proof (induction rest arbitrary: pre)
  case (Cons i rest)
  obtain r v b where "map_of t i = Some (r, v)" "cond r = Ok b" using Cons.prems by auto
  then show ?case using Cons.IH [of "pre @ [i]"] Cons.prems by (cases b) auto
qed simp

lemma find_back_Some:
  "find_back cond es = Ok (Some it) \<Longrightarrow> \<exists>e\<in>set es. fst e = it \<and> cond (node_range e) = Ok True"
proof (induction cond es rule: find_back.induct)
  case (2 cond e es)
  then obtain b where "cond (node_range e) = Ok b" by (auto simp: res_simps)
  with 2 show ?case by (cases b) (auto split: list.splits if_splits)
qed simp

lemma find_back_Ok:
  "\<forall>e\<in>set es. \<exists>b. cond (node_range e) = Ok b \<Longrightarrow> \<exists>x. find_back cond es = Ok x"
proof (induction cond es rule: find_back.induct)
  case (2 cond e es)
  then obtain b where "cond (node_range e) = Ok b" by auto
  with 2 show ?case by (cases b) (auto split: list.splits)
qed simp

lemma find_back_hit:
  assumes "\<forall>f\<in>set xs. cond (node_range f) = Ok False \<and> mergesWith (node_range f) (node_range e)"
    and "cond (node_range e) = Ok True"
  shows "find_back cond (xs @ e # ys) = Ok (Some (fst e))"
  using assms(1)
proof (induction xs)
  case (Cons f xs)
  have "mergesWith (node_range (hd (xs @ e # ys))) (node_range f)"
    using Cons.prems mergesWith_sym mergesWith_trans by (cases xs) (auto simp: mergesWith_def)
  moreover obtain g gs where "xs @ e # ys = g # gs" by (cases "xs @ e # ys") auto
  ultimately show ?case using Cons by simp
qed (simp add: assms(2))

lemma find_back_None_first:
  "find_back cond es = Ok None \<Longrightarrow> es \<noteq> [] \<Longrightarrow> cond (node_range (hd es)) = Ok False"
  by (cases es) (auto simp: res_simps split: if_splits)

lemma tree_find_Some:
  assumes "tree_find cond r t = Ok (Some it)"
  shows "\<exists>e\<in>set t. fst e = it \<and> cond (node_range e) = Ok True"
proof (cases "find_back cond (rev (takeWhile (not_above r) t)) = Ok (Some it)")
  case True
  from find_back_Some [OF this] show ?thesis by (auto dest: set_takeWhileD)
next
  case False
  show ?thesis
  proof (cases "dropWhile (not_above r) t")
    case Nil
    then show ?thesis using assms False unfolding tree_find_def Nil by simp
  next
    case (Cons a as)
    have "cond (node_range a) = Ok True \<and> fst a = it"
      using assms False unfolding tree_find_def Cons list.case bind_res_eq_Ok by (auto split: if_split_asm)
    moreover have "a \<in> set (dropWhile (not_above r) t)" using Cons by simp
    then have "a \<in> set t" by (rule set_dropWhileD)
    ultimately show ?thesis by blast
  qed
qed

lemma tree_find_Ok:
  assumes "\<forall>e\<in>set t. \<exists>b. cond (node_range e) = Ok b"
  shows "\<exists>x. tree_find cond r t = Ok x"
proof -
  have bk: "\<exists>x. find_back cond (rev (takeWhile (not_above r) t)) = Ok x"
    using assms by (intro find_back_Ok) (auto dest: set_takeWhileD)
  show ?thesis
  proof (cases "dropWhile (not_above r) t")
    case Nil
    then show ?thesis using bk unfolding tree_find_def Nil by simp
  next
    case (Cons a as)
    then have "a \<in> set (dropWhile (not_above r) t)" by simp
    then have "a \<in> set t" by (rule set_dropWhileD)
    then obtain b where "cond (node_range a) = Ok b" using assms by blast
    then show ?thesis using bk unfolding tree_find_def Cons by (cases b) simp_all
  qed
qed

text \<open>What the search looks at before it gives up.\<close>

lemma tree_find_None:
  assumes "tree_find cond r t = Ok None"
  shows "dropWhile (not_above r) t \<noteq> [] \<Longrightarrow> cond (node_range (hd (dropWhile (not_above r) t))) = Ok False"
    and "takeWhile (not_above r) t \<noteq> [] \<Longrightarrow> cond (node_range (last (takeWhile (not_above r) t))) = Ok False"
proof -
  have bk: "find_back cond (rev (takeWhile (not_above r) t)) = Ok None"
  proof (cases "dropWhile (not_above r) t")
    case Nil
    then show ?thesis using assms unfolding tree_find_def Nil by simp
  next
    case (Cons a as)
    then show ?thesis
      using assms unfolding tree_find_def Cons list.case bind_res_eq_Ok by (auto split: if_split_asm)
  qed
  show "cond (node_range (hd (dropWhile (not_above r) t))) = Ok False"
    if ne: "dropWhile (not_above r) t \<noteq> []"
  proof (cases "dropWhile (not_above r) t")
    case (Cons a as)
    then show ?thesis
      using assms unfolding tree_find_def Cons list.case bind_res_eq_Ok by (auto split: if_split_asm)
  qed (use ne in simp)
  show "cond (node_range (last (takeWhile (not_above r) t))) = Ok False"
    if "takeWhile (not_above r) t \<noteq> []"
    using find_back_None_first [OF bk] that by (simp add: hd_rev)
qed

lemma sorted_split:
  assumes "sorted_wrt (\<lambda>e f. rkey (node_range e) < rkey (node_range f)) t"
  shows "\<forall>e\<in>set (takeWhile (not_above r) t). rkey (node_range e) \<le> rkey r"
    and "\<forall>e\<in>set (dropWhile (not_above r) t). rkey r < rkey (node_range e)"
proof -
  show "\<forall>e\<in>set (takeWhile (not_above r) t). rkey (node_range e) \<le> rkey r"
    by (auto simp: range_less_rkey not_less dest!: set_takeWhileD)
  show "\<forall>e\<in>set (dropWhile (not_above r) t). rkey r < rkey (node_range e)"
    using assms
  proof (induction t)
    case (Cons a t)
    show ?case
    proof (cases "range_less r (node_range a)")
      case True
      then have "rkey r < rkey (node_range a)" by (simp add: range_less_rkey)
      moreover have "\<forall>e\<in>set t. rkey (node_range a) < rkey (node_range e)" using Cons.prems by simp
      ultimately show ?thesis using True less_trans by simp blast
    qed (use Cons in simp)
  qed simp
qed

lemma sorted_split_less:
  assumes "sorted_wrt (\<lambda>e f. rkey (node_range e) < rkey (node_range f)) t"
  shows "\<forall>e\<in>set (takeWhile (\<lambda>e. range_less (node_range e) r) t). rkey (node_range e) < rkey r"
    and "\<forall>e\<in>set (dropWhile (\<lambda>e. range_less (node_range e) r) t). rkey r \<le> rkey (node_range e)"
proof -
  show "\<forall>e\<in>set (takeWhile (\<lambda>e. range_less (node_range e) r) t). rkey (node_range e) < rkey r"
    by (auto simp: range_less_rkey dest!: set_takeWhileD)
  show "\<forall>e\<in>set (dropWhile (\<lambda>e. range_less (node_range e) r) t). rkey r \<le> rkey (node_range e)"
    using assms
  proof (induction t)
    case (Cons a t)
    show ?case
    proof (cases "range_less (node_range a) r")
      case False
      then have "rkey r \<le> rkey (node_range a)" by (simp add: range_less_rkey not_less)
      moreover have "\<forall>e\<in>set t. rkey (node_range a) \<le> rkey (node_range e)"
        using Cons.prems by (simp add: less_imp_le)
      ultimately show ?thesis using False order_trans by simp blast
    qed (use Cons in simp)
  qed simp
qed

lemma rm_ok_map_of: "rm_ok s \<Longrightarrow> e \<in> set (rm_tree s) \<Longrightarrow> map_of (rm_tree s) (fst e) = Some (snd e)"
  by (cases e) (auto simp: rm_ok_def)

lemma rm_ok_cacheD:
  assumes "rm_ok s" "it \<in> set (rm_cache s)"
  obtains e where "e \<in> set (rm_tree s)" "fst e = it" "map_of (rm_tree s) it = Some (node_range e, snd (snd e))"
proof -
  obtain e where e: "e \<in> set (rm_tree s)" "fst e = it" using assms by (auto simp: rm_ok_def)
  then have "map_of (rm_tree s) it = Some (node_range e, snd (snd e))"
    using rm_ok_map_of [OF assms(1) e(1)] by simp
  with e show thesis by (rule that)
qed

lemma rm_ok_cache_update:
  "rm_ok s \<Longrightarrow> set c \<subseteq> fst ` set (rm_tree s) \<Longrightarrow> rm_ok (s\<lparr>rm_cache := c\<rparr>)"
  by (simp add: rm_ok_def)

lemma addNewEntryToCache_subset: "set (addNewEntryToCache mcs it c) \<subseteq> insert it (set c)"
  by (auto simp: addNewEntryToCache_def dest: in_set_butlastD)

lemma rm_find_total:
  assumes "rm_ok s" "\<forall>e\<in>set (rm_tree s). \<exists>b. cond (node_range e) = Ok b"
  shows "\<exists>x. rm_find mcs s r cond = Ok x"
proof -
  have "\<forall>it\<in>set (rm_cache s). \<exists>q v b. map_of (rm_tree s) it = Some (q, v) \<and> cond q = Ok b"
    using assms(2) by (auto elim!: rm_ok_cacheD [OF assms(1)])
  then obtain hit where hit: "cache_scan cond (rm_tree s) [] (rm_cache s) = Ok hit"
    using cache_scan_Ok by blast
  obtain x where x: "tree_find cond r (rm_tree s) = Ok x" using tree_find_Ok [OF assms(2)] by blast
  show ?thesis using hit x by (cases hit; cases x) (auto simp: rm_find_def)
qed

lemma rm_find_Ok:
  assumes ok: "rm_ok s" and f: "rm_find mcs s r cond = Ok (s', it)"
  shows "rm_ok s' \<and> rm_tree s' = rm_tree s \<and> rm_fresh s' = rm_fresh s"
    and "it = Some i \<Longrightarrow> \<exists>e\<in>set (rm_tree s). fst e = i \<and> cond (node_range e) = Ok True"
    and "it = None \<Longrightarrow> tree_find cond r (rm_tree s) = Ok None"
proof -
  obtain hit where hit: "cache_scan cond (rm_tree s) [] (rm_cache s) = Ok hit"
    and rest: "(case hit of Some (it, cache) \<Rightarrow> Ok (s\<lparr>rm_cache := cache\<rparr>, Some it)
       | None \<Rightarrow> bind_res (tree_find cond r (rm_tree s)) (\<lambda>res.
           case res of None \<Rightarrow> Ok (s, None)
           | Some it \<Rightarrow> Ok (s\<lparr>rm_cache := addNewEntryToCache mcs it (rm_cache s)\<rparr>, Some it))) = Ok (s', it)"
    using f unfolding rm_find_def bind_res_eq_Ok by blast
  have "(rm_ok s' \<and> rm_tree s' = rm_tree s \<and> rm_fresh s' = rm_fresh s) \<and>
    (it = Some i \<longrightarrow> (\<exists>e\<in>set (rm_tree s). fst e = i \<and> cond (node_range e) = Ok True)) \<and>
    (it = None \<longrightarrow> tree_find cond r (rm_tree s) = Ok None)"
  proof (cases hit)
    case (Some p)
    obtain j c where p: "p = (j, c)" by (cases p)
    have s': "s' = s\<lparr>rm_cache := c\<rparr>" "it = Some j" using rest Some p by auto
    obtain q v where q: "map_of (rm_tree s) j = Some (q, v)" "cond q = Ok True" "set c = set (rm_cache s)"
      using cache_scan_Some [of cond "rm_tree s" "[]" "rm_cache s" j c] hit Some p by auto
    have "(j, q, v) \<in> set (rm_tree s)" using q(1) by (rule map_of_SomeD)
    moreover have "rm_ok s'" unfolding s' using ok q(3) by (intro rm_ok_cache_update) (auto simp: rm_ok_def)
    ultimately show ?thesis using s' q(2) by force
  next
    case None
    then obtain x where x: "tree_find cond r (rm_tree s) = Ok x"
      "(case x of None \<Rightarrow> Ok (s, None)
        | Some it \<Rightarrow> Ok (s\<lparr>rm_cache := addNewEntryToCache mcs it (rm_cache s)\<rparr>, Some it)) = Ok (s', it)"
      using rest by (auto simp: res_simps)
    show ?thesis
    proof (cases x)
      case None
      then show ?thesis using x ok by simp
    next
      case (Some j)
      obtain e where e: "e \<in> set (rm_tree s)" "fst e = j" "cond (node_range e) = Ok True"
        using tree_find_Some x(1) Some by blast
      have s': "s' = s\<lparr>rm_cache := addNewEntryToCache mcs j (rm_cache s)\<rparr>" "it = Some j"
        using x(2) Some by auto
      have "rm_ok s'" unfolding s'
        using ok addNewEntryToCache_subset [of mcs j "rm_cache s"] e
        by (intro rm_ok_cache_update) (auto simp: rm_ok_def)
      then show ?thesis using s' e by auto
    qed
  qed
  then show "rm_ok s' \<and> rm_tree s' = rm_tree s \<and> rm_fresh s' = rm_fresh s"
    and "it = Some i \<Longrightarrow> \<exists>e\<in>set (rm_tree s). fst e = i \<and> cond (node_range e) = Ok True"
    and "it = None \<Longrightarrow> tree_find cond r (rm_tree s) = Ok None" by blast+
qed

section \<open>Address lookup\<close>

lemma isSubset_byte:
  assumes "entry_ok e" "a \<noteq> MaxAddr"
  shows "range_isSubset (RangeSize a 1) e = Ok (range_contains e a)"
proof (cases "interleaved e")
  case True
  then obtain g where g: "granularity e = Ok g" using assms(1) by (auto simp: entry_ok_def)
  obtain l where "l < 32" "g = 2 ^ l" using granularity_low_bits [OF g True] by blast
  then have "unat g = 2 ^ l" by (simp only: unat_exp_lower len_bit0 len_num1)
  then have "1 \<le> g" by (simp add: word_le_nat_alt)
  moreover have "range_size (RangeSize a 1) = 1" by (simp add: range_size_def RangeSize_def AddrRange_def)
  ultimately show ?thesis using True g
    by (simp add: range_isSubset_def RangeSize_def AddrRange_def interleaved_def)
next
  case False
  then show ?thesis using assms word_Suc_le [of a "ar_end e"] range_contains_plain [of e a]
    by (simp add: range_isSubset_def RangeSize_def AddrRange_def interleaved_def MaxAddr_def
        entry_ok_def range_wf_def)
qed

lemma rkey_start: "rkey r \<le> (a, m) \<Longrightarrow> ar_start r \<le> a"
  by (auto simp: rkey_def)

lemma entries_between:
  assumes ok: "rm_ok s" and e: "e \<in> set (rm_tree s)" and a: "range_contains (node_range e) a"
    and f: "f \<in> set (rm_tree s)" "rkey (node_range e) < rkey (node_range f)" "ar_start (node_range f) \<le> a"
  shows "mergesWith (node_range f) (node_range e)"
proof -
  have in_e: "ar_start (node_range e) \<le> a" "a < ar_end (node_range e)"
    using a by (auto simp: range_contains_def Let_def split: if_split_asm)
  have ne: "ar_start (node_range f) < ar_end (node_range f)"
    using ok f(1) by (auto simp: rm_ok_def entry_ok_def)
  have le: "ar_start (node_range e) \<le> ar_start (node_range f)"
    using f(2) by (auto simp: rkey_def)
  have "fst e \<noteq> fst f" using f(2) rm_ok_map_of [OF ok e] rm_ok_map_of [OF ok f(1)] by auto
  then have "beside (node_range f) (node_range e)" using ok e f(1) beside_sym unfolding rm_ok_def by blast
  then show ?thesis using in_e ne le f(3) by (auto simp: beside_def)
qed

lemma tree_find_entry:
  assumes ok: "rm_ok s" and e: "e \<in> set (rm_tree s)" and key: "rkey (node_range e) \<le> rkey r"
    and cond: "cond (node_range e) = Ok True"
      "\<forall>f\<in>set (rm_tree s). fst f \<noteq> fst e \<longrightarrow> cond (node_range f) = Ok False"
    and mrg: "\<forall>f\<in>set (rm_tree s). rkey (node_range e) < rkey (node_range f) \<and> rkey (node_range f) \<le> rkey r
      \<longrightarrow> mergesWith (node_range f) (node_range e)"
  shows "tree_find cond r (rm_tree s) = Ok (Some (fst e))"
proof -
  let ?t = "rm_tree s"
  have sorted: "sorted_wrt (\<lambda>e f. rkey (node_range e) < rkey (node_range f)) ?t" using ok by (simp add: rm_ok_def)
  have split: "takeWhile (not_above r) ?t @ dropWhile (not_above r) ?t = ?t" by simp
  have "e \<notin> set (dropWhile (not_above r) ?t)" using sorted_split(2) [OF sorted, of r] key by auto
  then have "e \<in> set (takeWhile (not_above r) ?t)" 
    using e arg_cong [OF split, of set] unfolding set_append by blast
  then obtain xs ys where xs: "takeWhile (not_above r) ?t = xs @ e # ys" by (meson split_list)
  have sorted': "sorted_wrt (\<lambda>e f. rkey (node_range e) < rkey (node_range f)) (xs @ e # ys)"
    unfolding xs [symmetric] by (subst takeWhile_eq_take) (rule sorted_wrt_take [OF sorted])
  have ys: "\<forall>f\<in>set ys. cond (node_range f) = Ok False \<and> mergesWith (node_range f) (node_range e)"
  proof
    fix f assume f: "f \<in> set ys"
    have lt: "rkey (node_range e) < rkey (node_range f)" using sorted_wrt_append_Cons [OF sorted'] f by blast
    have "f \<in> set (takeWhile (not_above r) ?t)" using f xs by simp
    then have "f \<in> set ?t" "rkey (node_range f) \<le> rkey r"
      using sorted_split(1) [OF sorted, of r] set_takeWhileD by fast+
    moreover from this have "fst f \<noteq> fst e" using lt rm_ok_map_of [OF ok e] rm_ok_map_of [OF ok, of f] by auto
    ultimately show "cond (node_range f) = Ok False \<and> mergesWith (node_range f) (node_range e)"
      using cond(2) mrg lt by blast
  qed
  have hit: "find_back cond (rev (takeWhile (not_above r) ?t)) = Ok (Some (fst e))"
    using find_back_hit [of "rev ys" cond e "rev xs"] ys cond(1) unfolding xs by simp
  show ?thesis
  proof (cases "dropWhile (not_above r) ?t")
    case Nil
    then show ?thesis using hit unfolding tree_find_def Nil by simp
  next
    case (Cons g gs)
    then have "g \<in> set (dropWhile (not_above r) ?t)" by simp
    then have "g \<in> set ?t" "rkey r < rkey (node_range g)"
      using sorted_split(2) [OF sorted, of r] set_dropWhileD by fast+
    moreover from this have "fst g \<noteq> fst e" using key rm_ok_map_of [OF ok e] rm_ok_map_of [OF ok, of g] by auto
    ultimately have "cond (node_range g) = Ok False" using cond(2) by blast
    then show ?thesis using hit unfolding tree_find_def Cons by simp
  qed
qed

text \<open>The lookup of an address, with any cache that satisfies the invariant.\<close>

lemma rm_contains_addr_spec:
  assumes ok: "rm_ok s" and a: "a \<noteq> MaxAddr"
  obtains s' it where "rm_contains_addr mcs s a = Ok (s', it)"
    and "rm_ok s'" "rm_tree s' = rm_tree s" "rm_fresh s' = rm_fresh s"
    and "\<And>i. it = Some i \<Longrightarrow> \<exists>e\<in>set (rm_tree s). fst e = i \<and> range_contains (node_range e) a"
    and "\<And>e. e \<in> set (rm_tree s) \<Longrightarrow> range_contains (node_range e) a \<Longrightarrow>
      ar_start (node_range e) < a \<or> ar_match (node_range e) = 0 \<Longrightarrow> it = Some (fst e)"
proof -
  let ?cond = "\<lambda>r1. range_isSubset (RangeSize a 1) r1"
  have cond: "?cond (node_range e) = Ok (range_contains (node_range e) a)" if "e \<in> set (rm_tree s)" for e
    using isSubset_byte [OF _ a] ok that by (auto simp: rm_ok_def)
  have uniq: "fst f = fst e" if "e \<in> set (rm_tree s)" "f \<in> set (rm_tree s)"
    "range_contains (node_range e) a" "range_contains (node_range f) a" for e f
    using ok that beside_disjoint unfolding rm_ok_def by blast
  obtain s' it where f: "rm_contains_addr mcs s a = Ok (s', it)"
    using rm_find_total [OF ok, of ?cond] cond unfolding rm_contains_addr_def rm_contains_def by fastforce
  then have ff: "rm_find mcs s (RangeSize a 1) ?cond = Ok (s', it)"
    by (simp add: rm_contains_addr_def rm_contains_def)
  note found = rm_find_Ok [OF ok ff]
  have some: "\<exists>e\<in>set (rm_tree s). fst e = i \<and> range_contains (node_range e) a" if "it = Some i" for i
    using found(2) [OF that] cond by auto
  have hit: "it = Some (fst e)" if e: "e \<in> set (rm_tree s)" "range_contains (node_range e) a"
    and st: "ar_start (node_range e) < a \<or> ar_match (node_range e) = 0" for e
  proof (cases it)
    case (Some i)
    then obtain f where "f \<in> set (rm_tree s)" "fst f = i" "range_contains (node_range f) a"
      using some by blast
    then show ?thesis using uniq [OF e(1) _ e(2)] Some by simp
  next
    case None
    have key: "rkey (RangeSize a 1) = (a, 0)" by (simp add: rkey_def RangeSize_def AddrRange_def)
    have in_e: "ar_start (node_range e) \<le> a"
      using e(2) by (auto simp: range_contains_def Let_def split: if_split_asm)
    have "tree_find ?cond (RangeSize a 1) (rm_tree s) = Ok (Some (fst e))"
    proof (rule tree_find_entry [OF ok e(1)])
      show "rkey (node_range e) \<le> rkey (RangeSize a 1)" unfolding key using in_e st
        by (auto simp: rkey_def [of "node_range e"])
      show "?cond (node_range e) = Ok True" using cond [OF e(1)] e(2) by simp
      show "\<forall>f\<in>set (rm_tree s). fst f \<noteq> fst e \<longrightarrow> ?cond (node_range f) = Ok False"
      proof (intro ballI impI)
        fix f assume f: "f \<in> set (rm_tree s)" "fst f \<noteq> fst e"
        then have "\<not> range_contains (node_range f) a" using uniq [OF e(1) f(1) e(2)] by blast
        then show "?cond (node_range f) = Ok False" using cond [OF f(1)] by simp
      qed
      show "\<forall>f\<in>set (rm_tree s). rkey (node_range e) < rkey (node_range f) \<and>
          rkey (node_range f) \<le> rkey (RangeSize a 1) \<longrightarrow> mergesWith (node_range f) (node_range e)"
        unfolding key by (intro ballI impI entries_between [OF ok e(1) e(2)]) (auto dest: rkey_start)
    qed
    then show ?thesis using found(3) [OF None] by simp
  qed
  from found(1) have "rm_ok s'" "rm_tree s' = rm_tree s" "rm_fresh s' = rm_fresh s" by auto
  then show thesis by (rule that [OF f _ _ _ some hit])
qed

section \<open>Inserting and erasing\<close>

lemma beside_via:
  assumes fg: "beside f g" and rf: "beside r f"
    and ne: "ar_start f < ar_end f" "ar_start g < ar_end g" "ar_start r < ar_end r"
    and key: "rkey r < rkey f \<and> rkey f < rkey g \<or> rkey g < rkey f \<and> rkey f \<le> rkey r"
  shows "beside r g"
proof -
  consider (up) "rkey r < rkey f" "rkey f < rkey g" | (down) "rkey g < rkey f" "rkey f \<le> rkey r"
    using key by blast
  then show ?thesis
  proof cases
    case up
    then have le: "ar_start r \<le> ar_start f" "ar_start f \<le> ar_start g" by (auto simp: rkey_def)
    have "ar_end r \<le> ar_start f \<or> mergesWith r f" using rf ne le by (auto simp: beside_def)
    then show ?thesis
    proof
      assume m: "mergesWith r f"
      then have same: "ar_start f = ar_start r" "ar_end f = ar_end r" by (auto simp: mergesWith_def)
      have "ar_end f \<le> ar_start g \<or> mergesWith f g" using fg ne le by (auto simp: beside_def)
      then show ?thesis
      proof
        assume mg: "mergesWith f g"
        then have "ar_start g = ar_start r" using same by (simp add: mergesWith_def)
        then have "ar_match r \<noteq> ar_match g" using up by (auto simp: rkey_def)
        then show ?thesis using mergesWith_trans [OF m mg] by (simp add: beside_def)
      qed (simp add: beside_def same)
    qed (use le in \<open>auto simp: beside_def\<close>)
  next
    case down
    then have le: "ar_start g \<le> ar_start f" "ar_start f \<le> ar_start r" by (auto simp: rkey_def)
    have "ar_end g \<le> ar_start f \<or> mergesWith f g \<and> ar_match f \<noteq> ar_match g"
      using fg ne le by (auto simp: beside_def)
    then show ?thesis
    proof
      assume mg: "mergesWith f g \<and> ar_match f \<noteq> ar_match g"
      then have same: "ar_start f = ar_start g" "ar_end f = ar_end g" by (auto simp: mergesWith_def)
      have "ar_end f \<le> ar_start r \<or> mergesWith r f" using rf ne le by (auto simp: beside_def)
      then show ?thesis
      proof
        assume m: "mergesWith r f"
        then have "ar_start f = ar_start r" by (simp add: mergesWith_def)
        then have "ar_match r \<noteq> ar_match g" using down same by (auto simp: rkey_def)
        then show ?thesis using mergesWith_trans [OF m] mg by (simp add: beside_def)
      qed (simp add: beside_def same)
    qed (use le in \<open>auto simp: beside_def\<close>)
  qed
qed

text \<open>When the search for an intersecting entry fails, the new range fits beside every entry.\<close>

lemma no_intersection_beside:
  assumes ok: "rm_ok s" and r: "entry_ok r" and sz: "interleaved r \<longrightarrow> (\<forall>e\<in>set (rm_tree s). range_size (node_range e) \<noteq> 1)"
    and none: "tree_find (range_intersects r) r (rm_tree s) = Ok None"
    and g: "g \<in> set (rm_tree s)"
  shows "beside r (node_range g)"
proof -
  let ?t = "rm_tree s" and ?lt = "\<lambda>e f. rkey (node_range e) < rkey (node_range f)"
  have sorted: "sorted_wrt ?lt ?t" using ok by (simp add: rm_ok_def)
  have ent: "entry_ok (node_range e)" if "e \<in> set ?t" for e using ok that by (simp add: rm_ok_def)
  have fits: "beside r (node_range e)" if "e \<in> set ?t" "range_intersects r (node_range e) = Ok False" for e
    using intersects_beside [OF that(2) r ent [OF that(1)]] sz that(1) by blast
  have via: "beside r (node_range g)"
    if f: "f \<in> set ?t" "range_intersects r (node_range f) = Ok False"
      and key: "rkey r < rkey (node_range f) \<and> ?lt f g \<or> ?lt g f \<and> rkey (node_range f) \<le> rkey r" for f
  proof (rule beside_via [OF _ fits [OF f]])
    have "fst f \<noteq> fst g" using key rm_ok_map_of [OF ok g] rm_ok_map_of [OF ok f(1)] by auto
    then show "beside (node_range f) (node_range g)" using ok f(1) g unfolding rm_ok_def by blast
    show "ar_start (node_range f) < ar_end (node_range f)" "ar_start (node_range g) < ar_end (node_range g)"
      "ar_start r < ar_end r" using ent f(1) g r by (simp_all add: entry_ok_def)
  qed (use key in blast)
  have "set (takeWhile (not_above r) ?t) \<union> set (dropWhile (not_above r) ?t) = set ?t"
    by (simp only: set_append [symmetric] takeWhile_dropWhile_id)
  then consider (bf) "g \<in> set (takeWhile (not_above r) ?t)" | (af) "g \<in> set (dropWhile (not_above r) ?t)"
    using g by blast
  then show ?thesis
  proof cases
    case bf
    define f where "f = last (takeWhile (not_above r) ?t)"
    have ne: "takeWhile (not_above r) ?t \<noteq> []" using bf by auto
    then have mem: "f \<in> set (takeWhile (not_above r) ?t)" unfolding f_def by (rule last_in_set)
    have f: "f \<in> set ?t" "rkey (node_range f) \<le> rkey r"
      using set_takeWhileD [OF mem] sorted_split(1) [OF sorted, of r] mem by blast+
    have no: "range_intersects r (node_range f) = Ok False"
      unfolding f_def by (rule tree_find_None(2) [OF none ne])
    have "g = f \<or> ?lt g f"
      unfolding f_def by (rule sorted_wrt_last [OF sorted_wrt_takeWhile [OF sorted] bf])
    then show ?thesis
    proof
      assume "?lt g f"
      then show ?thesis using via [OF f(1) no] f(2) by blast
    qed (simp add: fits [OF f(1) no])
  next
    case af
    define f where "f = hd (dropWhile (not_above r) ?t)"
    have ne: "dropWhile (not_above r) ?t \<noteq> []" using length_pos_if_in_set [OF af] unfolding length_greater_0_conv .
    then have mem: "f \<in> set (dropWhile (not_above r) ?t)" unfolding f_def by (rule hd_in_set)
    have f: "f \<in> set ?t" "rkey r < rkey (node_range f)"
      using set_dropWhileD [OF mem] sorted_split(2) [OF sorted, of r] mem by blast+
    have no: "range_intersects r (node_range f) = Ok False"
      unfolding f_def by (rule tree_find_None(1) [OF none ne])
    have "g = f \<or> ?lt f g"
      unfolding f_def by (rule sorted_wrt_hd [OF sorted_wrt_dropWhile [OF sorted] af])
    then show ?thesis
    proof
      assume "?lt f g"
      then show ?thesis using via [OF f(1) no] f(2) by blast
    qed (simp add: fits [OF f(1) no])
  qed
qed

lemma tree_insert_spec:
  assumes ok: "rm_ok s" and r: "entry_ok r" and new: "\<And>e. e \<in> set (rm_tree s) \<Longrightarrow> beside r (node_range e)"
  obtains s' where "tree_insert s r v = (s', Some (rm_fresh s))" and "rm_ok s'"
    and "set (rm_tree s') = insert (rm_fresh s, r, v) (set (rm_tree s))" and "rm_fresh s' = Suc (rm_fresh s)"
proof -
  let ?t = "rm_tree s" and ?lt = "\<lambda>e f. rkey (node_range e) < rkey (node_range f)"
    and ?P = "\<lambda>e. range_less (node_range e) r"
  have sorted: "sorted_wrt ?lt ?t" using ok by (simp add: rm_ok_def)
  have ne: "rkey (node_range e) \<noteq> rkey r" if "e \<in> set ?t" for e
  proof
    assume same: "rkey (node_range e) = rkey r"
    have "ar_start (node_range e) < ar_end (node_range e)" "ar_start r < ar_end r"
      using ok r that by (auto simp: rm_ok_def entry_ok_def)
    then show False using new [OF that] same by (auto simp: beside_def rkey_def)
  qed
  have none: "find (\<lambda>e. \<not> range_less (node_range e) r \<and> \<not> range_less r (node_range e)) ?t = None"
    unfolding find_None_iff using ne by (auto simp: range_less_rkey not_less)
  define t' where "t' = takeWhile ?P ?t @ (rm_fresh s, r, v) # dropWhile ?P ?t"
  define s' where "s' = s\<lparr>rm_tree := t', rm_fresh := Suc (rm_fresh s)\<rparr>"
  have set': "set t' = insert (rm_fresh s, r, v) (set ?t)"
    unfolding t'_def by (rule split_insert_set)
  have fresh: "rm_fresh s \<notin> set (map fst ?t)" using ok by (auto simp: rm_ok_def)
  have dist: "distinct (map fst t')"
    unfolding t'_def split_insert_distinct using fresh ok by (simp add: rm_ok_def)
  have gt: "\<forall>e\<in>set (dropWhile ?P ?t). rkey r < rkey (node_range e)"
  proof
    fix e assume e: "e \<in> set (dropWhile ?P ?t)"
    have "rkey r \<le> rkey (node_range e)" by (rule sorted_split_less(2) [OF sorted, THEN bspec, OF e])
    moreover have "rkey (node_range e) \<noteq> rkey r" by (rule ne [OF set_dropWhileD [OF e]])
    ultimately show "rkey r < rkey (node_range e)" by simp
  qed
  have lt: "\<forall>e\<in>set (takeWhile ?P ?t). rkey (node_range e) < rkey r"
    by (rule sorted_split_less(1) [OF sorted])
  have cross: "?lt x y" if "x \<in> set (takeWhile ?P ?t)" "y \<in> set (dropWhile ?P ?t)" for x y
    using lt [THEN bspec, OF that(1)] gt [THEN bspec, OF that(2)] by (rule less_trans)
  have srt: "sorted_wrt ?lt t'"
    unfolding t'_def sorted_wrt_append sorted_wrt.simps
    using sorted_wrt_takeWhile [OF sorted, of ?P] sorted_wrt_dropWhile [OF sorted, of ?P] lt gt cross by simp
  have pairs: "\<forall>e\<in>set t'. \<forall>f\<in>set t'. fst e \<noteq> fst f \<longrightarrow> beside (node_range e) (node_range f)"
  proof (intro ballI impI)
    fix e f assume ef: "e \<in> set t'" "f \<in> set t'" "fst e \<noteq> fst f"
    have old: "beside (node_range e) (node_range f)" if "e \<in> set ?t" "f \<in> set ?t"
      using ok that ef(3) unfolding rm_ok_def by blast
    have "e = (rm_fresh s, r, v) \<or> e \<in> set ?t" "f = (rm_fresh s, r, v) \<or> f \<in> set ?t"
      using ef(1,2) unfolding set' by (simp_all only: insert_iff)
    then show "beside (node_range e) (node_range f)"
    proof (elim disjE)
      assume "e = (rm_fresh s, r, v)" "f = (rm_fresh s, r, v)"
      then show ?thesis using ef(3) by simp
    next
      assume "e = (rm_fresh s, r, v)" "f \<in> set ?t"
      then show ?thesis using new by simp
    next
      assume "e \<in> set ?t" "f = (rm_fresh s, r, v)"
      then have "beside r (node_range e)" "node_range f = r" using new by simp_all
      then show ?thesis using beside_sym by simp
    next
      assume "e \<in> set ?t" "f \<in> set ?t"
      then show ?thesis by (rule old)
    qed
  qed
  have "rm_ok s'"
    unfolding rm_ok_def s'_def using ok srt dist set' r pairs
    by (simp add: rm_ok_def less_Suc_eq) blast
  moreover have "tree_insert s r v = (s', Some (rm_fresh s))"
    by (simp add: tree_insert_def none s'_def t'_def)
  moreover have "rm_tree s' = t'" "rm_fresh s' = Suc (rm_fresh s)" by (simp_all add: s'_def)
  ultimately show thesis using set' by (intro that [of s']) simp_all
qed

lemma rm_insert_spec:
  assumes ok: "rm_ok s" and r: "entry_ok r"
    and sz: "interleaved r \<longrightarrow> (\<forall>e\<in>set (rm_tree s). range_size (node_range e) \<noteq> 1)"
    and ins: "rm_insert mcs s r v = Ok (s', it)"
  shows "rm_ok s'"
    and "it = None \<Longrightarrow> rm_tree s' = rm_tree s \<and> (\<exists>e\<in>set (rm_tree s). range_intersects r (node_range e) = Ok True)"
    and "it = Some i \<Longrightarrow> i = rm_fresh s \<and> set (rm_tree s') = insert (i, r, v) (set (rm_tree s)) \<and>
           (\<forall>e\<in>set (rm_tree s). beside r (node_range e))"
proof -
  obtain s1 jt where f: "rm_find mcs s r (range_intersects r) = Ok (s1, jt)"
    and rest: "(if jt \<noteq> None then Ok (s1, None) else Ok (tree_insert s1 r v)) = Ok (s', it)"
    using ins unfolding rm_insert_def rm_intersects_def bind_res_eq_Ok by auto
  note found = rm_find_Ok [OF ok f]
  have "rm_ok s' \<and> (it = None \<longrightarrow> rm_tree s' = rm_tree s \<and> (\<exists>e\<in>set (rm_tree s). range_intersects r (node_range e) = Ok True)) \<and>
    (it = Some i \<longrightarrow> i = rm_fresh s \<and> set (rm_tree s') = insert (i, r, v) (set (rm_tree s)) \<and>
           (\<forall>e\<in>set (rm_tree s). beside r (node_range e)))"
  proof (cases jt)
    case (Some j)
    then show ?thesis using rest found(1,2) by auto
  next
    case None
    have new: "\<And>e. e \<in> set (rm_tree s1) \<Longrightarrow> beside r (node_range e)"
      using no_intersection_beside [OF ok r sz found(3) [OF None]] found(1) by simp
    from found(1) have ok1: "rm_ok s1" by blast
    obtain s2 where "tree_insert s1 r v = (s2, Some (rm_fresh s1))" "rm_ok s2"
      "set (rm_tree s2) = insert (rm_fresh s1, r, v) (set (rm_tree s1))"
      by (rule tree_insert_spec [OF ok1 r new])
    then show ?thesis using rest None found(1) new by auto
  qed
  then show "rm_ok s'"
    and "it = None \<Longrightarrow> rm_tree s' = rm_tree s \<and> (\<exists>e\<in>set (rm_tree s). range_intersects r (node_range e) = Ok True)"
    and "it = Some i \<Longrightarrow> i = rm_fresh s \<and> set (rm_tree s') = insert (i, r, v) (set (rm_tree s)) \<and>
           (\<forall>e\<in>set (rm_tree s). beside r (node_range e))" by blast+
qed

lemma rm_erase_spec:
  assumes ok: "rm_ok s" and e: "e \<in> set (rm_tree s)"
  shows "\<exists>s'. rm_erase s (Some (fst e)) = Ok s' \<and> rm_ok s' \<and> set (rm_tree s') = set (rm_tree s) - {e}"
proof -
  define s' where "s' = s\<lparr>rm_cache := removeAll (fst e) (rm_cache s),
    rm_tree := filter (\<lambda>f. fst f \<noteq> fst e) (rm_tree s)\<rparr>"
  have "rm_erase s (Some (fst e)) = Ok s'" using e by (auto simp: rm_erase_def s'_def)
  moreover have "f = e" if "f \<in> set (rm_tree s)" "fst f = fst e" for f
    using rm_ok_map_of [OF ok that(1)] rm_ok_map_of [OF ok e] that(2) by (auto intro: prod_eqI)
  then have "set (rm_tree s') = set (rm_tree s) - {e}" by (auto simp: s'_def)
  moreover have "rm_ok s'"
    using ok by (auto simp: rm_ok_def s'_def sorted_wrt_filter distinct_map_filter)
  ultimately show ?thesis by blast
qed

section \<open>The decoder interface\<close>

text \<open>
  What the memory system relies on: an address decoder holds entries that never overlap, accepts
  a range only when it is disjoint from all of them, and answers a lookup with an entry that
  contains the whole range asked for.
\<close>

locale addr_decoder =
  fixes dec_ok :: "'m \<Rightarrow> bool"
    and dec_entries :: "'m \<Rightarrow> (addr_range \<times> 'v) set"
    and dec_put :: "'m \<Rightarrow> addr_range \<Rightarrow> 'v \<Rightarrow> ('m \<times> bool) res"
    and dec_get :: "'m \<Rightarrow> addr_range \<Rightarrow> ('m \<times> 'v option) res"
  assumes owner: "dec_ok m \<Longrightarrow> (e, v) \<in> dec_entries m \<Longrightarrow> (f, w) \<in> dec_entries m \<Longrightarrow>
      a \<in> range_set e \<Longrightarrow> a \<in> range_set f \<Longrightarrow> e = f \<and> v = w"
    and put_ok: "dec_ok m \<Longrightarrow> entry_ok r \<Longrightarrow>
      interleaved r \<longrightarrow> (\<forall>(e, v)\<in>dec_entries m. range_size e \<noteq> 1) \<Longrightarrow>
      dec_put m r v = Ok (m', b) \<Longrightarrow>
      dec_ok m' \<and> dec_entries m' = (if b then insert (r, v) (dec_entries m) else dec_entries m)"
    and get_ok: "dec_ok m \<Longrightarrow> dec_get m r = Ok (m', x) \<Longrightarrow>
      dec_ok m' \<and> dec_entries m' = dec_entries m"
    and get_sound: "dec_ok m \<Longrightarrow> dec_get m r = Ok (m', Some v) \<Longrightarrow> range_wf r \<Longrightarrow> ar_start r < ar_end r \<Longrightarrow>
      \<exists>e. (e, v) \<in> dec_entries m \<and> range_set r \<subseteq> range_set e"
begin

text \<open>Two lookups that cover a common address reach the same value, whatever happens to the cache.\<close>

lemma get_agree:
  assumes "dec_ok m" "dec_get m r = Ok (m', Some v)" "dec_get m' q = Ok (m'', Some w)"
    and "range_wf r" "ar_start r < ar_end r" "range_wf q" "ar_start q < ar_end q"
    and "a \<in> range_set r" "a \<in> range_set q"
  shows "v = w"
proof -
  have m': "dec_ok m'" "dec_entries m' = dec_entries m" using get_ok [OF assms(1,2)] by auto
  obtain e where e: "(e, v) \<in> dec_entries m" "range_set r \<subseteq> range_set e"
    using get_sound [OF assms(1,2,4,5)] by blast
  obtain f where f: "(f, w) \<in> dec_entries m" "range_set q \<subseteq> range_set f"
    using get_sound [OF m'(1) assms(3,6,7)] m'(2) by auto
  show ?thesis using owner [OF assms(1) e(1) f(1), of a] e f assms(8,9) by blast
qed

text \<open>An accepted range is disjoint from every entry that was there.\<close>

lemma put_disjoint:
  assumes "dec_ok m" "entry_ok r" "interleaved r \<longrightarrow> (\<forall>(e, v)\<in>dec_entries m. range_size e \<noteq> 1)"
    and "dec_put m r v = Ok (m', True)" "(e, w) \<in> dec_entries m" "e \<noteq> r"
  shows "range_set r \<inter> range_set e = {}"
proof -
  have m': "dec_ok m'" "dec_entries m' = insert (r, v) (dec_entries m)"
    using put_ok [OF assms(1-4)] by simp_all
  then have "(r, v) \<in> dec_entries m'" "(e, w) \<in> dec_entries m'" using assms(5) by auto
  then show ?thesis using owner [OF m'(1)] assms(6) by blast
qed

end

lemma rm_find_sound:
  assumes ok: "rm_ok s" and g: "rm_get mcs s r = Ok (s', Some v)" and r: "range_wf r" "ar_start r < ar_end r"
  shows "\<exists>e. (e, v) \<in> rm_entries s \<and> range_set r \<subseteq> range_set e"
proof -
  obtain i where f: "rm_find mcs s r (range_isSubset r) = Ok (s', Some i)" and d: "rm_deref s' i = Ok v"
    using g unfolding rm_get_def rm_contains_def bind_res_eq_Ok
    by (auto split: option.splits simp: res_simps)
  obtain e where e: "e \<in> set (rm_tree s)" "fst e = i" "range_isSubset r (node_range e) = Ok True"
    using rm_find_Ok(2) [OF ok f] by blast
  have "range_set r \<subseteq> range_set (node_range e)"
    using range_isSubset_sound [OF e(3) r(2,1)] ok e(1) by (simp add: rm_ok_def entry_ok_def)
  moreover have "snd (snd e) = v"
    using d rm_find_Ok(1) [OF ok f] rm_ok_map_of [OF ok e(1)] e(2)
    by (simp add: rm_deref_def split: prod.splits)
  then have "(node_range e, v) \<in> rm_entries s"
    using e(1) unfolding rm_entries_def by (auto intro!: image_eqI [of _ _ e] prod_eqI)
  ultimately show ?thesis by blast
qed

lemma rm_get_keeps:
  assumes ok: "rm_ok s" and g: "rm_get mcs s r = Ok (s', x)"
  shows "rm_ok s' \<and> rm_entries s' = rm_entries s"
proof -
  obtain it where "rm_find mcs s r (range_isSubset r) = Ok (s', it)"
    using g unfolding rm_get_def rm_contains_def bind_res_eq_Ok
    by (auto split: option.splits simp: res_simps)
  from rm_find_Ok(1) [OF ok this] show ?thesis by (simp add: rm_entries_def)
qed

interpretation armap: addr_decoder rm_ok rm_entries "rm_put mcs" "rm_get mcs" for mcs
proof (unfold_locales, goal_cases)
  case (1 m e v f w a)
  then obtain i j where ij: "(i, e, v) \<in> set (rm_tree m)" "(j, f, w) \<in> set (rm_tree m)"
    unfolding rm_entries_def by force
  have "i = j"
  proof (rule ccontr)
    assume "i \<noteq> j"
    then have "beside e f" using 1(1) ij unfolding rm_ok_def by fastforce
    then show False using beside_disjoint 1(4,5) by (simp add: range_set_def)
  qed
  then show ?case using rm_ok_map_of [OF 1(1) ij(1)] rm_ok_map_of [OF 1(1) ij(2)] by simp
next
  case (2 m r v m' b)
  obtain it where ins: "rm_insert mcs m r v = Ok (m', it)" and b: "b = (it \<noteq> None)"
    using 2(4) unfolding rm_put_def bind_res_eq_Ok by auto
  have sz: "interleaved r \<longrightarrow> (\<forall>e\<in>set (rm_tree m). range_size (node_range e) \<noteq> 1)"
    using 2(3) by (force simp: rm_entries_def)
  note spec = rm_insert_spec [OF 2(1,2) sz ins]
  show ?case
  proof (cases it)
    case None
    then show ?thesis using spec(1) spec(2) [OF None] b by (simp add: rm_entries_def)
  next
    case (Some i)
    then show ?thesis using spec(1) spec(3) [OF Some] b by (simp add: rm_entries_def)
  qed
next
  case (3 m r m' x)
  then show ?case by (rule rm_get_keeps)
next
  case (4 m r m' v)
  then show ?case by (rule rm_find_sound)
qed

section \<open>Concrete maps\<close>

lemma entry_ok_plain: "st < en \<Longrightarrow> entry_ok (AddrRange st en)"
  by (simp add: entry_ok_def AddrRange_def interleaved_def range_wf_def)

lemma two_cached_ok: "rm_ok two_cached"
  by (simp add: rm_ok_def two_cached_def entry_ok_plain) (simp add: rkey_def beside_def AddrRange_def)

lemma two_cached_insert: "rm_insert 2 two_cached (AddrRange 16 32) 12 =
  Ok (two_cached\<lparr>rm_tree := rm_tree two_cached @ [(2, AddrRange 16 32, 12)], rm_fresh := 3\<rparr>, Some 2)"
  by (simp add: rm_insert_def rm_intersects_def rm_find_def two_cached_def range_intersects_def AddrRange_def
      tree_find_def range_less_def tree_insert_def interleaved_def)

lemma channel_built:
  assumes "unat m < 4"
  shows "AddrRange_xor 0x80000000 0x80001000 7 31 2 m = Ok (channel m)"
proof -
  have "xor_masks_loop 7 31 (Suc (Suc 0)) (Suc (Suc 0)) [0, 0] = Ok [0x40000040, 0x80000080]"
    by (simp add: xor_mask_def)
  moreover have "replicate 2 0 = [0, 0 :: addr]" by (simp add: numeral_2_eq_2)
  ultimately have "xor_masks_loop 7 31 2 2 (replicate 2 0) = Ok [0x40000040, 0x80000080]"
    by (simp only: numeral_2_eq_2)
  then show ?thesis using assms by (simp add: AddrRange_xor_def xor_bits_clash_def channel_def)
qed

lemma channel_sel: "intlv_sel [0x40000040, 0x80000080] 0x80000000 = 2"
  by (simp add: intlv_sel_def popCount_exp [of 31, simplified] popCount_0)

lemma channel_contains: "range_contains (channel m) 0x80000000 \<longleftrightarrow> m = 2"
proof -
  have "(2 :: 32 word) = ucast m \<longleftrightarrow> m = 2" using ucast_8_32_inj [of 2 m] by auto
  then show ?thesis by (simp add: range_contains_def channel_def channel_sel)
qed

lemma channel_entry_ok: "entry_ok (channel m)"
proof -
  have "ctz64 (- 1073741632) < 64" by (rule ctz64_less) simp
  then show ?thesis
    by (simp add: entry_ok_def channel_def range_wf_def interleaved_def range_size_def granularity_def Let_def)
qed

lemma four_channels_ok: "rm_ok four_channels"
  by (simp add: rm_ok_def four_channels_def channel_entry_ok)
    (simp add: rkey_def beside_def channel_def mergesWith_def)

section \<open>Properties\<close>

text \<open>
  C25: whatever the cache holds, looking up an address below the top
  of the address space returns, leaves the entries and the invariant alone, returns only an entry
  that contains the address, and finds the entry that contains it; for the first address of an
  interleaved region this needs the entry to be channel 0.
\<close>

theorem lookup_finds_owner:
  assumes "rm_ok s" "a \<noteq> MaxAddr"
  shows "\<exists>s' it. rm_contains_addr mcs s a = Ok (s', it) \<and> rm_ok s' \<and> rm_tree s' = rm_tree s \<and>
    (\<forall>i. it = Some i \<longrightarrow> (\<exists>e\<in>set (rm_tree s). fst e = i \<and> range_contains (node_range e) a)) \<and>
    (\<forall>e\<in>set (rm_tree s). range_contains (node_range e) a \<and>
       (ar_start (node_range e) < a \<or> ar_match (node_range e) = 0) \<longrightarrow> it = Some (fst e))"
proof (rule rm_contains_addr_spec [OF assms, of mcs], goal_cases)
  case (1 s' it)
  then show ?case by blast
qed

theorem lookup_finds_owner_witness:
  "\<exists>s' it. rm_contains_addr 2 two_cached 9 = Ok (s', it) \<and> it = Some 1"
proof -
  have "(1, AddrRange 8 16, 11) \<in> set (rm_tree two_cached)" by (simp add: two_cached_def)
  moreover have "ar_start (AddrRange 8 16) < 9" by (simp add: AddrRange_def)
  moreover have "(9 :: addr) \<noteq> MaxAddr" by (simp add: MaxAddr_def)
  ultimately show ?thesis
    using lookup_finds_owner [OF two_cached_ok, of 9 2] by fastforce
qed

text \<open>
  C26: inserting a non-empty range keeps the invariant; it
  either returns \<open>end()\<close>, leaves the entries alone and some entry intersects the range, or adds exactly
  one entry and no address of the new range was in any entry.
\<close>

theorem insert_keeps_ranges_apart:
  assumes "rm_ok s" "entry_ok r"
    and "interleaved r \<longrightarrow> (\<forall>e\<in>set (rm_tree s). range_size (node_range e) \<noteq> 1)"
    and "rm_insert mcs s r v = Ok (s', it)"
  shows "rm_ok s' \<and>
    (case it of
       None \<Rightarrow> rm_entries s' = rm_entries s \<and> (\<exists>(e, w)\<in>rm_entries s. range_intersects r e = Ok True)
     | Some i \<Rightarrow> rm_entries s' = insert (r, v) (rm_entries s) \<and>
         (\<forall>(e, w)\<in>rm_entries s. range_set r \<inter> range_set e = {}))"
proof (cases it)
  case None
  then show ?thesis using rm_insert_spec(1,2) [OF assms] by (force simp: rm_entries_def)
next
  case (Some i)
  note spec = rm_insert_spec(3) [OF assms Some]
  have "range_set r \<inter> range_set e = {}" if ew: "(e, w) \<in> rm_entries s" for e w
  proof -
    obtain j where "(j, e, w) \<in> set (rm_tree s)" using ew by (auto simp: rm_entries_def)
    then have "beside r e" using spec by fastforce
    from beside_disjoint [OF this] show ?thesis by (auto simp: range_set_def)
  qed
  moreover have "rm_entries s' = insert (r, v) (rm_entries s)" using spec by (simp add: rm_entries_def)
  ultimately show ?thesis using Some rm_insert_spec(1) [OF assms] by auto
qed

theorem insert_keeps_ranges_apart_witness:
  "\<exists>s'. rm_insert 2 two_cached (AddrRange 16 32) 12 = Ok (s', Some 2) \<and> rm_ok s' \<and>
     rm_entries s' = insert (AddrRange 16 32, 12) (rm_entries two_cached)"
  using insert_keeps_ranges_apart [OF two_cached_ok entry_ok_plain _ two_cached_insert] two_cached_insert by simp

text \<open>
  Also: the range form of \<open>erase\<close> removes only its first
  iterator from the cache, so after erasing two cached entries the next lookup dereferences the
  iterator of an erased node.
\<close>

theorem erase_range_leaves_dangling:
  "rm_ok two_cached \<and>
   (\<exists>s. rm_erase_range two_cached (Some 0) None = Ok s \<and> rm_tree s = [] \<and> rm_cache s = [1] \<and>
        rm_contains_addr 2 s 9 = Err Undefined)"
proof -
  define s where "s = two_cached\<lparr>rm_cache := [1], rm_tree := []\<rparr>"
  have "rm_erase_range two_cached (Some 0) None = Ok s"
    by (simp add: rm_erase_range_def it_pos_def two_cached_def s_def upt_rec)
  moreover have "rm_contains_addr 2 s 9 = Err Undefined"
    by (simp add: rm_contains_addr_def rm_contains_def rm_find_def s_def two_cached_def)
  ultimately show ?thesis using two_cached_ok by (auto simp: s_def)
qed

text \<open>
  Also: four channels built by the bit-position
  constructor over a region whose first address belongs to channel 2. The search only tries the
  entry after the key \<open>(start, 0)\<close> and the entries before it, so the lookup of that address reports
  that no entry contains it.
\<close>

theorem interleaved_start_not_found:
  "list_all (\<lambda>m. AddrRange_xor 0x80000000 0x80001000 7 31 2 m = Ok (channel m)) [0, 1, 2, 3] \<and>
   rm_ok four_channels \<and> (2, channel 2, 12) \<in> set (rm_tree four_channels) \<and>
   range_contains (channel 2) 0x80000000 \<and>
   rm_contains_addr 0 four_channels 0x80000000 = Ok (four_channels, None)"
proof -
  have sub: "range_isSubset (RangeSize 0x80000000 1) (channel m) = Ok (m = 2)" for m
    using isSubset_byte [OF channel_entry_ok, of "0x80000000" m] channel_contains by (simp add: MaxAddr_def)
  have key: "range_less (RangeSize 0x80000000 1) (channel m) \<longleftrightarrow> 0 < m" for m
    by (simp add: range_less_def RangeSize_def AddrRange_def channel_def)
  have "rm_contains_addr 0 four_channels 0x80000000 = Ok (four_channels, None)"
    by (simp add: rm_contains_addr_def rm_contains_def rm_find_def four_channels_def tree_find_def sub key)
  then show ?thesis
    using channel_built four_channels_ok channel_contains by (simp add: four_channels_def)
qed

end
