(* ===== verification/Vma.thy ===== *)
theory Vma
  imports Addr_Range
begin

text \<open>
  Virtual memory areas, \<open>src/sim/vma.cc\<close> and \<open>vma.hh\<close>: a page-aligned range of virtual addresses,
  possibly backed by a file that the host has mapped. The lemmas show what slicing and moving do to
  the addresses of an area and that every address keeps its byte of the file.
\<close>

unbundle bit_operations_syntax

section \<open>The host\<close>

text \<open>
  What the code asks of the operating system of the host: the size of an open file (\<open>fstat\<close>) and a private
  mapping of a part of it (\<open>mmap\<close>), both by file descriptor.
\<close>

record host =
  host_fstat :: "int \<Rightarrow> int option"
  host_mmap :: "int \<Rightarrow> 64 word \<Rightarrow> int \<Rightarrow> 8 word list option"

record mapped_file =
  mf_buffer :: "8 word list"
  mf_length :: "64 word"

text \<open>
  The test \<open>fstat(...) > 0\<close> is never true, because \<open>fstat\<close> reports an error by -1: the code goes on with the
  uninitialised size.
\<close>

definition MappedFileBuffer :: "host \<Rightarrow> int \<Rightarrow> 64 word \<Rightarrow> int \<Rightarrow> mapped_file res" where
  "MappedFileBuffer h fd len offset =
     (if len = 0 then Err Panic
      else case host_fstat h fd of
        None \<Rightarrow> Err Undefined
      | Some st_size \<Rightarrow>
          if offset > st_size then Err Panic
          else
            let len = min (word_of_int (st_size - offset)) len
            in if len \<noteq> 0 then
                 case host_mmap h fd len offset of
                   None \<Rightarrow> Err Panic
                 | Some buf \<Rightarrow> Ok \<lparr>mf_buffer = buf, mf_length = len\<rparr>
               else Err Panic)"

section \<open>Areas\<close>

text \<open>
  A pointer into the host buffer is an offset from its start. An area without a file leaves the pointer and
  the length uninitialised, and slicing an area past the end of its file leaves an offset
  from the null pointer.
\<close>

datatype host_ptr = Uninit | Null_plus addr | Buf_plus addr

record vma =
  v_addrRange :: addr_range
  v_pageBytes :: addr
  v_origHostBuf :: "mapped_file option"
  v_hostBuf :: host_ptr
  v_hostBufLen :: "64 word option"
  v_vmaName :: string

definition hasHostBuf :: "vma \<Rightarrow> bool" where
  "hasHostBuf v \<longleftrightarrow> v_origHostBuf v \<noteq> None"

definition v_start :: "vma \<Rightarrow> addr" where
  "v_start v = ar_start (v_addrRange v)"

definition v_end :: "vma \<Rightarrow> addr" where
  "v_end v = ar_end (v_addrRange v)"

definition v_intersects :: "vma \<Rightarrow> addr_range \<Rightarrow> bool res" where
  "v_intersects v r = range_intersects (v_addrRange v) r"

definition v_isSubset :: "vma \<Rightarrow> addr_range \<Rightarrow> bool res" where
  "v_isSubset v r = range_isSubset (v_addrRange v) r"

definition v_contains :: "vma \<Rightarrow> addr \<Rightarrow> bool" where
  "v_contains v a = range_contains (v_addrRange v) a"

definition isStrictSuperset :: "vma \<Rightarrow> addr_range \<Rightarrow> bool" where
  "isStrictSuperset v r \<longleftrightarrow> ar_start r > v_start v \<and> ar_end r < v_end v"

definition sanityCheck :: "vma \<Rightarrow> vma res" where
  "sanityCheck v =
     assert_that (v_start v \<noteq> v_end v)
       (assert_that (v_start v < v_end v)
         (if v_pageBytes v = 0 then Err Undefined
          else assert_that (v_start v mod v_pageBytes v = 0)
            (assert_that (v_end v mod v_pageBytes v = 0) (Ok v))))"

definition VMA :: "host \<Rightarrow> addr_range \<Rightarrow> addr \<Rightarrow> string \<Rightarrow> int \<Rightarrow> int \<Rightarrow> vma res" where
  "VMA h r page_bytes vma_name fd off =
     (let v = \<lparr>v_addrRange = r, v_pageBytes = page_bytes, v_origHostBuf = None, v_hostBuf = Uninit,
               v_hostBufLen = None, v_vmaName = vma_name\<rparr>
      in bind_res
           (if fd \<noteq> - 1
            then bind_res (MappedFileBuffer h fd (range_size r) off) (\<lambda>mf.
                   Ok (v\<lparr>v_origHostBuf := Some mf, v_hostBuf := Buf_plus 0, v_hostBufLen := Some (mf_length mf)\<rparr>))
            else Ok v)
           sanityCheck)"

definition read_len :: "vma \<Rightarrow> 64 word res" where
  "read_len v = (case v_hostBufLen v of None \<Rightarrow> Err Undefined | Some l \<Rightarrow> Ok l)"

fun ptr_plus :: "host_ptr \<Rightarrow> addr \<Rightarrow> host_ptr res" where
  "ptr_plus Uninit n = Err Undefined"
| "ptr_plus (Null_plus p) n = Ok (Null_plus (p + n))"
| "ptr_plus (Buf_plus p) n = Ok (Buf_plus (p + n))"

definition sliceRegionRight :: "addr \<Rightarrow> vma \<Rightarrow> vma res" where
  "sliceRegionRight slice_addr v =
     bind_res
       (if hasHostBuf v
        then let nonoverlap_len = slice_addr - v_start v
             in bind_res (read_len v) (\<lambda>l. Ok (v\<lparr>v_hostBufLen := Some (min l nonoverlap_len)\<rparr>))
        else Ok v)
       (\<lambda>v. sanityCheck (v\<lparr>v_addrRange := AddrRange (v_start v) slice_addr\<rparr>))"

definition sliceRegionLeft :: "addr \<Rightarrow> vma \<Rightarrow> vma res" where
  "sliceRegionLeft slice_addr v =
     bind_res
       (if hasHostBuf v
        then let overlap_len = slice_addr - v_start v
             in bind_res (read_len v) (\<lambda>l.
                  let v = (if overlap_len \<ge> l
                           then v\<lparr>v_hostBufLen := Some 0, v_hostBuf := Null_plus 0, v_origHostBuf := None\<rparr>
                           else v\<lparr>v_hostBufLen := Some (l - overlap_len)\<rparr>)
                  in bind_res (ptr_plus (v_hostBuf v) overlap_len) (\<lambda>p. Ok (v\<lparr>v_hostBuf := p\<rparr>)))
        else Ok v)
       (\<lambda>v. sanityCheck (v\<lparr>v_addrRange := AddrRange slice_addr (v_end v)\<rparr>))"

definition v_remap :: "addr \<Rightarrow> vma \<Rightarrow> vma res" where
  "v_remap new_start v =
     sanityCheck (v\<lparr>v_addrRange := AddrRange new_start (new_start + range_size (v_addrRange v))\<rparr>)"

text \<open>
  Reading \<open>n\<close> bytes of the host buffer, and \<open>fillMemPages\<close>, whose argument \<open>size\<close> the code ignores. The write
  through the port is the argument \<open>writeBlob\<close>.
\<close>

definition host_read :: "vma \<Rightarrow> addr \<Rightarrow> 64 word \<Rightarrow> 8 word list res" where
  "host_read v offset n =
     (case (v_origHostBuf v, v_hostBuf v) of
        (Some mf, Buf_plus p) \<Rightarrow>
          if unat (p + offset) + unat n \<le> length (mf_buffer mf)
          then Ok (take (unat n) (drop (unat (p + offset)) (mf_buffer mf)))
          else Err Undefined
      | _ \<Rightarrow> Err Undefined)"

definition fillMemPages ::
    "(addr \<Rightarrow> 8 word list \<Rightarrow> 's \<Rightarrow> 's run) \<Rightarrow> addr \<Rightarrow> addr \<Rightarrow> vma \<Rightarrow> 's \<Rightarrow> 's run" where
  "fillMemPages writeBlob st sz v s =
     (let offset = st - v_start v
      in bind_run (Some (read_len v)) (\<lambda>l.
           if offset < l
           then let sz = min (l - offset) (v_pageBytes v)
                in bind_run (Some (host_read v offset sz)) (\<lambda>bs. writeBlob st bs s)
           else Done s))"

section \<open>Well-formed areas and their contents\<close>

text \<open>
  An area is well formed when it passes its own sanity check, its range is not interleaved, and its part of the
  host buffer lies inside the buffer.
\<close>

definition page_aligned :: "addr \<Rightarrow> addr \<Rightarrow> bool" where
  "page_aligned pb a \<longleftrightarrow> a mod pb = 0"

definition vma_wf :: "vma \<Rightarrow> bool" where
  "vma_wf v \<longleftrightarrow> v_addrRange v = AddrRange (v_start v) (v_end v) \<and> v_start v < v_end v \<and> v_pageBytes v \<noteq> 0 \<and>
     page_aligned (v_pageBytes v) (v_start v) \<and> page_aligned (v_pageBytes v) (v_end v) \<and>
     (case v_origHostBuf v of
        None \<Rightarrow> True
      | Some mf \<Rightarrow> (\<exists>p l. v_hostBuf v = Buf_plus p \<and> v_hostBufLen v = Some l \<and> l \<le> v_end v - v_start v \<and>
            unat p + unat l \<le> length (mf_buffer mf)) \<and> length (mf_buffer mf) < 2 ^ 64)"

definition vma_set :: "vma \<Rightarrow> addr set" where
  "vma_set v = {v_start v..<v_end v}"

text \<open>The byte of the file at an address of the area, if the file reaches that far.\<close>

definition file_byte :: "vma \<Rightarrow> addr \<Rightarrow> 8 word option" where
  "file_byte v a =
     (case (v_origHostBuf v, v_hostBuf v, v_hostBufLen v) of
        (Some mf, Buf_plus p, Some l) \<Rightarrow>
          if a - v_start v < l then Some (mf_buffer mf ! (unat p + unat (a - v_start v))) else None
      | _ \<Rightarrow> None)"

text \<open>
  \<open>cut a b v v'\<close>: the area \<open>v'\<close> is what is left of \<open>v\<close> between \<open>a\<close> and \<open>b\<close>, with the same bytes of the file.
\<close>

definition cut :: "addr \<Rightarrow> addr \<Rightarrow> vma \<Rightarrow> vma \<Rightarrow> bool" where
  "cut a b v v' \<longleftrightarrow> vma_wf v' \<and> v_start v' = a \<and> v_end v' = b \<and> v_pageBytes v' = v_pageBytes v \<and>
     v_vmaName v' = v_vmaName v \<and> (\<forall>x. a \<le> x \<and> x < b \<longrightarrow> file_byte v' x = file_byte v x)"

text \<open>\<open>moved a v v'\<close>: the area \<open>v'\<close> is \<open>v\<close> moved to start at \<open>a\<close>, with its bytes of the file.\<close>

definition moved :: "addr \<Rightarrow> vma \<Rightarrow> vma \<Rightarrow> bool" where
  "moved a v v' \<longleftrightarrow> vma_wf v' \<and> v_start v' = a \<and> v_end v' = a + (v_end v - v_start v) \<and>
     v_pageBytes v' = v_pageBytes v \<and> v_vmaName v' = v_vmaName v \<and>
     (\<forall>x. file_byte v' (a + (x - v_start v)) = file_byte v x)"

text \<open>
  The law of \<open>mmap\<close>: a mapping that succeeds holds the bytes asked for. The contents of the file are \<open>file fd\<close>.
\<close>

definition host_ok :: "host \<Rightarrow> (int \<Rightarrow> 8 word list) \<Rightarrow> bool" where
  "host_ok h file \<longleftrightarrow> (\<forall>fd len off buf. host_mmap h fd len off = Some buf \<longrightarrow>
     buf = take (unat len) (drop (nat off) (file fd)) \<and> length buf = unat len)"

section \<open>Tests on areas\<close>

lemma vma_wf_range: "vma_wf v \<Longrightarrow> v_addrRange v = AddrRange (v_start v) (v_end v)"
  by (simp add: vma_wf_def)

lemma v_contains_wf: "vma_wf v \<Longrightarrow> v_contains v a \<longleftrightarrow> a \<in> vma_set v"
  using range_contains_plain [of "AddrRange (v_start v) (v_end v)" a] vma_wf_range [of v]
  by (simp add: v_contains_def vma_set_def AddrRange_def interleaved_def)

lemma v_intersects_wf: "vma_wf v \<Longrightarrow> v_intersects v (AddrRange s e) = Ok (v_start v < e \<and> s < v_end v)"
  using vma_wf_range [of v] unfolding v_intersects_def
  by (auto simp: range_intersects_def AddrRange_def interleaved_def)

lemma v_isSubset_wf: "vma_wf v \<Longrightarrow> v_isSubset v (AddrRange s e) = Ok (s \<le> v_start v \<and> v_end v \<le> e)"
  using vma_wf_range [of v] unfolding v_isSubset_def
  by (auto simp: range_isSubset_def AddrRange_def interleaved_def)

lemma sanityCheck_Ok:
  "sanityCheck v = Ok v' \<longleftrightarrow> v' = v \<and> v_start v < v_end v \<and> v_pageBytes v \<noteq> 0 \<and>
     page_aligned (v_pageBytes v) (v_start v) \<and> page_aligned (v_pageBytes v) (v_end v)"
  unfolding sanityCheck_def assert_that_eq_Ok page_aligned_def [symmetric] by (auto simp: assert_that_eq_Ok)

lemma sel_range [simp]:
  "v_start (v\<lparr>v_addrRange := AddrRange a b\<rparr>) = a" "v_end (v\<lparr>v_addrRange := AddrRange a b\<rparr>) = b"
  by (simp_all add: v_start_def v_end_def AddrRange_def)

lemma sel_host [simp]:
  "v_start (v\<lparr>v_hostBufLen := l\<rparr>) = v_start v" "v_end (v\<lparr>v_hostBufLen := l\<rparr>) = v_end v"
  "v_start (v\<lparr>v_hostBuf := p\<rparr>) = v_start v" "v_end (v\<lparr>v_hostBuf := p\<rparr>) = v_end v"
  "v_start (v\<lparr>v_origHostBuf := h\<rparr>) = v_start v" "v_end (v\<lparr>v_origHostBuf := h\<rparr>) = v_end v"
  by (simp_all add: v_start_def v_end_def)

section \<open>Slicing and moving\<close>

lemma word_diff_less: "s \<le> x \<Longrightarrow> x < a \<Longrightarrow> x - s < (a - s :: addr)"
  by (simp add: word_less_nat_alt word_le_nat_alt unat_sub_if')

lemma sliceRegionRight_cut:
  assumes "vma_wf v" "v_start v < a" "a \<le> v_end v" "page_aligned (v_pageBytes v) a"
  shows "\<exists>v'. sliceRegionRight a v = Ok v' \<and> cut (v_start v) a v v'"
proof (cases "v_origHostBuf v")
  case None
  then show ?thesis using assms
    by (auto simp: sliceRegionRight_def hasHostBuf_def sanityCheck_Ok cut_def vma_wf_def file_byte_def)
next
  case (Some mf)
  then obtain p l where pl: "v_hostBuf v = Buf_plus p" "v_hostBufLen v = Some l" "l \<le> v_end v - v_start v"
    "unat p + unat l \<le> length (mf_buffer mf)" "length (mf_buffer mf) < 2 ^ 64"
    using assms(1) by (auto simp: vma_wf_def)
  define v' where "v' = v\<lparr>v_hostBufLen := Some (min l (a - v_start v)), v_addrRange := AddrRange (v_start v) a\<rparr>"
  have "unat (min l (a - v_start v)) \<le> unat l" by (simp add: word_le_nat_alt [symmetric])
  then have wf: "vma_wf v'"
    using assms Some pl by (simp add: vma_wf_def v'_def)
  have "file_byte v' x = file_byte v x" if "v_start v \<le> x" "x < a" for x
    using Some pl word_diff_less [OF that] by (simp add: file_byte_def v'_def min_less_iff_conj)
  moreover have "sliceRegionRight a v = Ok v'"
    using assms Some pl wf
    by (simp add: sliceRegionRight_def hasHostBuf_def read_len_def sanityCheck_Ok vma_wf_def v'_def)
  ultimately show ?thesis using wf by (auto simp: cut_def v'_def)
qed

lemma sliceRegionLeft_cut:
  assumes "vma_wf v" "v_start v \<le> a" "a < v_end v" "page_aligned (v_pageBytes v) a"
  shows "\<exists>v'. sliceRegionLeft a v = Ok v' \<and> cut a (v_end v) v v'"
proof (cases "v_origHostBuf v")
  case None
  then show ?thesis using assms
    by (auto simp: sliceRegionLeft_def hasHostBuf_def sanityCheck_Ok cut_def vma_wf_def file_byte_def)
next
  case (Some mf)
  then obtain p l where pl: "v_hostBuf v = Buf_plus p" "v_hostBufLen v = Some l" "l \<le> v_end v - v_start v"
    "unat p + unat l \<le> length (mf_buffer mf)" "length (mf_buffer mf) < 2 ^ 64"
    using assms(1) by (auto simp: vma_wf_def)
  define d where "d = a - v_start v"
  have shift: "x - v_start v = (x - a) + d" for x by (simp add: d_def)
  show ?thesis
  proof (cases "d \<ge> l")
    case True
    have "file_byte v x = None" if "a \<le> x" "x < v_end v" for x
    proof -
      have "d \<le> x - v_start v"
        using assms(2) that(1) by (simp add: d_def word_le_nat_alt unat_sub_if')
      then show ?thesis using True pl Some by (simp add: file_byte_def)
    qed
    then show ?thesis using assms Some pl True
      by (auto simp: sliceRegionLeft_def hasHostBuf_def read_len_def sanityCheck_Ok cut_def vma_wf_def
          file_byte_def d_def Let_def)
  next
    case False
    define v' where "v' = v\<lparr>v_hostBufLen := Some (l - d), v_hostBuf := Buf_plus (p + d), v_addrRange := AddrRange a (v_end v)\<rparr>"
    have less: "d < l" using False by simp
    have upd: "unat (p + d) = unat p + unat d" "unat (l - d) = unat l - unat d" "unat d < unat l"
      using less pl(4,5) by (simp_all add: word_less_nat_alt unat_word_ariths unat_sub_if')
    have room: "unat (p + d) + unat (l - d) \<le> length (mf_buffer mf)" using upd pl(4) by simp
    have "l - d \<le> v_end v - v_start v - d"
      using pl(3) less by (simp add: word_le_nat_alt word_less_nat_alt unat_sub_if')
    then have "l - d \<le> v_end v - a" by (simp add: d_def)
    then have wf: "vma_wf v'" using assms Some room pl(5) by (simp add: vma_wf_def v'_def)
    have bytes: "file_byte v' x = file_byte v x" if "a \<le> x" "x < v_end v" for x
    proof -
      have "unat (x - v_start v) = unat (x - a) + unat d"
        using assms(2) that(1) by (simp add: d_def word_le_nat_alt unat_sub_if')
      then show ?thesis
        using upd pl Some by (simp add: file_byte_def v'_def word_less_nat_alt less_diff_conv ac_simps)
    qed
    have "sliceRegionLeft a v = Ok v'"
      using assms Some pl wf less
      by (simp add: sliceRegionLeft_def hasHostBuf_def read_len_def sanityCheck_Ok vma_wf_def v'_def Let_def
          d_def [symmetric])
    then show ?thesis using wf bytes by (auto simp: cut_def v'_def)
  qed
qed

lemma v_remap_moved:
  assumes "vma_wf v" "page_aligned (v_pageBytes v) a" "a < a + (v_end v - v_start v)" "page_aligned (v_pageBytes v) (a + (v_end v - v_start v))"
  shows "\<exists>v'. v_remap a v = Ok v' \<and> moved a v v'"
proof -
  have sz: "range_size (v_addrRange v) = v_end v - v_start v"
    by (subst vma_wf_range [OF assms(1)]) (simp add: range_size_def AddrRange_def)
  define v' where "v' = v\<lparr>v_addrRange := AddrRange a (a + (v_end v - v_start v))\<rparr>"
  have "vma_wf v'" using assms by (auto simp: vma_wf_def v'_def split: option.splits)
  moreover have "v_remap a v = Ok v'"
    unfolding v_remap_def sz sanityCheck_Ok v'_def using assms by (simp add: vma_wf_def)
  moreover have "file_byte v' (a + (x - v_start v)) = file_byte v x" for x
    by (simp add: file_byte_def v'_def split: option.splits host_ptr.splits)
  ultimately show ?thesis by (auto simp: moved_def v'_def)
qed

section \<open>Creating and filling areas\<close>

lemma VMA_anon:
  assumes "VMA h (AddrRange s e) pb name (- 1) off = Ok v"
  shows "vma_wf v \<and> v_start v = s \<and> v_end v = e \<and> v_pageBytes v = pb \<and> v_vmaName v = name \<and>
    \<not> hasHostBuf v \<and> (\<forall>x. file_byte v x = None)"
  using assms
  by (auto simp: VMA_def sanityCheck_Ok v_start_def v_end_def AddrRange_def vma_wf_def hasHostBuf_def file_byte_def)

lemma VMA_file:
  assumes "VMA h (AddrRange s e) pb name fd off = Ok v" "fd \<noteq> - 1" "host_ok h file"
  shows "vma_wf v \<and> v_start v = s \<and> v_end v = e \<and> v_pageBytes v = pb \<and> v_vmaName v = name \<and>
    (\<forall>x b. file_byte v x = Some b \<longrightarrow> b = file fd ! (nat off + unat (x - s)))"
proof -
  obtain mf where mf: "MappedFileBuffer h fd (e - s) off = Ok mf"
    and v: "v = \<lparr>v_addrRange = AddrRange s e, v_pageBytes = pb, v_origHostBuf = Some mf, v_hostBuf = Buf_plus 0,
              v_hostBufLen = Some (mf_length mf), v_vmaName = name\<rparr>"
    and ok: "s < e" "pb \<noteq> 0" "page_aligned pb s" "page_aligned pb e"
    using assms(1,2) by (auto simp: VMA_def bind_res_eq_Ok sanityCheck_Ok v_start_def v_end_def AddrRange_def range_size_def)
  from mf have m: "mf_length mf \<le> e - s" "host_mmap h fd (mf_length mf) off = Some (mf_buffer mf)"
    by (auto simp: MappedFileBuffer_def Let_def split: if_splits option.splits)
  then have buf: "mf_buffer mf = take (unat (mf_length mf)) (drop (nat off) (file fd))" "length (mf_buffer mf) = unat (mf_length mf)"
    using assms(3) by (auto simp: host_ok_def)
  have "length (mf_buffer mf) < 2 ^ 64" unfolding buf(2) using unsigned_less [of "mf_length mf"] by simp
  moreover have "mf_buffer mf ! n = file fd ! (nat off + n)" if "n < unat (mf_length mf)" for n
  proof -
    have "nat off + n \<le> length (file fd)" using that buf by (metis length_take length_drop min.strict_coboundedI2 less_diff_conv add.commute less_imp_le min_less_iff_conj)
    then show ?thesis using that by (subst buf(1)) (simp add: nth_drop)
  qed
  ultimately show ?thesis
    using m(1) buf ok unfolding v
    by (auto simp: vma_wf_def v_start_def v_end_def AddrRange_def file_byte_def word_less_nat_alt split: if_splits)
qed

text \<open>
  Filling a page writes the bytes of the file that belong to it, from the start of the page, and nothing where the file
  has ended.
\<close>

lemma fillMemPages_bytes:
  assumes "vma_wf v" "hasHostBuf v" "st \<in> vma_set v"
  shows "\<exists>bs. fillMemPages wr st sz v s = (if bs = [] then Done s else wr st bs s) \<and> length bs \<le> unat (v_pageBytes v) \<and>
    (\<forall>i < unat (v_pageBytes v). unat st + i < 2 ^ 64 \<longrightarrow>
       file_byte v (st + of_nat i) = (if i < length bs then Some (bs ! i) else None))"
proof -
  obtain mf p l where pl: "v_origHostBuf v = Some mf" "v_hostBuf v = Buf_plus p" "v_hostBufLen v = Some l"
    "l \<le> v_end v - v_start v" "unat p + unat l \<le> length (mf_buffer mf)" "length (mf_buffer mf) < 2 ^ 64"
    using assms(1,2) by (auto simp: vma_wf_def hasHostBuf_def)
  define d where "d = st - v_start v"
  have le: "v_start v \<le> st" using assms(3) by (simp add: vma_set_def)
  have d: "unat (st + of_nat i - v_start v) = unat d + i" if "unat st + i < 2 ^ 64" for i
  proof -
    have "unat (st + of_nat i) = unat st + i" using that by (simp add: unat_word_ariths unat_of_nat_small)
    then show ?thesis using le by (simp add: d_def word_le_nat_alt unat_sub_if')
  qed
  have fb: "file_byte v (st + of_nat i) = (if unat d + i < unat l then Some (mf_buffer mf ! (unat p + (unat d + i))) else None)"
    if "unat st + i < 2 ^ 64" for i
    using d [OF that] pl by (simp add: file_byte_def word_less_nat_alt)
  have fill: "fillMemPages wr st sz v s =
      (if d < l then bind_run (Some (host_read v d (min (l - d) (v_pageBytes v)))) (\<lambda>bs. wr st bs s) else Done s)"
    using pl by (simp add: fillMemPages_def read_len_def d_def Let_def)
  show ?thesis
  proof (cases "d < l")
    case False
    then show ?thesis using fb fill by (intro exI [of _ "[]"]) (auto simp: word_less_nat_alt)
  next
    case True
    define n where "n = unat (min (l - d) (v_pageBytes v))"
    have u: "unat d < unat l" "unat (p + d) = unat p + unat d" "n = min (unat l - unat d) (unat (v_pageBytes v))"
      using True pl(5,6)
      by (simp_all add: n_def word_less_nat_alt unat_word_ariths unat_sub_if' min_def word_le_nat_alt)
    define bs where "bs = take n (drop (unat (p + d)) (mf_buffer mf))"
    have len: "length bs = n" using u pl(5) by (simp add: bs_def)
    have "host_read v d (min (l - d) (v_pageBytes v)) = Ok bs"
      using u pl unfolding host_read_def bs_def by (simp add: n_def [symmetric])
    moreover have "n \<noteq> 0" using u assms(1) unat_gt_0 [of "v_pageBytes v"] by (simp add: vma_wf_def)
    moreover have "bs ! i = mf_buffer mf ! (unat p + (unat d + i))" if "i < n" for i
      using that u(2,3) pl(5) u(1) by (simp add: bs_def add.assoc)
    ultimately show ?thesis
      using fill True fb len u by (intro exI [of _ bs]) auto
  qed
qed

end
