(* ===== verification/Page_Table.thy ===== *)
theory Page_Table
  imports IntMath
begin

text \<open>
  The emulated page table, \<open>src/mem/page_table.cc\<close> and \<open>page_table.hh\<close>: a map from page addresses
  to physical addresses and flags. The \<open>unordered_map\<close> is a partial function; where its iteration
  order shows (\<open>getMappings\<close>, \<open>serialize\<close>) the order is an argument.

  The lemmas give every operation its effect on the translation of every virtual address, first
  page by page and then for the interface that processes use.
\<close>

unbundle bit_operations_syntax

section \<open>Definitions\<close>

record pt_entry =
  pte_paddr :: addr
  pte_flags :: "64 word"

record page_table =
  pTable :: "addr \<rightharpoonup> pt_entry"
  pageSize :: addr
  offsetMask :: addr

definition Clobber :: "64 word" where "Clobber = 1"
definition Uncacheable :: "64 word" where "Uncacheable = 4"
definition ReadOnly :: "64 word" where "ReadOnly = 8"

definition EmulationPageTable :: "addr \<Rightarrow> page_table res" where
  "EmulationPageTable psize =
     bind_res (floorLog2 8 psize) (\<lambda>l.
       assert_that (isPowerOf2 psize)
         (Ok \<lparr>pTable = Map.empty, pageSize = psize, offsetMask = mask_n l\<rparr>))"

definition pageAlign :: "page_table \<Rightarrow> addr \<Rightarrow> addr" where
  "pageAlign pt a = a AND NOT (offsetMask pt)"

definition pageOffset :: "page_table \<Rightarrow> addr \<Rightarrow> addr" where
  "pageOffset pt a = a AND offsetMask pt"

text \<open>
  The loops of this class all have the form \<open>while (size > 0) { ...; size -= pageSize; }\<close>. A page
  size of zero, which the constructor rules out, would never end.
\<close>

function page_loop :: "addr \<Rightarrow> int \<Rightarrow> ('s \<Rightarrow> 's res) \<Rightarrow> 's \<Rightarrow> 's res" where
  "page_loop ps sz step s =
     (if sz \<le> 0 then Ok s
      else if ps = 0 then Err Undefined
      else bind_res (step s) (\<lambda>s. page_loop ps (sz - uint ps) step s))"
  by pat_completeness auto

termination page_loop
proof (relation "measure (\<lambda>(ps, sz, _). nat sz)")
  fix ps :: addr and sz :: int and step :: "'s \<Rightarrow> 's res" and s x :: 's
  assume "\<not> sz \<le> 0" "ps \<noteq> 0"
  then have "0 < uint ps" by (metis unsigned_0 uint_0_iff unsigned_greater_eq less_le)
  then show "((ps, sz - uint ps, step, x), ps, sz, step, s) \<in> measure (\<lambda>(ps, sz, _). nat sz)"
    using \<open>\<not> sz \<le> 0\<close> by simp
qed simp

declare page_loop.simps [simp del]

definition map_step ::
    "addr \<Rightarrow> 64 word \<Rightarrow> addr \<times> addr \<times> (addr \<rightharpoonup> pt_entry) \<Rightarrow> (addr \<times> addr \<times> (addr \<rightharpoonup> pt_entry)) res" where
  "map_step ps flags = (\<lambda>(vaddr, paddr, t).
     let clobber = flags AND Clobber \<noteq> 0 in
     if t vaddr \<noteq> None \<and> \<not> clobber then Err Panic
     else Ok (vaddr + ps, paddr + ps, t(vaddr \<mapsto> \<lparr>pte_paddr = paddr, pte_flags = flags\<rparr>)))"

definition pt_map :: "page_table \<Rightarrow> addr \<Rightarrow> addr \<Rightarrow> int \<Rightarrow> 64 word \<Rightarrow> page_table res" where
  "pt_map pt vaddr paddr sz flags =
     assert_that (pageOffset pt vaddr = 0)
       (bind_res (page_loop (pageSize pt) sz (map_step (pageSize pt) flags) (vaddr, paddr, pTable pt))
         (\<lambda>(_, _, t). Ok (pt\<lparr>pTable := t\<rparr>)))"

definition remap_step ::
    "addr \<Rightarrow> addr \<times> addr \<times> (addr \<rightharpoonup> pt_entry) \<Rightarrow> (addr \<times> addr \<times> (addr \<rightharpoonup> pt_entry)) res" where
  "remap_step ps = (\<lambda>(vaddr, new_vaddr, t).
     case t vaddr of
       None \<Rightarrow> Err Assert_Failed
     | Some e \<Rightarrow> assert_that (t new_vaddr = None)
         (Ok (vaddr + ps, new_vaddr + ps, (t(new_vaddr \<mapsto> e))(vaddr := None))))"

definition pt_remap :: "page_table \<Rightarrow> addr \<Rightarrow> int \<Rightarrow> addr \<Rightarrow> page_table res" where
  "pt_remap pt vaddr sz new_vaddr =
     assert_that (pageOffset pt vaddr = 0)
       (assert_that (pageOffset pt new_vaddr = 0)
         (bind_res (page_loop (pageSize pt) sz (remap_step (pageSize pt)) (vaddr, new_vaddr, pTable pt))
           (\<lambda>(_, _, t). Ok (pt\<lparr>pTable := t\<rparr>))))"

definition unmap_step ::
    "addr \<Rightarrow> addr \<times> (addr \<rightharpoonup> pt_entry) \<Rightarrow> (addr \<times> (addr \<rightharpoonup> pt_entry)) res" where
  "unmap_step ps = (\<lambda>(vaddr, t).
     assert_that (t vaddr \<noteq> None) (Ok (vaddr + ps, t(vaddr := None))))"

definition pt_unmap :: "page_table \<Rightarrow> addr \<Rightarrow> int \<Rightarrow> page_table res" where
  "pt_unmap pt vaddr sz =
     assert_that (pageOffset pt vaddr = 0)
       (bind_res (page_loop (pageSize pt) sz (unmap_step (pageSize pt)) (vaddr, pTable pt))
         (\<lambda>(_, t). Ok (pt\<lparr>pTable := t\<rparr>)))"

text \<open>The loop of \<open>isUnmapped\<close> counts an offset up to the size; the flag is its early return.\<close>

definition unmapped_step ::
    "addr \<Rightarrow> (addr \<rightharpoonup> pt_entry) \<Rightarrow> addr \<times> bool \<Rightarrow> (addr \<times> bool) res" where
  "unmapped_step ps t = (\<lambda>(a, ok). Ok (a + ps, ok \<and> t a = None))"

definition pt_isUnmapped :: "page_table \<Rightarrow> addr \<Rightarrow> int \<Rightarrow> bool res" where
  "pt_isUnmapped pt vaddr sz =
     assert_that (pageOffset pt vaddr = 0)
       (bind_res (page_loop (pageSize pt) sz (unmapped_step (pageSize pt) (pTable pt)) (vaddr, True))
         (\<lambda>(_, ok). Ok ok))"

definition pt_lookup :: "page_table \<Rightarrow> addr \<Rightarrow> pt_entry option" where
  "pt_lookup pt vaddr = pTable pt (pageAlign pt vaddr)"

definition pt_translate :: "page_table \<Rightarrow> addr \<Rightarrow> addr option" where
  "pt_translate pt vaddr =
     (case pt_lookup pt vaddr of
        None \<Rightarrow> None
      | Some e \<Rightarrow> Some (pageOffset pt vaddr + pte_paddr e))"

text \<open>
  Translation of a request of \<open>sz\<close> bytes (\<open>unsigned\<close>): the physical address, or a page table
  fault as \<open>None\<close>.
\<close>

definition pt_translate_req :: "page_table \<Rightarrow> addr \<Rightarrow> 32 word \<Rightarrow> addr option res" where
  "pt_translate_req pt vaddr sz =
     assert_that (pageAlign pt (vaddr + ucast sz - 1) = pageAlign pt vaddr)
       (case pt_translate pt vaddr of
          None \<Rightarrow> Ok None
        | Some paddr \<Rightarrow>
            if (paddr AND (pageSize pt - 1)) + ucast sz > pageSize pt then Err Panic
            else Ok (Some paddr))"

definition pt_getMappings :: "page_table \<Rightarrow> addr list \<Rightarrow> (addr \<times> addr) list" where
  "pt_getMappings pt order = map (\<lambda>v. (v, pte_paddr (the (pTable pt v)))) order"

record pt_checkpoint =
  ptc_size :: nat
  ptc_entries :: "(addr \<times> addr \<times> 64 word) list"

definition pt_serialize :: "page_table \<Rightarrow> addr list \<Rightarrow> pt_checkpoint res" where
  "pt_serialize pt order =
     (let es = map (\<lambda>v. (v, pte_paddr (the (pTable pt v)), pte_flags (the (pTable pt v)))) order
      in assert_that (length es = card (dom (pTable pt)))
           (Ok \<lparr>ptc_size = card (dom (pTable pt)), ptc_entries = es\<rparr>))"

text \<open>
  \<open>emplace\<close> keeps an entry that is already there; a size that is no \<open>int\<close> or a missing section is
  fatal.
\<close>

definition pt_emplace :: "addr \<Rightarrow> pt_entry \<Rightarrow> (addr \<rightharpoonup> pt_entry) \<Rightarrow> (addr \<rightharpoonup> pt_entry)" where
  "pt_emplace v e t = (if t v = None then t(v \<mapsto> e) else t)"

definition pt_unserialize :: "page_table \<Rightarrow> pt_checkpoint \<Rightarrow> page_table res" where
  "pt_unserialize pt cp =
     (if ptc_size cp \<ge> 2 ^ 31 \<or> ptc_size cp > length (ptc_entries cp) then Err Fatal
      else Ok (pt\<lparr>pTable := fold (\<lambda>(v, p, f). pt_emplace v \<lparr>pte_paddr = p, pte_flags = f\<rparr>)
             (take (ptc_size cp) (ptc_entries cp)) (pTable pt)\<rparr>))"

text \<open>An iteration order of the map: every page once.\<close>

definition iter_order :: "page_table \<Rightarrow> addr list \<Rightarrow> bool" where
  "iter_order pt order \<longleftrightarrow> distinct order \<and> set order = dom (pTable pt)"

section \<open>Pages\<close>

definition pt_ok :: "nat \<Rightarrow> page_table \<Rightarrow> bool" where
  "pt_ok k pt \<longleftrightarrow> k < 63 \<and> pageSize pt = 2 ^ k \<and> offsetMask pt = mask k"

definition npages :: "nat \<Rightarrow> int \<Rightarrow> nat" where
  "npages k sz = nat ((sz + 2 ^ k - 1) div 2 ^ k)"

definition page_range :: "nat \<Rightarrow> addr \<Rightarrow> nat \<Rightarrow> addr set" where
  "page_range k v n = (\<lambda>i. v + of_nat i * 2 ^ k) ` {..<n}"

fun iter_res :: "nat \<Rightarrow> ('s \<Rightarrow> 's res) \<Rightarrow> 's \<Rightarrow> 's res" where
  "iter_res 0 step s = Ok s"
| "iter_res (Suc n) step s = bind_res (step s) (iter_res n step)"

definition page_span :: "nat \<Rightarrow> addr \<Rightarrow> nat \<Rightarrow> addr set" where
  "page_span k v n = {x. unat (x - v) < n * 2 ^ k}"

definition pspan :: "nat \<Rightarrow> addr \<Rightarrow> int \<Rightarrow> addr set" where
  "pspan k v sz = page_span k v (npages k sz)"

text \<open>An empty table with pages of 4 KiB.\<close>

definition pt4k :: page_table where
  "pt4k = \<lparr>pTable = Map.empty, pageSize = 4096, offsetMask = mask 12\<rparr>"

definition pt_one :: page_table where
  "pt_one = pt4k\<lparr>pTable := [0 \<mapsto> \<lparr>pte_paddr = 0x5000, pte_flags = 0\<rparr>]\<rparr>"

section \<open>Loops over pages\<close>

lemma npages_step:
  assumes "0 < sz"
  shows "npages k sz = Suc (npages k (sz - 2 ^ k))"
proof -
  have l: "sz + 2 ^ k - 1 = sz - 1 + 2 ^ k" and r: "sz - 2 ^ k + 2 ^ k - 1 = sz - 1" by simp_all
  have "(sz - 1 + 2 ^ k) div 2 ^ k = (sz - 1) div 2 ^ k + 1" by (simp add: div_add_self2)
  moreover have "0 \<le> (sz - 1) div 2 ^ k" using assms by (simp add: pos_imp_zdiv_nonneg_iff)
  ultimately show ?thesis unfolding npages_def l r by simp
qed

lemma npages_0: "sz \<le> 0 \<Longrightarrow> npages k sz = 0"
proof -
  assume "sz \<le> 0"
  then have "(sz + 2 ^ k - 1) div 2 ^ k \<le> (2 ^ k - 1) div 2 ^ k" by (intro zdiv_mono1) simp_all
  also have "\<dots> = 0" by simp
  finally show ?thesis by (simp add: npages_def)
qed

lemma uint_page_size: "k < 64 \<Longrightarrow> uint ((2 :: addr) ^ k) = 2 ^ k"
  using unat_exp_lower [of k, where 'a = 64] by (simp add: uint_nat)

lemma page_loop_iter:
  assumes "k < 64"
  shows "page_loop (2 ^ k) sz step s = iter_res (npages k sz) step s"
proof (induction "nat sz" arbitrary: sz s rule: less_induct)
  case less
  have ps: "(2 :: addr) ^ k \<noteq> 0" "uint ((2 :: addr) ^ k) = 2 ^ k"
    using uint_page_size [OF assms] assms by auto
  show ?case
  proof (cases "0 < sz")
    case True
    have IH: "page_loop (2 ^ k) (sz - 2 ^ k) step x = iter_res (npages k (sz - 2 ^ k)) step x" for x
      using True by (intro less) simp
    then have "page_loop (2 ^ k) (sz - 2 ^ k) step = iter_res (npages k (sz - 2 ^ k)) step" by (rule ext)
    then show ?thesis using True ps by (subst page_loop.simps) (simp add: npages_step [of sz])
  next
    case False
    then show ?thesis by (subst page_loop.simps) (simp add: npages_0)
  qed
qed

lemma page_range_0 [simp]: "page_range k v 0 = {}"
  by (simp add: page_range_def)

lemma page_range_Suc: "page_range k v (Suc n) = insert v (page_range k (v + 2 ^ k) n)"
proof -
  have "{..<Suc n} = insert 0 (Suc ` {..<n})" by (rule lessThan_Suc_eq_insert_0)
  then show ?thesis by (simp add: page_range_def image_image algebra_simps)
qed

lemma in_page_range:
  "x \<in> page_range k v n \<longleftrightarrow> (\<exists>i<n. x - v = of_nat i * 2 ^ k)"
  by (auto simp: page_range_def algebra_simps)

lemma unat_mult_page:
  assumes "i * 2 ^ k < 2 ^ 64"
  shows "unat (of_nat i * 2 ^ k :: addr) = i * 2 ^ k"
proof -
  have "of_nat i * 2 ^ k = (of_nat (i * 2 ^ k) :: addr)" by simp
  moreover have "unat (of_nat (i * 2 ^ k) :: addr) = i * 2 ^ k"
    using assms by (intro unat_of_nat_small) simp
  ultimately show ?thesis by (simp only:)
qed

lemma page_range_fresh:
  assumes "Suc n * 2 ^ k \<le> 2 ^ 64"
  shows "v \<notin> page_range k (v + 2 ^ k) n"
proof
  assume "v \<in> page_range k (v + 2 ^ k) n"
  then obtain i where i: "i < n" "v - (v + 2 ^ k) = of_nat i * 2 ^ k" unfolding in_page_range by blast
  then have "of_nat (Suc i) * 2 ^ k = (0 :: addr)"
    by (simp add: distrib_right) (metis add.right_inverse)
  moreover have lt: "Suc i * 2 ^ k < 2 ^ 64"
  proof -
    have "Suc i * 2 ^ k < Suc n * (2 :: nat) ^ k" using i(1) by simp
    then show ?thesis using assms by (rule less_le_trans)
  qed
  ultimately show False using unat_mult_page [OF lt] by simp
qed

section \<open>The operations page by page\<close>

lemma iter_map:
  assumes "flags AND Clobber \<noteq> 0 \<or> (Suc n * 2 ^ k \<le> 2 ^ 64 \<and> page_range k v n \<inter> dom t = {})"
  shows "iter_res n (map_step (2 ^ k) flags) (v, p, t) =
    Ok (v + of_nat n * 2 ^ k, p + of_nat n * 2 ^ k,
        \<lambda>x. if x \<in> page_range k v n then Some \<lparr>pte_paddr = p + (x - v), pte_flags = flags\<rparr> else t x)"
  using assms
proof (induction n arbitrary: v p t)
  case (Suc n)
  let ?e = "\<lparr>pte_paddr = p, pte_flags = flags\<rparr>"
  have step: "map_step (2 ^ k) flags (v, p, t) = Ok (v + 2 ^ k, p + 2 ^ k, t(v \<mapsto> ?e))"
    using Suc.prems by (auto simp: map_step_def page_range_Suc)
  have "flags AND Clobber \<noteq> 0 \<or> (Suc n * 2 ^ k \<le> 2 ^ 64 \<and> page_range k (v + 2 ^ k) n \<inter> dom (t(v \<mapsto> ?e)) = {})"
  proof (cases "flags AND Clobber \<noteq> 0")
    case False
    then have b: "Suc (Suc n) * 2 ^ k \<le> (2 :: nat) ^ 64" and d: "page_range k v (Suc n) \<inter> dom t = {}"
      using Suc.prems by auto
    have b': "Suc n * 2 ^ k \<le> (2 :: nat) ^ 64" using b by (rule order_trans [rotated]) simp
    show ?thesis using d page_range_fresh [OF b', of v] b' by (auto simp: page_range_Suc)
  qed simp
  note IH = Suc.IH [OF this]
  have "(\<lambda>x. if x \<in> page_range k (v + 2 ^ k) n
        then Some \<lparr>pte_paddr = p + 2 ^ k + (x - (v + 2 ^ k)), pte_flags = flags\<rparr> else (t(v \<mapsto> ?e)) x) =
      (\<lambda>x. if x \<in> page_range k v (Suc n) then Some \<lparr>pte_paddr = p + (x - v), pte_flags = flags\<rparr> else t x)"
    by (auto simp: page_range_Suc fun_eq_iff)
  then show ?case by (simp add: step IH algebra_simps)
qed simp

lemma iter_map_panic:
  assumes "flags AND Clobber = 0" "page_range k v n \<inter> dom t \<noteq> {}"
  shows "iter_res n (map_step (2 ^ k) flags) (v, p, t) = Err Panic"
  using assms(2)
proof (induction n arbitrary: v p t)
  case (Suc n)
  show ?case
  proof (cases "t v")
    case None
    then have "page_range k (v + 2 ^ k) n \<inter> dom (t(v \<mapsto> \<lparr>pte_paddr = p, pte_flags = flags\<rparr>)) \<noteq> {}"
      using Suc.prems by (auto simp: page_range_Suc)
    note IH = Suc.IH [OF this]
    have "map_step (2 ^ k) flags (v, p, t) =
        Ok (v + 2 ^ k, p + 2 ^ k, t(v \<mapsto> \<lparr>pte_paddr = p, pte_flags = flags\<rparr>))"
      using None by (simp add: map_step_def)
    then show ?thesis by (simp only: iter_res.simps bind_res_Ok IH)
  qed (use assms(1) in \<open>simp add: map_step_def\<close>)
qed simp

lemma iter_unmap:
  assumes "Suc n * 2 ^ k \<le> 2 ^ 64" "page_range k v n \<subseteq> dom t"
  shows "iter_res n (unmap_step (2 ^ k)) (v, t) =
    Ok (v + of_nat n * 2 ^ k, \<lambda>x. if x \<in> page_range k v n then None else t x)"
  using assms
proof (induction n arbitrary: v t)
  case (Suc n)
  have b': "Suc n * 2 ^ k \<le> (2 :: nat) ^ 64" using Suc.prems(1) by (rule order_trans [rotated]) simp
  have "page_range k (v + 2 ^ k) n \<subseteq> dom (t(v := None))"
    using Suc.prems(2) page_range_fresh [OF b', of v] by (auto simp: page_range_Suc)
  note IH = Suc.IH [OF b' this]
  have "(\<lambda>x. if x \<in> page_range k (v + 2 ^ k) n then None else (t(v := None)) x) =
      (\<lambda>x. if x \<in> page_range k v (Suc n) then None else t x)"
    by (auto simp: page_range_Suc fun_eq_iff)
  moreover have "unmap_step (2 ^ k) (v, t) = Ok (v + 2 ^ k, t(v := None))"
    using Suc.prems(2) by (auto simp: unmap_step_def page_range_Suc)
  ultimately show ?case by (simp add: IH algebra_simps)
qed simp

lemma iter_unmap_dom:
  assumes "iter_res n (unmap_step (2 ^ k)) (v, t) = Ok x"
  shows "page_range k v n \<subseteq> dom t"
  using assms
proof (induction n arbitrary: v t)
  case (Suc n)
  then have "t v \<noteq> None" "iter_res n (unmap_step (2 ^ k)) (v + 2 ^ k, t(v := None)) = Ok x"
    by (auto simp: unmap_step_def res_simps)
  moreover from Suc.IH [OF this(2)] have "page_range k (v + 2 ^ k) n \<subseteq> dom t" by (auto split: if_split_asm)
  ultimately show ?case by (auto simp: page_range_Suc)
qed simp

lemma iter_unmapped:
  "iter_res n (unmapped_step (2 ^ k) t) (v, ok) =
     Ok (v + of_nat n * 2 ^ k, ok \<and> page_range k v n \<inter> dom t = {})"
proof (induction n arbitrary: v ok)
  case (Suc n)
  then show ?case by (auto simp: unmapped_step_def page_range_Suc algebra_simps)
qed simp

lemma page_range_shift: "x \<in> page_range k w n \<longleftrightarrow> v + (x - w) \<in> page_range k v n"
  by (simp add: in_page_range)

lemma iter_remap:
  assumes "Suc n * 2 ^ k \<le> 2 ^ 64" "page_range k v n \<subseteq> dom t" "page_range k w n \<inter> dom t = {}"
  shows "iter_res n (remap_step (2 ^ k)) (v, w, t) =
    Ok (v + of_nat n * 2 ^ k, w + of_nat n * 2 ^ k,
      \<lambda>x. if x \<in> page_range k w n then t (v + (x - w))
          else if x \<in> page_range k v n then None else t x)"
  using assms
proof (induction n arbitrary: v w t)
  case (Suc n)
  obtain e where e: "t v = Some e" using Suc.prems(2) by (auto simp: page_range_Suc)
  have w: "t w = None" using Suc.prems(3) by (auto simp: page_range_Suc)
  define t1 where "t1 = (t(w \<mapsto> e))(v := None)"
  have step: "remap_step (2 ^ k) (v, w, t) = Ok (v + 2 ^ k, w + 2 ^ k, t1)"
    using e w by (simp add: remap_step_def t1_def)
  have b: "Suc n * 2 ^ k \<le> (2 :: nat) ^ 64" using Suc.prems(1) by (rule order_trans [rotated]) simp
  have nv: "v \<notin> page_range k (v + 2 ^ k) n" and nw: "w \<notin> page_range k (w + 2 ^ k) n"
    using page_range_fresh [OF b] by auto
  have d1: "page_range k (v + 2 ^ k) n \<subseteq> dom t1"
    using Suc.prems(2) nv unfolding t1_def page_range_Suc by auto
  have d2: "page_range k (w + 2 ^ k) n \<inter> dom t1 = {}"
    using Suc.prems(3) nw unfolding t1_def page_range_Suc by auto
  have t1: "t1 y = t y" if "y \<noteq> v" "y \<noteq> w" for y using that by (simp add: t1_def)
  have eq: "(if x \<in> page_range k (w + 2 ^ k) n then t1 (v + 2 ^ k + (x - (w + 2 ^ k)))
          else if x \<in> page_range k (v + 2 ^ k) n then None else t1 x) =
      (if x \<in> page_range k w (Suc n) then t (v + (x - w))
          else if x \<in> page_range k v (Suc n) then None else t x)" for x
  proof (cases "x \<in> page_range k (w + 2 ^ k) n")
    case True
    have y: "v + 2 ^ k + (x - (w + 2 ^ k)) = v + (x - w)" by simp
    have "v + 2 ^ k + (x - (w + 2 ^ k)) \<in> page_range k (v + 2 ^ k) n" using True page_range_shift by blast
    then have m: "v + (x - w) \<in> page_range k (v + 2 ^ k) n" unfolding y .
    have ne_v: "v + (x - w) \<noteq> v" using m nv by metis
    have "v + (x - w) \<in> dom t" using m Suc.prems(2) unfolding page_range_Suc by blast
    then have "v + (x - w) \<noteq> w" using w by (metis domIff)
    then show ?thesis using True t1 [OF ne_v] unfolding y by (simp only: page_range_Suc insert_iff) simp
  next
    case F: False
    show ?thesis
    proof (cases "x = w")
      case True
      have "w \<notin> page_range k v (Suc n)" using Suc.prems(2) w by auto
      then have "w \<noteq> v" "w \<notin> page_range k (v + 2 ^ k) n" by (auto simp: page_range_Suc)
      then show ?thesis using True F e by (simp add: page_range_Suc t1_def)
    next
      case False
      then show ?thesis using F t1 by (auto simp: page_range_Suc t1_def)
    qed
  qed
  have "iter_res (Suc n) (remap_step (2 ^ k)) (v, w, t) =
      iter_res n (remap_step (2 ^ k)) (v + 2 ^ k, w + 2 ^ k, t1)"
    by (simp only: iter_res.simps step bind_res_Ok)
  then show ?case unfolding Suc.IH [OF b d1 d2] eq by (simp add: algebra_simps)
qed simp

section \<open>Addresses inside pages\<close>

lemma pageOffset_take_bit: "pt_ok k pt \<Longrightarrow> pageOffset pt a = take_bit k a"
  by (simp add: pageOffset_def pt_ok_def take_bit_eq_mask)

lemma pageAlign_minus: "pt_ok k pt \<Longrightarrow> pageAlign pt a = a - take_bit k a"
  by (simp add: pageAlign_def pt_ok_def and_not_mask_minus)

lemma page_bound:
  assumes "n * 2 ^ k \<le> (2 :: nat) ^ 64" "i < n"
  shows "i * 2 ^ k < (2 :: nat) ^ 64"
proof -
  have "i * 2 ^ k < n * (2 :: nat) ^ k" using assms(2) by simp
  then show ?thesis using assms(1) by (rule less_le_trans)
qed

text \<open>An address lies in one of the pages exactly when its distance from the start says so.\<close>

lemma pageAlign_in_range:
  assumes ok: "pt_ok k pt" and v: "pageOffset pt v = 0" and n: "n * 2 ^ k \<le> 2 ^ 64"
  shows "pageAlign pt x \<in> page_range k v n \<longleftrightarrow> x \<in> page_span k v n"
proof -
  have k: "k < 64" and tv: "take_bit k v = 0" using ok v pageOffset_take_bit [OF ok] by (auto simp: pt_ok_def)
  define d where "d = x - v"
  have "take_bit k x = take_bit k d" using take_bit_page_add [OF tv k, of d] by (simp add: d_def)
  then have al: "pageAlign pt x - v = of_nat (unat d div 2 ^ k) * 2 ^ k"
    unfolding pageAlign_minus [OF ok] page_of_mult [symmetric] by (simp add: d_def)
  have "pageAlign pt x \<in> page_range k v n \<longleftrightarrow> unat d div 2 ^ k < n"
  proof
    assume "pageAlign pt x \<in> page_range k v n"
    then obtain i where i: "i < n" "of_nat (unat d div 2 ^ k) * 2 ^ k = (of_nat i * 2 ^ k :: addr)"
      unfolding in_page_range al by blast
    have "unat d div 2 ^ k * 2 ^ k \<le> unat d" by simp
    also have "unat d < 2 ^ 64" using unsigned_less [of d] by simp
    finally have "unat d div 2 ^ k * 2 ^ k < 2 ^ 64" .
    from unat_mult_page [OF this] unat_mult_page [OF page_bound [OF n i(1)]] i(2)
    have "unat d div 2 ^ k * 2 ^ k = i * 2 ^ k" by metis
    then show "unat d div 2 ^ k < n" using i(1) by simp
  qed (unfold in_page_range al, blast)
  then show ?thesis by (simp add: page_span_def d_def [symmetric] div_less_iff_less_mult)
qed

lemma offset_plus_page:
  assumes ok: "pt_ok k pt"
  shows "pageOffset pt x + (p + (pageAlign pt x - v)) = p + (x - v)"
  by (simp add: pageOffset_take_bit [OF ok] pageAlign_minus [OF ok])

lemma page_span_bound:
  assumes "pt_ok k pt" "sz < 2 ^ 63"
  shows "Suc (npages k sz) * 2 ^ k \<le> 2 ^ 64" and "npages k sz * 2 ^ k \<le> 2 ^ 64"
proof -
  have k: "k \<le> 62" using assms(1) by (simp add: pt_ok_def)
  show "Suc (npages k sz) * 2 ^ k \<le> 2 ^ 64"
  proof (cases "0 < sz")
    case True
    have pos: "(0 :: int) < 2 ^ k" by simp
    then have "0 \<le> sz + 2 ^ k - 1" using True by linarith
    then have "0 \<le> (sz + 2 ^ k - 1) div 2 ^ k" by (simp only: pos_imp_zdiv_nonneg_iff [OF pos])
    then have eq: "int (npages k sz) = (sz + 2 ^ k - 1) div 2 ^ k" by (simp only: npages_def nat_0_le)
    have "int (npages k sz) * 2 ^ k \<le> sz + 2 ^ k - 1"
      unfolding eq using div_mult_mod_eq [of "sz + 2 ^ k - 1" "2 ^ k"] pos_mod_sign [OF pos, of "sz + 2 ^ k - 1"] by linarith
    also have "\<dots> \<le> 2 ^ 63 + 2 ^ k" using assms(2) by simp
    finally have "int (npages k sz) * 2 ^ k + 2 ^ k \<le> 2 ^ 63 + 2 ^ k + 2 ^ k" by simp
    moreover have "(2 :: int) ^ k \<le> 2 ^ 62" using k by (intro power_increasing) simp_all
    ultimately have "int (npages k sz) * 2 ^ k + 2 ^ k \<le> 2 ^ 63 + 2 ^ 62 + 2 ^ 62" by linarith
    then have "int (Suc (npages k sz) * 2 ^ k) \<le> int (2 ^ 64)" by (simp add: algebra_simps)
    then show ?thesis by (simp only: of_nat_le_iff)
  next
    case False
    have "(2 :: nat) ^ k \<le> 2 ^ 64" using k by (intro power_increasing) simp_all
    then show ?thesis using False by (simp add: npages_0)
  qed
  then show "npages k sz * 2 ^ k \<le> 2 ^ 64" by (rule order_trans [rotated]) simp
qed

section \<open>The operations address by address\<close>

lemma pt_ok_upd [simp]: "pt_ok k (pt\<lparr>pTable := t\<rparr>) \<longleftrightarrow> pt_ok k pt"
  by (simp add: pt_ok_def)

lemma pageAlign_upd [simp]: "pageAlign (pt\<lparr>pTable := t\<rparr>) x = pageAlign pt x"
  by (simp add: pageAlign_def)

lemma pageOffset_upd [simp]: "pageOffset (pt\<lparr>pTable := t\<rparr>) x = pageOffset pt x"
  by (simp add: pageOffset_def)

lemma pt_translate_alt:
  "pt_translate pt x = map_option (\<lambda>e. pageOffset pt x + pte_paddr e) (pTable pt (pageAlign pt x))"
  by (simp add: pt_translate_def pt_lookup_def split: option.split)

lemma EmulationPageTable_ok:
  assumes "k < 63"
  shows "\<exists>pt. EmulationPageTable (2 ^ k) = Ok pt \<and> pt_ok k pt \<and> pTable pt = Map.empty"
proof -
  have "mask_n (int k) = mask k"
    using bit_mask_n [of "int k"] assms by (intro bit_word_eqI) (auto simp: bit_mask_iff)
  then show ?thesis using assms
    by (simp add: EmulationPageTable_def floorLog2_exp isPowerOf2_exp pt_ok_def)
qed

lemma pageAlign_in_pspan:
  assumes "pt_ok k pt" "pageOffset pt v = 0" "sz < 2 ^ 63"
  shows "pageAlign pt x \<in> page_range k v (npages k sz) \<longleftrightarrow> x \<in> pspan k v sz"
  unfolding pspan_def by (rule pageAlign_in_range [OF assms(1,2) page_span_bound(2) [OF assms(1,3)]])

lemma page_aligned:
  assumes ok: "pt_ok k pt" and v: "pageOffset pt v = 0" and y: "y \<in> page_range k v n"
  shows "pageAlign pt y = y"
proof -
  have k: "k < 64" and tv: "take_bit k v = 0" using ok v pageOffset_take_bit [OF ok] by (auto simp: pt_ok_def)
  obtain i where i: "y = v + of_nat i * 2 ^ k" using y by (auto simp: page_range_def)
  have "take_bit k (of_nat i * 2 ^ k :: addr) = take_bit k (push_bit k (of_nat i))"
    by (simp add: push_bit_eq_mult)
  also have "\<dots> = 0" by (simp only: take_bit_push_bit) simp
  finally have "take_bit k y = 0" unfolding i take_bit_page_add [OF tv k] .
  then show ?thesis by (simp add: pageAlign_minus [OF ok])
qed

lemma unmapped_pages:
  assumes "pt_ok k pt" "pageOffset pt v = 0" "sz < 2 ^ 63"
  shows "page_range k v (npages k sz) \<inter> dom (pTable pt) = {} \<longleftrightarrow>
         (\<forall>x\<in>pspan k v sz. pt_translate pt x = None)"
proof
  assume "page_range k v (npages k sz) \<inter> dom (pTable pt) = {}"
  then show "\<forall>x\<in>pspan k v sz. pt_translate pt x = None"
    using pageAlign_in_pspan [OF assms] by (auto simp: pt_translate_alt)
next
  assume none: "\<forall>x\<in>pspan k v sz. pt_translate pt x = None"
  have "pTable pt y = None" if y: "y \<in> page_range k v (npages k sz)" for y
  proof -
    have "pageAlign pt y = y" using page_aligned [OF assms(1,2) y] .
    then have "y \<in> pspan k v sz" using pageAlign_in_pspan [OF assms, of y] y by simp
    then have "pt_translate pt y = None" using none by blast
    then show ?thesis using \<open>pageAlign pt y = y\<close> by (simp add: pt_translate_alt)
  qed
  then show "page_range k v (npages k sz) \<inter> dom (pTable pt) = {}" by auto
qed

lemma mapped_pages:
  assumes "pt_ok k pt" "pageOffset pt v = 0" "sz < 2 ^ 63"
  shows "page_range k v (npages k sz) \<subseteq> dom (pTable pt) \<longleftrightarrow>
         (\<forall>x\<in>pspan k v sz. pt_translate pt x \<noteq> None)"
proof
  assume "page_range k v (npages k sz) \<subseteq> dom (pTable pt)"
  then show "\<forall>x\<in>pspan k v sz. pt_translate pt x \<noteq> None"
    using pageAlign_in_pspan [OF assms] by (fastforce simp: pt_translate_alt)
next
  assume some: "\<forall>x\<in>pspan k v sz. pt_translate pt x \<noteq> None"
  have "pTable pt y \<noteq> None" if y: "y \<in> page_range k v (npages k sz)" for y
  proof -
    have "pageAlign pt y = y" using page_aligned [OF assms(1,2) y] .
    then have "y \<in> pspan k v sz" using pageAlign_in_pspan [OF assms, of y] y by simp
    then have "pt_translate pt y \<noteq> None" using some by blast
    then show ?thesis using \<open>pageAlign pt y = y\<close> by (simp add: pt_translate_alt)
  qed
  then show "page_range k v (npages k sz) \<subseteq> dom (pTable pt)" by auto
qed

lemma pt_map_loop:
  assumes "pt_ok k pt" "pageOffset pt v = 0"
  shows "pt_map pt v p sz flags =
    bind_res (iter_res (npages k sz) (map_step (2 ^ k) flags) (v, p, pTable pt)) (\<lambda>(_, _, t). Ok (pt\<lparr>pTable := t\<rparr>))"
  using assms by (simp add: page_loop_iter pt_map_def pt_ok_def)

lemma pt_map_eq:
  assumes ok: "pt_ok k pt" and v: "pageOffset pt v = 0" and sz: "sz < 2 ^ 63"
  shows "if flags AND Clobber \<noteq> 0 \<or> (\<forall>x\<in>pspan k v sz. pt_translate pt x = None)
    then \<exists>pt'. pt_map pt v p sz flags = Ok pt' \<and> pt_ok k pt' \<and> offsetMask pt' = offsetMask pt \<and>
      (\<forall>x. pt_translate pt' x = (if x \<in> pspan k v sz then Some (p + (x - v)) else pt_translate pt x))
    else pt_map pt v p sz flags = Err Panic"
proof (cases "flags AND Clobber \<noteq> 0 \<or> (\<forall>x\<in>pspan k v sz. pt_translate pt x = None)")
  case True
  then have "flags AND Clobber \<noteq> 0 \<or>
      (Suc (npages k sz) * 2 ^ k \<le> 2 ^ 64 \<and> page_range k v (npages k sz) \<inter> dom (pTable pt) = {})"
    using unmapped_pages [OF ok v sz] page_span_bound(1) [OF ok sz] by blast
  note it = iter_map [OF this, of p]
  define pt' where "pt' = pt\<lparr>pTable := \<lambda>x. if x \<in> page_range k v (npages k sz)
    then Some \<lparr>pte_paddr = p + (x - v), pte_flags = flags\<rparr> else pTable pt x\<rparr>"
  have "pt_map pt v p sz flags = Ok pt'" by (simp add: pt_map_loop [OF ok v] it pt'_def)
  moreover have "pt_translate pt' x = (if x \<in> pspan k v sz then Some (p + (x - v)) else pt_translate pt x)" for x
    using pageAlign_in_pspan [OF ok v sz, of x] offset_plus_page [OF ok, of x p v]
    by (simp add: pt_translate_alt pt'_def)
  moreover have "pt_ok k pt'" "offsetMask pt' = offsetMask pt" using ok by (simp_all add: pt'_def)
  ultimately show ?thesis using True by auto
next
  case False
  then have "page_range k v (npages k sz) \<inter> dom (pTable pt) \<noteq> {}" using unmapped_pages [OF ok v sz] by blast
  then have "pt_map pt v p sz flags = Err Panic"
    using False iter_map_panic [of flags k v "npages k sz"] by (simp add: pt_map_loop [OF ok v])
  then show ?thesis using False by simp
qed

lemma pt_unmap_eq:
  assumes ok: "pt_ok k pt" and v: "pageOffset pt v = 0" and sz: "sz < 2 ^ 63"
    and un: "pt_unmap pt v sz = Ok pt'"
  shows "pt_ok k pt' \<and> offsetMask pt' = offsetMask pt \<and> (\<forall>x\<in>pspan k v sz. pt_translate pt x \<noteq> None) \<and>
    (\<forall>x. pt_translate pt' x = (if x \<in> pspan k v sz then None else pt_translate pt x))"
proof -
  have loop: "pt_unmap pt v sz =
      bind_res (iter_res (npages k sz) (unmap_step (2 ^ k)) (v, pTable pt)) (\<lambda>(_, t). Ok (pt\<lparr>pTable := t\<rparr>))"
    using ok v by (simp add: page_loop_iter pt_unmap_def pt_ok_def)
  obtain y where y: "iter_res (npages k sz) (unmap_step (2 ^ k)) (v, pTable pt) = Ok y"
    using un unfolding loop bind_res_eq_Ok by blast
  have dom: "page_range k v (npages k sz) \<subseteq> dom (pTable pt)" by (rule iter_unmap_dom [OF y])
  have pt': "pt' = pt\<lparr>pTable := \<lambda>x. if x \<in> page_range k v (npages k sz) then None else pTable pt x\<rparr>"
    using un unfolding loop iter_unmap [OF page_span_bound(1) [OF ok sz] dom] by simp
  have "pt_translate pt' x = (if x \<in> pspan k v sz then None else pt_translate pt x)" for x
    using pageAlign_in_pspan [OF ok v sz, of x] by (simp add: pt_translate_alt pt')
  then show ?thesis using ok mapped_pages [OF ok v sz] dom by (simp add: pt')
qed

lemma pt_unmap_total:
  assumes ok: "pt_ok k pt" and v: "pageOffset pt v = 0" and sz: "sz < 2 ^ 63"
    and all: "\<forall>x\<in>pspan k v sz. pt_translate pt x \<noteq> None"
  shows "\<exists>pt'. pt_unmap pt v sz = Ok pt'"
proof -
  have "page_range k v (npages k sz) \<subseteq> dom (pTable pt)" using mapped_pages [OF ok v sz] all by blast
  note it = iter_unmap [OF page_span_bound(1) [OF ok sz] this]
  show ?thesis using ok v by (simp add: page_loop_iter pt_unmap_def pt_ok_def it)
qed

lemma pt_isUnmapped_eq:
  assumes ok: "pt_ok k pt" and v: "pageOffset pt v = 0" and sz: "sz < 2 ^ 63"
  shows "pt_isUnmapped pt v sz = Ok (\<forall>x\<in>pspan k v sz. pt_translate pt x = None)"
  using ok v unmapped_pages [OF ok v sz]
  by (simp add: page_loop_iter pt_isUnmapped_def pt_ok_def iter_unmapped)

lemma pt_remap_eq:
  assumes ok: "pt_ok k pt" and v: "pageOffset pt v = 0" "pageOffset pt w = 0" and sz: "sz < 2 ^ 63"
    and old: "\<forall>x\<in>pspan k v sz. pt_translate pt x \<noteq> None"
    and new: "\<forall>x\<in>pspan k w sz. pt_translate pt x = None"
  shows "\<exists>pt'. pt_remap pt v sz w = Ok pt' \<and> pt_ok k pt' \<and> offsetMask pt' = offsetMask pt \<and>
    (\<forall>x. pt_translate pt' x =
       (if x \<in> pspan k w sz then pt_translate pt (v + (x - w))
        else if x \<in> pspan k v sz then None else pt_translate pt x))"
proof -
  let ?n = "npages k sz"
  have a: "page_range k v ?n \<subseteq> dom (pTable pt)" using mapped_pages [OF ok v(1) sz] old by blast
  have b: "page_range k w ?n \<inter> dom (pTable pt) = {}" using unmapped_pages [OF ok v(2) sz] new by blast
  note it = iter_remap [OF page_span_bound(1) [OF ok sz] a b]
  define pt' where "pt' = pt\<lparr>pTable := \<lambda>x. if x \<in> page_range k w ?n then pTable pt (v + (x - w))
    else if x \<in> page_range k v ?n then None else pTable pt x\<rparr>"
  have k: "k < 64" and tv: "take_bit k v = 0" "take_bit k w = 0"
    using ok v pageOffset_take_bit [OF ok] by (auto simp: pt_ok_def)
  have off: "pageOffset pt (v + (x - w)) = pageOffset pt x" for x
    using take_bit_page_add [OF tv(1) k, of "x - w"] take_bit_page_add [OF tv(2) k, of "x - w"]
    by (simp add: pageOffset_take_bit [OF ok])
  then have al: "pageAlign pt (v + (x - w)) = v + (pageAlign pt x - w)" for x
    using off [of x] by (simp add: pageOffset_take_bit [OF ok] pageAlign_minus [OF ok] algebra_simps)
  have "pt_remap pt v sz w = Ok pt'"
    using ok v by (simp add: page_loop_iter pt_remap_def pt_ok_def it pt'_def)
  moreover have "pt_translate pt' x = (if x \<in> pspan k w sz then pt_translate pt (v + (x - w))
        else if x \<in> pspan k v sz then None else pt_translate pt x)" for x
    using pageAlign_in_pspan [OF ok v(1) sz, of x] pageAlign_in_pspan [OF ok v(2) sz, of x] off [of x] al [of x]
    by (simp add: pt_translate_alt pt'_def)
  moreover have "pt_ok k pt'" "offsetMask pt' = offsetMask pt" using ok by (simp_all add: pt'_def)
  ultimately show ?thesis by blast
qed

section \<open>The address space interface\<close>

text \<open>
  What a process relies on: mapping a region translates every address of it by a constant distance
  and leaves the other addresses alone, and unmapping a region removes its translations.
\<close>

locale address_space =
  fixes as_ok :: "'pt \<Rightarrow> bool"
    and as_aligned :: "addr \<Rightarrow> bool"
    and as_span :: "addr \<Rightarrow> int \<Rightarrow> addr set"
    and as_xlate :: "'pt \<Rightarrow> addr \<Rightarrow> addr option"
    and as_map :: "'pt \<Rightarrow> addr \<Rightarrow> addr \<Rightarrow> int \<Rightarrow> 64 word \<Rightarrow> 'pt res"
    and as_unmap :: "'pt \<Rightarrow> addr \<Rightarrow> int \<Rightarrow> 'pt res"
  assumes map_keeps: "as_ok pt \<Longrightarrow> as_aligned v \<Longrightarrow> sz < 2 ^ 63 \<Longrightarrow> as_map pt v p sz f = Ok pt' \<Longrightarrow> as_ok pt'"
    and map_xlate: "as_ok pt \<Longrightarrow> as_aligned v \<Longrightarrow> sz < 2 ^ 63 \<Longrightarrow> as_map pt v p sz f = Ok pt' \<Longrightarrow>
      as_xlate pt' x = (if x \<in> as_span v sz then Some (p + (x - v)) else as_xlate pt x)"
    and unmap_keeps: "as_ok pt \<Longrightarrow> as_aligned v \<Longrightarrow> sz < 2 ^ 63 \<Longrightarrow> as_unmap pt v sz = Ok pt' \<Longrightarrow> as_ok pt'"
    and unmap_xlate: "as_ok pt \<Longrightarrow> as_aligned v \<Longrightarrow> sz < 2 ^ 63 \<Longrightarrow> as_unmap pt v sz = Ok pt' \<Longrightarrow>
      as_xlate pt' x = (if x \<in> as_span v sz then None else as_xlate pt x)"
    and unmap_total: "as_ok pt \<Longrightarrow> as_aligned v \<Longrightarrow> sz < 2 ^ 63 \<Longrightarrow>
      \<forall>x\<in>as_span v sz. as_xlate pt x \<noteq> None \<Longrightarrow> \<exists>pt'. as_unmap pt v sz = Ok pt'"
begin

text \<open>Mapping a region that was unmapped and unmapping it again restores every translation.\<close>

lemma map_unmap:
  assumes "as_ok pt" "as_aligned v" "sz < 2 ^ 63" "as_map pt v p sz f = Ok pt'"
    and "\<forall>x\<in>as_span v sz. as_xlate pt x = None"
  shows "\<exists>pt''. as_unmap pt' v sz = Ok pt'' \<and> as_xlate pt'' = as_xlate pt"
proof -
  have ok': "as_ok pt'" using map_keeps [OF assms(1-4)] .
  have "\<forall>x\<in>as_span v sz. as_xlate pt' x \<noteq> None" using map_xlate [OF assms(1-4)] by simp
  then obtain pt'' where un: "as_unmap pt' v sz = Ok pt''" using unmap_total [OF ok' assms(2,3)] by blast
  have "as_xlate pt'' x = as_xlate pt x" for x
    using unmap_xlate [OF ok' assms(2,3) un] map_xlate [OF assms(1-4)] assms(5) by simp
  then show ?thesis using un by blast
qed

text \<open>Mapping to physical addresses that nothing else uses never makes two addresses share memory.\<close>

lemma map_no_alias:
  assumes "as_ok pt" "as_aligned v" "sz < 2 ^ 63" "as_map pt v p sz f = Ok pt'"
    and inj: "\<And>x y q. as_xlate pt x = Some q \<Longrightarrow> as_xlate pt y = Some q \<Longrightarrow> x = y"
    and fresh: "\<And>x y. x \<in> as_span v sz \<Longrightarrow> as_xlate pt y \<noteq> Some (p + (x - v))"
    and xy: "as_xlate pt' x = Some q" "as_xlate pt' y = Some q"
  shows "x = y"
proof -
  note tr = map_xlate [OF assms(1-4)]
  show ?thesis
  proof (cases "x \<in> as_span v sz"; cases "y \<in> as_span v sz")
    assume "x \<in> as_span v sz" "y \<in> as_span v sz"
    then have "p + (x - v) = p + (y - v)" using xy tr by simp
    then show ?thesis by simp
  next
    assume "x \<in> as_span v sz" "y \<notin> as_span v sz"
    then show ?thesis using xy tr fresh [of x y] by simp
  next
    assume "x \<notin> as_span v sz" "y \<in> as_span v sz"
    then show ?thesis using xy tr fresh [of y x] by simp
  next
    assume "x \<notin> as_span v sz" "y \<notin> as_span v sz"
    then show ?thesis using xy tr inj by simp
  qed
qed

end

lemma aligned_offset: "pt_ok k pt \<Longrightarrow> take_bit k v = 0 \<Longrightarrow> pageOffset pt v = 0"
  by (simp add: pageOffset_take_bit)

lemma pt_map_Ok:
  assumes "pt_ok k pt" "take_bit k v = 0" "sz < 2 ^ 63" "pt_map pt v p sz f = Ok pt'"
  shows "pt_ok k pt' \<and> (\<forall>x. pt_translate pt' x = (if x \<in> pspan k v sz then Some (p + (x - v)) else pt_translate pt x))"
  using pt_map_eq [OF assms(1) aligned_offset [OF assms(1,2)] assms(3), of f p] assms(4)
  by (auto split: if_split_asm)

interpretation emu: address_space "pt_ok k" "\<lambda>v. take_bit k v = 0" "pspan k" pt_translate pt_map pt_unmap for k
proof (unfold_locales, goal_cases)
  case (1 pt v sz p f pt')
  then show ?case using pt_map_Ok by blast
next
  case (2 pt v sz p f pt' x)
  then show ?case using pt_map_Ok by blast
next
  case (3 pt v sz pt')
  then show ?case using pt_unmap_eq [OF 3(1) aligned_offset [OF 3(1,2)] 3(3,4)] by blast
next
  case (4 pt v sz pt' x)
  then show ?case using pt_unmap_eq [OF 4(1) aligned_offset [OF 4(1,2)] 4(3,4)] by blast
next
  case (5 pt v sz)
  then show ?case using pt_unmap_total [OF 5(1) aligned_offset [OF 5(1,2)] 5(3,4)] by blast
qed

section \<open>Checkpoints\<close>

lemma fold_emplace:
  assumes "distinct (map fst es)" "\<forall>e\<in>set es. t (fst e) = None"
  shows "fold (\<lambda>(v, p, f). pt_emplace v \<lparr>pte_paddr = p, pte_flags = f\<rparr>) es t =
    t ++ map_of (map (\<lambda>(v, p, f). (v, \<lparr>pte_paddr = p, pte_flags = f\<rparr>)) es)"
  using assms
proof (induction es arbitrary: t)
  case (Cons e es)
  obtain v p f where e: "e = (v, p, f)" by (cases e)
  define t1 where "t1 = t(v \<mapsto> \<lparr>pte_paddr = p, pte_flags = f\<rparr>)"
  have v: "v \<notin> fst ` set es" using Cons.prems(1) e by auto
  let ?m = "map_of (map (\<lambda>(v, p, f). (v, \<lparr>pte_paddr = p, pte_flags = f\<rparr>)) es)"
  have "?m v = None" using v by (auto simp: map_of_eq_None_iff image_image split_def)
  then have add: "t1 ++ ?m = t ++ ?m(v \<mapsto> \<lparr>pte_paddr = p, pte_flags = f\<rparr>)"
    by (auto simp: t1_def map_add_def fun_eq_iff split: option.split)
  have "\<forall>e\<in>set es. t1 (fst e) = None"
    using Cons.prems e v by (auto simp: t1_def image_iff)
  note IH = Cons.IH [OF _ this]
  have "pt_emplace v \<lparr>pte_paddr = p, pte_flags = f\<rparr> t = t1"
    using Cons.prems(2) e by (simp add: pt_emplace_def t1_def)
  then show ?case using Cons.prems(1)
    by (simp only: e IH add fold_simps list.map prod.case map_of.simps fst_conv snd_conv distinct.simps comp_apply)
qed simp

lemma serialize_entries:
  assumes "iter_order pt order"
  shows "map_of (map (\<lambda>(v, p, f). (v, \<lparr>pte_paddr = p, pte_flags = f\<rparr>))
      (map (\<lambda>v. (v, pte_paddr (the (pTable pt v)), pte_flags (the (pTable pt v)))) order)) = pTable pt"
proof -
  have "map_of (map (\<lambda>v. (v, the (pTable pt v))) order) = pTable pt"
  proof
    fix x
    show "map_of (map (\<lambda>v. (v, the (pTable pt v))) order) x = pTable pt x"
      using assms by (cases "pTable pt x") (auto simp: iter_order_def map_of_map_restrict restrict_map_def dom_def)
  qed
  moreover have "\<lparr>pte_paddr = pte_paddr e, pte_flags = pte_flags e\<rparr> = e" for e :: pt_entry by simp
  ultimately show ?thesis by (simp only: map_map comp_def split)
qed

lemma pt_checkpoint:
  assumes "iter_order pt order" "card (dom (pTable pt)) < 2 ^ 31"
  shows "\<exists>cp. pt_serialize pt order = Ok cp \<and>
    (\<forall>pt0. pTable pt0 = Map.empty \<longrightarrow> pt_unserialize pt0 cp = Ok (pt0\<lparr>pTable := pTable pt\<rparr>))"
proof -
  let ?es = "map (\<lambda>v. (v, pte_paddr (the (pTable pt v)), pte_flags (the (pTable pt v)))) order"
  have len: "length order = card (dom (pTable pt))"
    using assms(1) distinct_card [of order] by (simp add: iter_order_def)
  have dist: "distinct (map fst ?es)" using assms(1) by (simp add: iter_order_def comp_def)
  have "fold (\<lambda>(v, p, f). pt_emplace v \<lparr>pte_paddr = p, pte_flags = f\<rparr>) ?es Map.empty = pTable pt"
    using fold_emplace [OF dist, of Map.empty] serialize_entries [OF assms(1)] by simp
  then show ?thesis using len assms(2) by (simp add: pt_serialize_def pt_unserialize_def)
qed

lemma pt4k_ok: "pt_ok 12 pt4k"
  by (simp add: pt_ok_def pt4k_def)

lemma pt4k_translate: "pt_translate pt4k x = None"
  by (simp add: pt_translate_alt pt4k_def)

lemma pageOffset_4k: "pageOffset pt4k a = take_bit 12 a"
  by (rule pageOffset_take_bit [OF pt4k_ok])

lemma pspan_page: "x \<in> pspan 12 v 4096 \<longleftrightarrow> unat (x - v) < 4096"
  by (simp add: pspan_def page_span_def npages_def)

section \<open>Properties\<close>

text \<open>
  C30: mapping a page-aligned region either panics, exactly when it
  does not clobber and some page of the region is mapped already, or afterwards translates every
  address of its pages to the physical address at the same distance and every other address as
  before.
\<close>

theorem map_translates_region:
  assumes "pt_ok k pt" "pageOffset pt v = 0" "sz < 2 ^ 63"
  shows "if flags AND Clobber \<noteq> 0 \<or> (\<forall>x\<in>pspan k v sz. pt_translate pt x = None)
    then \<exists>pt'. pt_map pt v p sz flags = Ok pt' \<and> pt_ok k pt' \<and>
      (\<forall>x. pt_translate pt' x = (if x \<in> pspan k v sz then Some (p + (x - v)) else pt_translate pt x))
    else pt_map pt v p sz flags = Err Panic"
  using pt_map_eq [OF assms, of flags p] by (auto split: if_split_asm)

theorem map_translates_region_witness:
  "\<exists>pt'. pt_map pt4k 0x30000000 0x1000 4096 0 = Ok pt' \<and> pt_translate pt' 0x30000010 = Some 0x1010 \<and>
     pt_translate pt' 0x30001000 = None"
  using map_translates_region [OF pt4k_ok, of "0x30000000" 4096 0 "0x1000"]
  by (auto simp: pageOffset_4k pt4k_translate pspan_page)

text \<open>
  C31: remapping a mapped region to an unmapped one moves the
  translation of every address and changes no other one.
\<close>

theorem remap_moves_region:
  assumes "pt_ok k pt" "pageOffset pt v = 0" "pageOffset pt w = 0" "sz < 2 ^ 63"
    and "\<forall>x\<in>pspan k v sz. pt_translate pt x \<noteq> None"
    and "\<forall>x\<in>pspan k w sz. pt_translate pt x = None"
  shows "\<exists>pt'. pt_remap pt v sz w = Ok pt' \<and> pt_ok k pt' \<and>
    (\<forall>x. pt_translate pt' x =
       (if x \<in> pspan k w sz then pt_translate pt (v + (x - w))
        else if x \<in> pspan k v sz then None else pt_translate pt x))"
  using pt_remap_eq [OF assms] by blast

lemma pt_one_facts:
  "pt_ok 12 pt_one" "pageOffset pt_one x = take_bit 12 x"
  "pt_translate pt_one x = (if unat x < 4096 then Some (take_bit 12 x + 0x5000) else None)"
proof -
  show ok: "pt_ok 12 pt_one" by (simp add: pt_one_def pt4k_ok)
  show "pageOffset pt_one x = take_bit 12 x" by (rule pageOffset_take_bit [OF ok])
  have "npages 12 4096 = Suc 0" by (simp add: npages_def)
  then have "page_range 12 0 (npages 12 4096) = {0}" by (simp add: page_range_Suc)
  then have "pageAlign pt_one x = 0 \<longleftrightarrow> unat x < 4096"
    using pageAlign_in_pspan [OF ok, of 0 4096 x] by (simp add: pspan_page pageOffset_take_bit [OF ok])
  then show "pt_translate pt_one x = (if unat x < 4096 then Some (take_bit 12 x + 0x5000) else None)"
    by (auto simp: pt_translate_alt pageOffset_take_bit [OF ok]) (auto simp: pt_one_def pt4k_def)
qed

theorem remap_moves_region_witness:
  "\<exists>pt'. pt_remap pt_one 0 4096 0x30000000 = Ok pt' \<and>
     pt_translate pt' 0x30000010 = Some 0x5010 \<and> pt_translate pt' 0x10 = None"
proof -
  have "\<forall>x\<in>pspan 12 0x30000000 4096. pt_translate pt_one x = None"
  proof
    fix x assume "x \<in> pspan 12 0x30000000 4096"
    then have "unat (x - 0x30000000) < 4096" by (simp add: pspan_page)
    moreover have "unat (x - 0x30000000) = unat x + 2 ^ 64 - 0x30000000" if "unat x < 4096"
      using that by (simp add: unat_sub_if')
    ultimately show "pt_translate pt_one x = None" by (auto simp: pt_one_facts)
  qed
  then show ?thesis
    using remap_moves_region [OF pt_one_facts(1), of 0 "0x30000000" 4096]
    by (auto simp: pt_one_facts pspan_page)
qed

text \<open>
  Also: mapping an unmapped region and unmapping it again gives back the
  translation of every address.
\<close>

theorem map_then_unmap:
  assumes "pt_ok k pt" "take_bit k v = 0" "sz < 2 ^ 63" "pt_map pt v p sz f = Ok pt'"
    and "\<forall>x\<in>pspan k v sz. pt_translate pt x = None"
  shows "\<exists>pt''. pt_unmap pt' v sz = Ok pt'' \<and> pt_translate pt'' = pt_translate pt"
  using assms by (rule emu.map_unmap)

lemma pt4k_map: "\<exists>pt'. pt_map pt4k 0x30000000 0x1000 4096 0 = Ok pt'"
  using pt_map_eq [OF pt4k_ok, of "0x30000000" 4096 0 "0x1000"] by (auto simp: pageOffset_4k pt4k_translate)

theorem map_then_unmap_witness:
  "\<exists>pt' pt''. pt_map pt4k 0x30000000 0x1000 4096 0 = Ok pt' \<and> pt_unmap pt' 0x30000000 4096 = Ok pt'' \<and>
     pt_translate pt'' = pt_translate pt4k"
proof -
  obtain pt' where m: "pt_map pt4k 0x30000000 0x1000 4096 0 = Ok pt'" using pt4k_map by blast
  have "take_bit 12 (0x30000000 :: addr) = 0" "(4096 :: int) < 2 ^ 63" by simp_all
  from map_then_unmap [OF pt4k_ok this m] m show ?thesis by (simp add: pt4k_translate)
qed

text \<open>
  Also: for every iteration order of the table, serialising it and
  reading it into an empty table restores it, as long as the number of entries is an \<open>int\<close>.
\<close>

theorem page_table_checkpoint:
  assumes "iter_order pt order" "card (dom (pTable pt)) < 2 ^ 31" "pTable pt0 = Map.empty"
  shows "\<exists>cp. pt_serialize pt order = Ok cp \<and> pt_unserialize pt0 cp = Ok (pt0\<lparr>pTable := pTable pt\<rparr>)"
  using pt_checkpoint [OF assms(1,2)] assms(3) by blast

theorem page_table_checkpoint_witness:
  "\<exists>cp. pt_serialize pt_one [0] = Ok cp \<and> pt_unserialize pt4k cp = Ok pt_one"
proof -
  have "iter_order pt_one [0]" "card (dom (pTable pt_one)) < 2 ^ 31" "pTable pt4k = Map.empty"
    by (simp_all add: iter_order_def pt_one_def pt4k_def)
  from page_table_checkpoint [OF this] show ?thesis by (simp add: pt_one_def)
qed

end
