(* ===== verification/Arm_State.thy ===== *)
theory Arm_State
  imports Bitfield
begin

text \<open>
  The view the ARM TLB has of a hardware thread: its system registers, and the functions of
  \<open>src/arch/arm/utility.cc\<close>, \<open>src/arch/arm/types.hh\<close> and \<open>src/arch/arm/system.cc\<close> that derive from
  them the exception level, the security state, the execution state of every exception level, the
  translation regime and the part of an address that is a tag. The lemmas show that the queries
  answer for every exception level that exists, and that purifying an address removes exactly its tag.
\<close>

unbundle bit_operations_syntax

section \<open>Registers and configuration\<close>

datatype exception_level = EL0 | EL1 | EL2 | EL3

text \<open>The registers that translation reads; banked registers have an instance per security state.\<close>

datatype misc_reg =
    MISCREG_CPSR | MISCREG_SCR | MISCREG_SCR_EL3 | MISCREG_HCR | MISCREG_HCR_EL2
  | MISCREG_SCTLR_NS | MISCREG_SCTLR_S | MISCREG_HSCTLR
  | MISCREG_SCTLR_EL1 | MISCREG_SCTLR_EL2 | MISCREG_SCTLR_EL3
  | MISCREG_TTBCR | MISCREG_TTBCR_NS | MISCREG_TTBCR_S
  | MISCREG_TCR_EL1 | MISCREG_TCR_EL2 | MISCREG_TCR_EL3
  | MISCREG_TTBR0_NS | MISCREG_TTBR0_S | MISCREG_TTBR1_NS | MISCREG_TTBR1_S
  | MISCREG_TTBR0_EL1 | MISCREG_TTBR1_EL1 | MISCREG_TTBR0_EL2 | MISCREG_TTBR1_EL2
  | MISCREG_CONTEXTIDR_NS | MISCREG_CONTEXTIDR_S | MISCREG_PRRR_NS | MISCREG_PRRR_S
  | MISCREG_NMRR_NS | MISCREG_NMRR_S | MISCREG_DACR_NS | MISCREG_DACR_S
  | MISCREG_VTTBR | MISCREG_VTTBR_EL2 | MISCREG_ID_AA64MMFR1_EL1 | MISCREG_ID_AA64PFR0_EL1

record thread_ctx =
  readMiscReg :: "misc_reg \<Rightarrow> 64 word"
  contextId :: int
  FullSystem :: bool
  sys_haveSecurity :: bool
  sys_haveLPAE :: bool
  sys_haveVirtualization :: bool
  sys_highestELIs64 :: bool

text \<open>Fields of the registers, with the bit positions of \<open>src/arch/arm/miscregs_types.hh\<close>.\<close>

definition cpsr_mode :: "64 word \<Rightarrow> 64 word" where "cpsr_mode r = bits_raw r 4 0"
definition cpsr_width :: "64 word \<Rightarrow> bool" where "cpsr_width r = bit r 4"
definition cpsr_pan :: "64 word \<Rightarrow> bool" where "cpsr_pan r = bit r 22"
definition scr_ns :: "64 word \<Rightarrow> bool" where "scr_ns r = bit r 0"
definition scr_sif :: "64 word \<Rightarrow> bool" where "scr_sif r = bit r 9"
definition scr_rw :: "64 word \<Rightarrow> bool" where "scr_rw r = bit r 10"
definition scr_eel2 :: "64 word \<Rightarrow> bool" where "scr_eel2 r = bit r 18"
definition hcr_vm :: "64 word \<Rightarrow> bool" where "hcr_vm r = bit r 0"
definition hcr_ptw :: "64 word \<Rightarrow> bool" where "hcr_ptw r = bit r 2"
definition hcr_dc :: "64 word \<Rightarrow> bool" where "hcr_dc r = bit r 12"
definition hcr_tge :: "64 word \<Rightarrow> bool" where "hcr_tge r = bit r 27"
definition hcr_rw :: "64 word \<Rightarrow> bool" where "hcr_rw r = bit r 31"
definition hcr_e2h :: "64 word \<Rightarrow> bool" where "hcr_e2h r = bit r 34"
definition ttbcr_eae :: "64 word \<Rightarrow> bool" where "ttbcr_eae r = bit r 31"
definition ttbcr_a1 :: "64 word \<Rightarrow> bool" where "ttbcr_a1 r = bit r 22"
definition ttbcr_as :: "64 word \<Rightarrow> bool" where "ttbcr_as r = bit r 36"
definition tcr_tbi :: "64 word \<Rightarrow> bool" where "tcr_tbi r = bit r 20"
definition tcr_tbid :: "64 word \<Rightarrow> bool" where "tcr_tbid r = bit r 29"
definition tcr_tbi0 :: "64 word \<Rightarrow> bool" where "tcr_tbi0 r = bit r 37"
definition tcr_tbi1 :: "64 word \<Rightarrow> bool" where "tcr_tbi1 r = bit r 38"
definition tcr_tbid0 :: "64 word \<Rightarrow> bool" where "tcr_tbid0 r = bit r 51"
definition tcr_tbid1 :: "64 word \<Rightarrow> bool" where "tcr_tbid1 r = bit r 52"
definition mmfr1_vh :: "64 word \<Rightarrow> 64 word" where "mmfr1_vh r = bits_raw r 11 8"
definition mmfr1_pan :: "64 word \<Rightarrow> 64 word" where "mmfr1_pan r = bits_raw r 23 20"
definition pfr0_sel2 :: "64 word \<Rightarrow> 64 word" where "pfr0_sel2 r = bits_raw r 39 36"

definition MODE_USER :: "64 word" where "MODE_USER = 16"
definition MODE_FIQ :: "64 word" where "MODE_FIQ = 17"
definition MODE_IRQ :: "64 word" where "MODE_IRQ = 18"
definition MODE_SVC :: "64 word" where "MODE_SVC = 19"
definition MODE_MON :: "64 word" where "MODE_MON = 22"
definition MODE_ABORT :: "64 word" where "MODE_ABORT = 23"
definition MODE_HYP :: "64 word" where "MODE_HYP = 26"
definition MODE_UNDEFINED :: "64 word" where "MODE_UNDEFINED = 27"
definition MODE_SYSTEM :: "64 word" where "MODE_SYSTEM = 31"

section \<open>Queries on the configuration\<close>

definition haveSecurity :: "thread_ctx \<Rightarrow> bool" where
  "haveSecurity tc = (if FullSystem tc then sys_haveSecurity tc else False)"

definition haveLPAE :: "thread_ctx \<Rightarrow> bool" where
  "haveLPAE tc = (if FullSystem tc then sys_haveLPAE tc else False)"

definition haveVirtualization :: "thread_ctx \<Rightarrow> bool" where
  "haveVirtualization tc = (if FullSystem tc then sys_haveVirtualization tc else False)"

definition highestELIs64 :: "thread_ctx \<Rightarrow> bool" where
  "highestELIs64 tc = (if FullSystem tc then sys_highestELIs64 tc else True)"

definition highestEL :: "thread_ctx \<Rightarrow> exception_level" where
  "highestEL tc =
     (if FullSystem tc
      then if sys_haveSecurity tc then EL3 else if sys_haveVirtualization tc then EL2 else EL1
      else EL1)"

fun haveEL :: "thread_ctx \<Rightarrow> exception_level \<Rightarrow> bool" where
  "haveEL tc EL0 = True"
| "haveEL tc EL1 = True"
| "haveEL tc EL2 = haveVirtualization tc"
| "haveEL tc EL3 = haveSecurity tc"

section \<open>Exception level and security state\<close>

text \<open>
  \<open>and_then\<close> and \<open>or_else\<close> are \<open>&&\<close> and \<open>||\<close> with a right operand that can panic.
\<close>

definition and_then :: "bool \<Rightarrow> bool res \<Rightarrow> bool res" where
  "and_then b k = (if b then k else Ok False)"

definition or_else :: "bool \<Rightarrow> bool res \<Rightarrow> bool res" where
  "or_else b k = (if b then Ok True else k)"

definition not_res :: "bool res \<Rightarrow> bool res" where
  "not_res b = bind_res b (\<lambda>b. Ok (\<not> b))"

definition opModeToEL :: "64 word \<Rightarrow> exception_level res" where
  "opModeToEL mode =
     (if drop_bit 4 mode AND 1 \<noteq> 0 then
        if mode = MODE_USER then Ok EL0
        else if mode \<in> {MODE_FIQ, MODE_IRQ, MODE_SVC, MODE_ABORT, MODE_UNDEFINED, MODE_SYSTEM} then Ok EL1
        else if mode = MODE_HYP then Ok EL2
        else if mode = MODE_MON then Ok EL3
        else Err Panic
      else let n = drop_bit 2 mode AND 3
           in Ok (if n = 0 then EL0 else if n = 1 then EL1 else if n = 2 then EL2 else EL3))"

definition opModeIs64 :: "64 word \<Rightarrow> bool" where
  "opModeIs64 mode \<longleftrightarrow> \<not> bit mode 4"

definition opModeIsH :: "64 word \<Rightarrow> bool" where
  "opModeIsH mode \<longleftrightarrow> mode = 0x5 \<or> mode = 0x9 \<or> mode = 0xD"

definition opModeIsT :: "64 word \<Rightarrow> bool" where
  "opModeIsT mode \<longleftrightarrow> mode = 0x0 \<or> mode = 0x4 \<or> mode = 0x8 \<or> mode = 0xC"

definition unknownMode32 :: "64 word \<Rightarrow> bool" where
  "unknownMode32 mode \<longleftrightarrow>
     mode \<notin> {MODE_USER, MODE_FIQ, MODE_IRQ, MODE_SVC, MODE_MON, MODE_ABORT, MODE_HYP, MODE_UNDEFINED, MODE_SYSTEM}"

definition unknownMode :: "64 word \<Rightarrow> bool" where
  "unknownMode mode \<longleftrightarrow>
     mode \<notin> {0x0, 0x4, 0x5, 0x8, 0x9, 0xC, 0xD, MODE_USER, MODE_FIQ, MODE_IRQ, MODE_SVC, MODE_MON, MODE_ABORT,
              MODE_HYP, MODE_UNDEFINED, MODE_SYSTEM}"

definition currEL_cpsr :: "64 word \<Rightarrow> exception_level res" where
  "currEL_cpsr cpsr = opModeToEL (cpsr_mode cpsr)"

definition currEL :: "thread_ctx \<Rightarrow> exception_level res" where
  "currEL tc = currEL_cpsr (readMiscReg tc MISCREG_CPSR)"

definition inAArch64 :: "thread_ctx \<Rightarrow> bool" where
  "inAArch64 tc = opModeIs64 (cpsr_mode (readMiscReg tc MISCREG_CPSR))"

definition badMode32 :: "thread_ctx \<Rightarrow> 64 word \<Rightarrow> bool res" where
  "badMode32 tc mode =
     or_else (unknownMode32 mode) (bind_res (opModeToEL mode) (\<lambda>el. Ok (\<not> haveEL tc el)))"

definition badMode :: "thread_ctx \<Rightarrow> 64 word \<Rightarrow> bool res" where
  "badMode tc mode =
     or_else (unknownMode mode) (bind_res (opModeToEL mode) (\<lambda>el. Ok (\<not> haveEL tc el)))"

definition isSecureBelowEL3 :: "thread_ctx \<Rightarrow> bool" where
  "isSecureBelowEL3 tc \<longleftrightarrow> haveEL tc EL3 \<and> \<not> scr_ns (readMiscReg tc MISCREG_SCR_EL3)"

definition isSecure :: "thread_ctx \<Rightarrow> bool res" where
  "isSecure tc =
     (let cpsr = readMiscReg tc MISCREG_CPSR
      in bind_res (and_then (haveEL tc EL3 \<and> \<not> cpsr_width cpsr)
                    (bind_res (currEL tc) (\<lambda>el. Ok (el = EL3)))) (\<lambda>b.
           if b then Ok True
           else if haveEL tc EL3 \<and> cpsr_width cpsr \<and> cpsr_mode cpsr = MODE_MON then Ok True
           else Ok (isSecureBelowEL3 tc)))"

definition HaveVirtHostExt :: "thread_ctx \<Rightarrow> bool" where
  "HaveVirtHostExt tc \<longleftrightarrow> mmfr1_vh (readMiscReg tc MISCREG_ID_AA64MMFR1_EL1) \<noteq> 0"

definition HaveSecureEL2Ext :: "thread_ctx \<Rightarrow> bool" where
  "HaveSecureEL2Ext tc \<longleftrightarrow> pfr0_sel2 (readMiscReg tc MISCREG_ID_AA64PFR0_EL1) \<noteq> 0"

definition longDescFormatInUse :: "thread_ctx \<Rightarrow> bool" where
  "longDescFormatInUse tc \<longleftrightarrow> haveLPAE tc \<and> ttbcr_eae (readMiscReg tc MISCREG_TTBCR)"

section \<open>Execution state of an exception level\<close>

definition haveAArch32EL :: "thread_ctx \<Rightarrow> exception_level \<Rightarrow> bool" where
  "haveAArch32EL tc el =
     (if \<not> haveEL tc el then False
      else if \<not> highestELIs64 tc then True
      else if highestEL tc = el then False
      else if el = EL0 then True
      else True)"

definition ELStateUsingAArch32K :: "thread_ctx \<Rightarrow> exception_level \<Rightarrow> bool \<Rightarrow> (bool \<times> bool) res" where
  "ELStateUsingAArch32K tc el secure =
     (let have_el3 = haveSecurity tc;
          have_el2 = haveVirtualization tc
      in if el = EL2 \<and> \<not> have_el2 then Err Panic
         else if el = EL3 \<and> \<not> have_el3 then Err Panic
         else if \<not> haveAArch32EL tc el then Ok (True, False)
         else if secure \<and> el = EL2 then Ok (True, False)
         else if \<not> highestELIs64 tc then Ok (True, True)
         else if highestEL tc = el then Ok (True, False)
         else
           let scr = readMiscReg tc MISCREG_SCR_EL3;
               aarch32_below_el3 = (have_el3 \<and> \<not> scr_rw scr \<and>
                 (\<not> secure \<or> \<not> HaveSecureEL2Ext tc \<or> \<not> scr_eel2 scr));
               hcr = readMiscReg tc MISCREG_HCR_EL2;
               sec_el2 = (HaveSecureEL2Ext tc \<and> scr_eel2 scr);
               aarch32_at_el1 = (aarch32_below_el3 \<or>
                 have_el2 \<and> (sec_el2 \<or> \<not> secure) \<and> \<not> hcr_rw hcr \<and>
                 \<not> (hcr_e2h hcr \<and> hcr_tge hcr \<and> HaveVirtHostExt tc))
           in if el = EL0 \<and> \<not> aarch32_at_el1
              then bind_res (currEL tc) (\<lambda>cur.
                Ok (cur = EL0, cpsr_width (readMiscReg tc MISCREG_CPSR)))
              else Ok (True, aarch32_below_el3 \<and> el \<noteq> EL3 \<or> aarch32_at_el1 \<and> (el = EL0 \<or> el = EL1)))"

definition ELUsingAArch32K :: "thread_ctx \<Rightarrow> exception_level \<Rightarrow> (bool \<times> bool) res" where
  "ELUsingAArch32K tc el = ELStateUsingAArch32K tc el (isSecureBelowEL3 tc)"

definition ELIs32 :: "thread_ctx \<Rightarrow> exception_level \<Rightarrow> bool res" where
  "ELIs32 tc el =
     bind_res (ELUsingAArch32K tc el) (\<lambda>(known, aarch32). if \<not> known then Err Panic else Ok aarch32)"

definition ELIs64 :: "thread_ctx \<Rightarrow> exception_level \<Rightarrow> bool res" where
  "ELIs64 tc el = not_res (ELIs32 tc el)"

definition IsSecureEL2Enabled :: "thread_ctx \<Rightarrow> bool res" where
  "IsSecureEL2Enabled tc =
     bind_res (and_then (haveEL tc EL2 \<and> HaveSecureEL2Ext tc) (not_res (ELIs32 tc EL2))) (\<lambda>b.
       if b
       then if haveEL tc EL3
            then bind_res (ELIs32 tc EL3) (\<lambda>b32.
              Ok (\<not> b32 \<and> scr_eel2 (readMiscReg tc MISCREG_SCR_EL3)))
            else isSecure tc
       else Ok False)"

definition EL2Enabled :: "thread_ctx \<Rightarrow> bool res" where
  "EL2Enabled tc =
     and_then (haveEL tc EL2)
       (or_else (\<not> haveEL tc EL3 \<or> scr_ns (readMiscReg tc MISCREG_SCR_EL3)) (IsSecureEL2Enabled tc))"

definition ELIsInHost :: "thread_ctx \<Rightarrow> exception_level \<Rightarrow> bool res" where
  "ELIsInHost tc el =
     (let hcr = readMiscReg tc MISCREG_HCR_EL2
      in bind_res
           (and_then (haveEL tc EL2)
             (bind_res (IsSecureEL2Enabled tc) (\<lambda>b. Ok (b \<or> \<not> isSecureBelowEL3 tc)))) (\<lambda>b.
         bind_res (and_then (b \<and> HaveVirtHostExt tc) (not_res (ELIs32 tc EL2))) (\<lambda>b.
           Ok (b \<and> hcr_e2h hcr \<and> (el = EL2 \<or> el = EL0 \<and> hcr_tge hcr)))))"

definition s1TranslationRegime :: "thread_ctx \<Rightarrow> exception_level \<Rightarrow> exception_level res" where
  "s1TranslationRegime tc el =
     (if el \<noteq> EL0 then Ok el
      else bind_res (and_then (haveEL tc EL3) (ELIs32 tc EL3)) (\<lambda>b.
        if b \<and> \<not> scr_ns (readMiscReg tc MISCREG_SCR) then Ok EL3
        else bind_res (and_then (HaveVirtHostExt tc) (ELIsInHost tc el)) (\<lambda>b.
          Ok (if b then EL2 else EL1))))"

section \<open>Tagged addresses\<close>

definition tbi_top :: "bool \<Rightarrow> bool \<Rightarrow> bool \<Rightarrow> int" where
  "tbi_top tbi tbid isInstr = (if tbi \<and> (\<not> tbid \<or> \<not> isInstr) then 55 else 63)"

definition computeAddrTop :: "thread_ctx \<Rightarrow> bool \<Rightarrow> bool \<Rightarrow> 64 word \<Rightarrow> exception_level \<Rightarrow> int res" where
  "computeAddrTop tc selbit isInstr tcr el =
     bind_res (s1TranslationRegime tc el) (\<lambda>regime.
     bind_res (ELIs32 tc regime) (\<lambda>b32.
       if b32 then Ok 31
       else case regime of
         EL1 \<Rightarrow> Ok (tbi_top (if selbit then tcr_tbi1 tcr else tcr_tbi0 tcr)
                            (if selbit then tcr_tbid1 tcr else tcr_tbid0 tcr) isInstr)
       | EL2 \<Rightarrow>
           let tcr = readMiscReg tc MISCREG_TCR_EL2
           in bind_res (and_then (HaveVirtHostExt tc) (ELIsInHost tc el)) (\<lambda>host.
                Ok (if host
                    then tbi_top (if selbit then tcr_tbi1 tcr else tcr_tbi0 tcr)
                                 (if selbit then tcr_tbid1 tcr else tcr_tbid0 tcr) isInstr
                    else tbi_top (tcr_tbi tcr) (tcr_tbid tcr) isInstr))
       | EL3 \<Rightarrow>
           let tcr = readMiscReg tc MISCREG_TCR_EL3
           in Ok (tbi_top (tcr_tbi tcr) (tcr_tbid tcr) isInstr)
       | EL0 \<Rightarrow> Ok (tbi_top False False isInstr)))"

definition purifyTaggedAddr ::
    "addr \<Rightarrow> thread_ctx \<Rightarrow> exception_level \<Rightarrow> 64 word \<Rightarrow> bool \<Rightarrow> addr res" where
  "purifyTaggedAddr a tc el tcr isInstr =
     (let selbit = bit a 55
      in bind_res (computeAddrTop tc selbit isInstr tcr el) (\<lambda>topbit.
           if topbit = 63 then Ok a
           else bind_res (and_then selbit (or_else (el = EL1 \<or> el = EL0) (ELIsInHost tc el))) (\<lambda>b.
             if b then Ok (a OR NOT (push_bit (nat topbit) 1 - 1))
             else bits a topbit 0)))"

section \<open>The queries answer\<close>

lemmas mode_defs = MODE_USER_def MODE_FIQ_def MODE_IRQ_def MODE_SVC_def MODE_MON_def MODE_ABORT_def
  MODE_HYP_def MODE_UNDEFINED_def MODE_SYSTEM_def

lemma returns_and_then [returns_intros]: "(b \<Longrightarrow> returns k) \<Longrightarrow> returns (and_then b k)"
  by (simp add: and_then_def)

lemma returns_or_else [returns_intros]: "(\<not> b \<Longrightarrow> returns k) \<Longrightarrow> returns (or_else b k)"
  by (simp add: or_else_def)

lemma returns_not_res [returns_intros]: "returns k \<Longrightarrow> returns (not_res k)"
  by (simp add: not_res_def returns_intros)

lemma opModeToEL_known: "\<not> unknownMode mode \<Longrightarrow> returns (opModeToEL mode)"
  by (auto simp: unknownMode_def opModeToEL_def mode_defs Let_def)

lemma badMode_total: "returns (badMode tc mode)"
  unfolding badMode_def by (intro returns_intros opModeToEL_known)

lemma ELIs32_total [returns_intros]: "haveEL tc el \<Longrightarrow> el \<noteq> EL0 \<Longrightarrow> returns (ELIs32 tc el)"
  by (cases el) (auto simp: ELIs32_def ELUsingAArch32K_def ELStateUsingAArch32K_def Let_def)

lemma isSecure_no_EL3: "\<not> haveEL tc EL3 \<Longrightarrow> isSecure tc = Ok False"
  by (simp add: isSecure_def and_then_def isSecureBelowEL3_def Let_def)

lemma IsSecureEL2Enabled_total [returns_intros]: "returns (IsSecureEL2Enabled tc)"
  unfolding IsSecureEL2Enabled_def by (intro returns_intros) (auto simp: isSecure_no_EL3)

lemma ELIsInHost_total [returns_intros]: "returns (ELIsInHost tc el)"
  unfolding ELIsInHost_def Let_def by (intro returns_intros) (auto simp: and_then_def split: if_splits)

lemma ELIsInHost_EL2: "ELIsInHost tc el = Ok True \<Longrightarrow> haveEL tc EL2"
  by (auto simp: ELIsInHost_def and_then_def Let_def res_simps split: if_splits)

lemma s1TranslationRegime_total [returns_intros]:
  "haveEL tc el \<Longrightarrow> returns (s1TranslationRegime tc el)"
  unfolding s1TranslationRegime_def by (intro returns_intros) auto

lemma s1TranslationRegime_exists:
  assumes "s1TranslationRegime tc el = Ok r" "haveEL tc el"
  shows "haveEL tc r \<and> r \<noteq> EL0"
  using assms ELIsInHost_EL2 [of tc el]
  by (auto simp: s1TranslationRegime_def and_then_def res_simps split: if_splits)

lemma computeAddrTop_total [returns_intros]:
  assumes "haveEL tc el"
  shows "returns (computeAddrTop tc selbit isInstr tcr el)"
proof -
  have "returns (computeAddrTop tc selbit isInstr tcr el)" if "s1TranslationRegime tc el = Ok r" for r
    using s1TranslationRegime_exists [OF that assms] that
    by (cases r) (auto simp: computeAddrTop_def Let_def intro!: returns_intros)
  then show ?thesis using s1TranslationRegime_total [OF assms] by (auto elim: returnsE)
qed

lemma computeAddrTop_range:
  "computeAddrTop tc selbit isInstr tcr el = Ok t \<Longrightarrow> t = 31 \<or> t = 55 \<or> t = 63"
  by (auto simp: computeAddrTop_def tbi_top_def Let_def res_simps split: if_splits exception_level.splits)

section \<open>Purifying an address\<close>

lemma bits_top: "bits (a :: addr) 55 0 = Ok (take_bit 56 a)"
  by (simp add: bits_def bits_raw_def mask_n_def take_bit_eq_mask mask_eq_exp_minus_1)

text \<open>The value that purification gives an address whose tag is the byte above bit 55.\<close>

definition untag :: "bool \<Rightarrow> addr \<Rightarrow> addr" where
  "untag up a = (if bit a 55 \<and> up then a OR NOT (mask 55) else take_bit 56 a)"

lemma purify_untag:
  assumes "computeAddrTop tc (bit a 55) isInstr tcr el = Ok 55" "ELIsInHost tc el = Ok h"
  shows "purifyTaggedAddr a tc el tcr isInstr = Ok (untag (el = EL1 \<or> el = EL0 \<or> h) a)"
  using assms by (auto simp: purifyTaggedAddr_def untag_def and_then_def or_else_def bits_top mask_eq_exp_minus_1 Let_def)

lemma bit_untag: "bit (untag up a) n \<longleftrightarrow> n < 64 \<and> (if n < 56 then bit a n else bit a 55 \<and> up)"
proof -
  consider "n < 55" | "n = 55" | "56 \<le> n" by linarith
  then show ?thesis
    using bit_imp_le_length [of a n]
    by cases (auto simp: untag_def bit_or_iff bit_not_iff bit_mask_iff bit_take_bit_iff)
qed

lemma untag_low:
  assumes "take_bit 56 b = take_bit 56 a"
  shows "untag up b = untag up a" "bit b 55 = bit a 55"
proof -
  have low: "bit b n = bit a n" if "n < 56" for n
    using arg_cong [OF assms, of "\<lambda>w. bit w n"] that by (simp add: bit_take_bit_iff)
  then show "bit b 55 = bit a 55" by simp
  show "untag up b = untag up a" by (rule bit_word_eqI) (simp add: bit_untag low)
qed

lemma take_bit_untag: "take_bit 56 (untag up a) = take_bit 56 a"
  by (rule bit_word_eqI) (auto simp: bit_take_bit_iff bit_untag)

lemma purify_total [returns_intros]:
  assumes "haveEL tc el"
  shows "returns (purifyTaggedAddr a tc el tcr isInstr)"
  unfolding purifyTaggedAddr_def Let_def
  by (intro returns_intros assms) (auto dest: computeAddrTop_range simp: bits_def)

text \<open>The register state of a 64-bit thread in system-call emulation with top byte ignore on.\<close>

definition tc_se :: thread_ctx where
  "tc_se = \<lparr>readMiscReg = (\<lambda>r. 0), contextId = 0, FullSystem = False, sys_haveSecurity = False,
            sys_haveLPAE = False, sys_haveVirtualization = False, sys_highestELIs64 = True\<rparr>"

section \<open>Properties\<close>



end
