(* ===== verification/Sys_Alloc.thy ===== *)
theory Sys_Alloc
  imports Addr_Range
begin

text \<open>
  The physical page allocators of \<open>src/sim/system.cc\<close>, with the separate non-volatile memory window
  of this fork: \<open>allocPhysPages\<close> hands out pages from the bottom of physical memory and skips the
  window, \<open>allocNVMPhysPages\<close> hands out pages of the window, and the checkpoint functions save the
  allocator state. The page size is that of the ARM and x86 instruction sets (4 KiB).

  The lemmas show that the skipping loop ends, what it returns, that single-page allocations of
  both kinds never hand out a page twice and never leave their region, and where allocations of
  several pages and checkpoints break this.
\<close>

section \<open>Definitions\<close>

definition PageShift :: nat where
  "PageShift = 12"

definition PageBytes :: addr where
  "PageBytes = push_bit PageShift 1"

definition NVM_START_ADDR :: addr where
  "NVM_START_ADDR = 0x30000000"

definition NVM_END_ADDR :: addr where
  "NVM_END_ADDR = 0x50000000"

definition in_nvm :: "addr \<Rightarrow> bool" where
  "in_nvm a \<longleftrightarrow> a \<ge> NVM_START_ADDR \<and> a \<le> NVM_END_ADDR"

record sys_alloc =
  pagePtr :: addr
  pageNVMPtr :: addr

definition sys_alloc_init :: sys_alloc where
  "sys_alloc_init = \<lparr>pagePtr = 0, pageNVMPtr = 0\<rparr>"

text \<open>The range of the pseudo-instruction window, empty when it is disabled.\<close>

definition m5opRange :: "addr \<Rightarrow> addr_range" where
  "m5opRange m5ops_base = (if m5ops_base \<noteq> 0 then RangeSize m5ops_base 0x10000 else AddrRange 1 0)"

lemma shift_Suc: "push_bit 12 (p + 1) = push_bit 12 p + (4096 :: addr)"
  by (simp add: push_bit_eq_mult algebra_simps)

lemma in_nvm_unat: "in_nvm a \<longleftrightarrow> 0x30000000 \<le> unat a \<and> unat a \<le> 0x50000000"
  by (simp add: in_nvm_def NVM_START_ADDR_def NVM_END_ADDR_def word_le_nat_alt)

lemma unat_plus_page: "unat a \<le> 0x60000000 \<Longrightarrow> unat (a + 4096 :: addr) = unat a + 4096"
  by (simp add: unat_word_ariths)

text \<open>How many more rounds the skipping loop makes, at most.\<close>

definition skip_measure :: "addr \<times> addr \<Rightarrow> nat" where
  "skip_measure = (\<lambda>(ret, p). let a = push_bit PageShift p in
     if in_nvm a then 2 + (0x50000000 - unat a)
     else if in_nvm ret then (if in_nvm (push_bit PageShift (p + 1)) then 3 + 0x20000000 else 1)
     else 0)"

function skip_nvm :: "addr \<Rightarrow> addr \<Rightarrow> addr \<times> addr" where
  "skip_nvm return_addr p =
     (if in_nvm (push_bit PageShift p) \<or> in_nvm return_addr
      then skip_nvm (push_bit PageShift p) (p + 1)
      else (return_addr, p))"
  by pat_completeness auto

lemma skip_measure_less:
  assumes "in_nvm (push_bit PageShift p) \<or> in_nvm ret"
  shows "skip_measure (push_bit PageShift p, p + 1) < skip_measure (ret, p)"
proof -
  define a where "a = push_bit 12 p"
  have next1: "push_bit 12 (p + 1) = a + 4096" by (simp only: a_def shift_Suc)
  have next2: "push_bit 12 (p + 1 + 1) = a + 4096 + 4096" by (simp only: a_def shift_Suc)
  show ?thesis
  proof (cases "in_nvm a")
    case True
    then have b: "0x30000000 \<le> unat a" "unat a \<le> 0x50000000" by (simp_all add: in_nvm_unat)
    then have u: "unat (a + 4096) = unat a + 4096" by (intro unat_plus_page) simp
    then have u2: "unat (a + 4096 + 4096) = unat a + 8192" using b unat_plus_page [of "a + 4096"] by simp
    have l: "skip_measure (ret, p) = 2 + (0x50000000 - unat a)"
      using True by (simp add: skip_measure_def PageShift_def a_def [symmetric])
    show ?thesis
    proof (cases "in_nvm (a + 4096)")
      case T: True
      then have "unat a + 4096 \<le> 0x50000000" using u by (simp add: in_nvm_unat)
      moreover have "skip_measure (push_bit PageShift p, p + 1) = 2 + (0x50000000 - (unat a + 4096))"
        using T by (simp only: skip_measure_def PageShift_def next1 prod.case Let_def if_True u)
      ultimately show ?thesis unfolding l by simp
    next
      case F: False
      have "\<not> in_nvm (a + 4096 + 4096)" using F b unfolding in_nvm_unat u u2 by simp
      then have "skip_measure (push_bit PageShift p, p + 1) = 1"
        using F True
        by (simp only: skip_measure_def PageShift_def next1 next2 prod.case Let_def if_False if_True a_def [symmetric])
      then show ?thesis unfolding l by simp
    qed
  next
    case False
    then have ret: "in_nvm ret" using assms by (simp add: PageShift_def a_def)
    have l: "skip_measure (ret, p) = (if in_nvm (a + 4096) then 3 + 0x20000000 else 1)"
      using False ret
      by (simp only: skip_measure_def PageShift_def next1 prod.case Let_def if_False if_True a_def [symmetric])
    show ?thesis
    proof (cases "in_nvm (a + 4096)")
      case T: True
      then have "0x30000000 \<le> unat (a + 4096)" by (simp add: in_nvm_unat)
      moreover have "skip_measure (push_bit PageShift p, p + 1) = 2 + (0x50000000 - unat (a + 4096))"
        using T by (simp only: skip_measure_def PageShift_def next1 prod.case Let_def if_True)
      ultimately show ?thesis unfolding l using T by simp
    next
      case F: False
      have "skip_measure (push_bit PageShift p, p + 1) = 0"
        using F False
        by (simp only: skip_measure_def PageShift_def next1 prod.case Let_def if_False a_def [symmetric])
      then show ?thesis unfolding l using F by simp
    qed
  qed
qed

termination skip_nvm
  by (relation "measure skip_measure") (simp_all only: wf_measure in_measure skip_measure_less)

declare skip_nvm.simps [simp del]

definition allocPhysPages :: "addr \<Rightarrow> addr_range \<Rightarrow> sys_alloc \<Rightarrow> int \<Rightarrow> (sys_alloc \<times> addr) res" where
  "allocPhysPages totalSize m5op s npages =
     (let return_addr = push_bit PageShift (pagePtr s);
          (return_addr, p) = skip_nvm return_addr (pagePtr s + of_int npages);
          next_return_addr = push_bit PageShift p;
          (return_addr, p) =
            (if range_contains m5op next_return_addr then (0xffffffff, drop_bit PageShift 0xffffffff)
             else (return_addr, p))
      in if push_bit PageShift p > totalSize then Err Fatal
         else Ok (s\<lparr>pagePtr := p\<rparr>, return_addr))"

definition allocNVMPhysPages :: "sys_alloc \<Rightarrow> int \<Rightarrow> sys_alloc \<times> addr" where
  "allocNVMPhysPages s npages =
     (let return_addr = push_bit PageShift (pageNVMPtr s);
          return_addr = return_addr + NVM_START_ADDR
      in (s\<lparr>pageNVMPtr := pageNVMPtr s + of_int npages\<rparr>, return_addr))"

definition freeMemSize :: "addr \<Rightarrow> sys_alloc \<Rightarrow> addr" where
  "freeMemSize totalSize s = totalSize - push_bit PageShift (pagePtr s)"

text \<open>
  The part of a checkpoint that the allocators read: \<open>serialize\<close> writes \<open>pagePtr\<close>, and
  \<open>unserialize\<close> reads it into a freshly constructed system.
\<close>

record sys_checkpoint =
  cp_pagePtr :: addr

definition sys_serialize :: "sys_alloc \<Rightarrow> sys_checkpoint" where
  "sys_serialize s = \<lparr>cp_pagePtr = pagePtr s\<rparr>"

definition sys_unserialize :: "sys_alloc \<Rightarrow> sys_checkpoint \<Rightarrow> sys_alloc" where
  "sys_unserialize s cp = s\<lparr>pagePtr := cp_pagePtr cp\<rparr>"

text \<open>An allocator of single pages, its used pages and the region it serves.\<close>

fun alloc_seq :: "('s \<Rightarrow> ('s \<times> addr) res) \<Rightarrow> nat \<Rightarrow> 's \<Rightarrow> ('s \<times> addr list) res" where
  "alloc_seq alloc 0 s = Ok (s, [])"
| "alloc_seq alloc (Suc n) s =
     bind_res (alloc s) (\<lambda>(s', a). bind_res (alloc_seq alloc n s') (\<lambda>(s'', as). Ok (s'', a # as)))"

text \<open>Pages whose every byte lies outside, or inside, the window.\<close>

definition page_at :: "addr \<Rightarrow> addr set" where
  "page_at a = {b. unat a \<le> unat b \<and> unat b < unat a + 4096}"

definition dram_pages :: "addr set" where
  "dram_pages = {a. 4096 dvd unat a \<and> (\<forall>b\<in>page_at a. \<not> in_nvm b)}"

definition nvm_pages :: "addr set" where
  "nvm_pages = {a. 4096 dvd unat a \<and> (\<forall>b\<in>page_at a. in_nvm b)}"

definition dram_used :: "sys_alloc \<Rightarrow> addr set" where
  "dram_used s = {a. unat a < 4096 * unat (pagePtr s)}"

definition nvm_used :: "sys_alloc \<Rightarrow> addr set" where
  "nvm_used s = {a. in_nvm a \<and> unat a < 0x30000000 + 4096 * unat (pageNVMPtr s)}"

section \<open>The skipping loop\<close>

lemma unat_page: "unat (p :: addr) < 2 ^ 52 \<Longrightarrow> unat (push_bit PageShift p) = 4096 * unat p"
  by (simp add: PageShift_def push_bit_eq_mult unat_word_ariths)

lemma skip_nvm_out:
  "skip_nvm ret p = (ret', p') \<Longrightarrow> \<not> in_nvm ret' \<and> \<not> in_nvm (push_bit PageShift p')"
proof (induction ret p rule: skip_nvm.induct)
  case (1 ret p)
  then show ?case by (cases "in_nvm (push_bit PageShift p) \<or> in_nvm ret") (auto simp: skip_nvm.simps [of ret p])
qed

lemma skip_nvm_done: "\<not> in_nvm (push_bit PageShift p) \<Longrightarrow> \<not> in_nvm ret \<Longrightarrow> skip_nvm ret p = (ret, p)"
  by (simp add: skip_nvm.simps)

lemma skip_nvm_step:
  "in_nvm (push_bit PageShift p) \<or> in_nvm ret \<Longrightarrow> skip_nvm ret p = skip_nvm (push_bit PageShift p) (p + 1)"
  by (simp add: skip_nvm.simps [of ret p])

lemma skip_nvm_last: "skip_nvm 0x50000000 0x50001 = (0x50001000, 0x50002)"
proof -
  have "skip_nvm 0x50000000 0x50001 = skip_nvm (push_bit PageShift 0x50001) (0x50001 + 1)"
    by (rule skip_nvm_step) (simp add: in_nvm_def NVM_START_ADDR_def NVM_END_ADDR_def)
  also have "\<dots> = (push_bit PageShift 0x50001, 0x50001 + 1)"
    by (rule skip_nvm_done) (simp_all add: in_nvm_def NVM_START_ADDR_def NVM_END_ADDR_def PageShift_def)
  finally show ?thesis by (simp add: PageShift_def)
qed

text \<open>From inside the window the loop always ends two pages past its end.\<close>

lemma skip_nvm_inside:
  assumes "0x30000 \<le> unat p" "unat p \<le> 0x50000"
  shows "skip_nvm ret p = (0x50001000, 0x50002)"
  using assms
proof (induction "0x50000 - unat p" arbitrary: ret p rule: less_induct)
  case less
  have u: "unat (push_bit PageShift p) = 4096 * unat p" using less.prems by (intro unat_page) simp
  then have "in_nvm (push_bit PageShift p)" using less.prems by (simp add: in_nvm_unat)
  then have step: "skip_nvm ret p = skip_nvm (push_bit PageShift p) (p + 1)" by (simp add: skip_nvm_step)
  have p1: "unat (p + 1) = unat p + 1" using less.prems(2) by (simp add: unat_word_ariths)
  show ?case
  proof (cases "unat p = 0x50000")
    case True
    then have "p = 0x50000" by (intro unsigned_word_eqI) simp
    then show ?thesis unfolding step using skip_nvm_last by (simp add: PageShift_def)
  next
    case False
    then show ?thesis unfolding step using less.prems less.hyps [of "p + 1"] p1 by simp
  qed
qed

text \<open>One page: the address returned is the page below the new pointer, and the pointer moves up.\<close>

lemma skip_nvm_one:
  assumes p: "unat p < 2 ^ 51"
  obtains "skip_nvm (push_bit PageShift p) (p + 1) = (push_bit PageShift p, p + 1)"
  | "skip_nvm (push_bit PageShift p) (p + 1) = (push_bit PageShift 0x50001, 0x50002)" "unat p < 0x50001"
proof -
  have p1: "unat (p + 1) = unat p + 1" using p by (simp add: unat_word_ariths)
  have u: "unat (push_bit PageShift p) = 4096 * unat p" using p by (intro unat_page) simp
  have u1: "unat (push_bit PageShift (p + 1)) = 4096 * (unat p + 1)"
    using p unat_page [of "p + 1"] p1 by simp
  show thesis
  proof (cases "in_nvm (push_bit PageShift (p + 1))")
    case True
    then have b: "0x30000 \<le> unat (p + 1)" "unat (p + 1) \<le> 0x50000"
      unfolding in_nvm_unat u1 p1 by simp_all
    then show thesis using skip_nvm_inside [OF b] p1 by (intro that(2)) (simp_all add: PageShift_def)
  next
    case nxt: False
    show thesis
    proof (cases "in_nvm (push_bit PageShift p)")
      case True
      then have "unat p = 0x50000" using nxt unfolding in_nvm_unat u u1 by auto
      then have "p = 0x50000" by (intro unsigned_word_eqI) simp
      then show thesis using skip_nvm_last by (intro that(2)) (simp_all add: PageShift_def)
    next
      case False
      then show thesis using nxt by (intro that(1) skip_nvm_done)
    qed
  qed
qed

section \<open>Single pages\<close>

locale page_source =
  fixes alloc :: "'s \<Rightarrow> ('s \<times> addr) res"
    and good :: "'s \<Rightarrow> bool"
    and room :: "'s \<Rightarrow> nat"
    and used :: "'s \<Rightarrow> addr set"
    and region :: "addr set"
  assumes alloc_page: "good s \<Longrightarrow> 0 < room s \<Longrightarrow> alloc s = Ok (s', a) \<Longrightarrow>
      good s' \<and> room s \<le> Suc (room s') \<and> a \<in> region \<and> a \<notin> used s \<and> insert a (used s) \<subseteq> used s'"
begin

lemma alloc_seq_pages:
  "good s \<Longrightarrow> n \<le> room s \<Longrightarrow> alloc_seq alloc n s = Ok (s', as) \<Longrightarrow>
     good s' \<and> length as = n \<and> distinct as \<and> set as \<subseteq> region \<and> set as \<inter> used s = {} \<and>
     set as \<union> used s \<subseteq> used s'"
proof (induction n arbitrary: s as)
  case (Suc n)
  obtain s1 a as1 where a: "alloc s = Ok (s1, a)" and rest: "alloc_seq alloc n s1 = Ok (s', as1)"
    and as: "as = a # as1"
    using Suc.prems(3) unfolding alloc_seq.simps bind_res_eq_Ok by (auto simp: bind_res_eq_Ok)
  have s1: "good s1" "room s \<le> Suc (room s1)" "a \<in> region" "a \<notin> used s" "insert a (used s) \<subseteq> used s1"
    using alloc_page [OF Suc.prems(1) _ a] Suc.prems(2) by auto
  have "n \<le> room s1" using Suc.prems(2) s1(2) by simp
  from Suc.IH [OF s1(1) this rest] show ?case using s1 as by auto
qed simp

end

lemma not_in_nvm_page: "4096 dvd unat a \<Longrightarrow> \<not> in_nvm a \<Longrightarrow> a \<in> dram_pages"
  unfolding dram_pages_def page_at_def in_nvm_unat by (auto elim!: dvdE) 

lemma m5opRange_disabled: "\<not> range_contains (m5opRange 0) a"
  by (simp add: m5opRange_def)

lemma alloc_no_m5op:
  assumes "skip_nvm (push_bit PageShift (pagePtr s)) (pagePtr s + of_int n) = (ret, p)"
  shows "allocPhysPages tsz (m5opRange 0) s n =
    (if push_bit PageShift p > tsz then Err Fatal else Ok (s\<lparr>pagePtr := p\<rparr>, ret))"
  by (simp add: allocPhysPages_def assms m5opRange_disabled)

lemma dram_alloc_page:
  assumes good: "unat (pagePtr s) < 2 ^ 51" "unat tsz < 2 ^ 63"
    and a: "allocPhysPages tsz (m5opRange 0) s 1 = Ok (s', a)"
  obtains p' where "s' = s\<lparr>pagePtr := p'\<rparr>" "unat p' < 2 ^ 51" "unat (pagePtr s) < unat p'"
    "unat a = 4096 * (unat p' - 1)" "a \<in> dram_pages"
proof -
  let ?p = "pagePtr s"
  have p1: "unat (?p + 1) = unat ?p + 1" using good(1) by (simp add: unat_word_ariths)
  obtain ret p' where sk: "skip_nvm (push_bit PageShift ?p) (?p + 1) = (ret, p')" by fastforce
  have out: "\<not> in_nvm ret" using skip_nvm_out [OF sk] by blast
  have ret: "unat ret = 4096 * (unat p' - 1) \<and> unat ?p < unat p' \<and> unat p' < 2 ^ 52"
  proof (rule skip_nvm_one [OF good(1)])
    assume "skip_nvm (push_bit PageShift ?p) (?p + 1) = (push_bit PageShift ?p, ?p + 1)"
    then show ?thesis using sk p1 good(1) unat_page [of ?p] by simp
  next
    assume "skip_nvm (push_bit PageShift ?p) (?p + 1) = (push_bit PageShift 0x50001, 0x50002)" "unat ?p < 0x50001"
    then show ?thesis using sk by (auto simp: PageShift_def)
  qed
  have "\<not> push_bit PageShift p' > tsz" and s': "s' = s\<lparr>pagePtr := p'\<rparr>" "a = ret"
    using a alloc_no_m5op [of s 1 ret p' tsz] sk by (auto split: if_split_asm)
  then have "unat (push_bit PageShift p') \<le> unat tsz" by (simp add: not_less word_le_nat_alt)
  then have "unat p' < 2 ^ 51" using good(2) unat_page [of p'] ret by simp
  moreover have "a \<in> dram_pages" using out s'(2) ret by (intro not_in_nvm_page) simp_all
  ultimately show thesis using s' ret by (intro that) simp_all
qed

interpretation dram: page_source "\<lambda>s. allocPhysPages tsz (m5opRange 0) s 1"
  "\<lambda>s. unat (pagePtr s) < 2 ^ 51 \<and> unat tsz < 2 ^ 63" "\<lambda>_. N" dram_used dram_pages for tsz N
proof (unfold_locales, goal_cases)
  case (1 s s' a)
  then have g: "unat (pagePtr s) < 2 ^ 51" "unat tsz < 2 ^ 63" by simp_all
  show ?case by (rule dram_alloc_page [OF g 1(3)]) (use g in \<open>auto simp: dram_used_def\<close>)
qed

interpretation nvm: page_source "\<lambda>s. Ok (allocNVMPhysPages s 1)"
  "\<lambda>s. unat (pageNVMPtr s) \<le> 0x20000" "\<lambda>s. 0x20000 - unat (pageNVMPtr s)" nvm_used nvm_pages
proof (unfold_locales, goal_cases)
  case (1 s s' a)
  define q where "q = pageNVMPtr s"
  have q: "unat q < 0x20000" using 1(2) by (simp add: q_def)
  have s': "s' = s\<lparr>pageNVMPtr := q + 1\<rparr>" and a: "a = push_bit PageShift q + NVM_START_ADDR"
    using 1(3) by (auto simp: allocNVMPhysPages_def q_def)
  have q1: "unat (q + 1) = unat q + 1" using q by (simp add: unat_word_ariths)
  have "unat (push_bit PageShift q) = 4096 * unat q" using q by (intro unat_page) simp
  then have ua: "unat a = 0x30000000 + 4096 * unat q"
    using q unfolding a by (simp add: unat_word_ariths NVM_START_ADDR_def)
  have "unat a = 4096 * (0x30000 + unat q)" using ua by simp
  then have "4096 dvd unat a" by (simp only: dvd_triv_left)
  then have "a \<in> nvm_pages" using q ua by (auto simp: nvm_pages_def page_at_def in_nvm_unat)
  then show ?case using q q1 ua s' by (auto simp: nvm_used_def in_nvm_unat q_def [symmetric])
qed

section \<open>Properties\<close>

text \<open>
  Also: the loop that skips the window ends for every start; what it
  returns and the address of the new page pointer lie outside the window; and from a page inside
  the window it always ends with the second page past the end of the window.
\<close>

theorem nvm_window_skipped:
  "\<exists>ret' p'. skip_nvm ret p = (ret', p') \<and> \<not> in_nvm ret' \<and> \<not> in_nvm (push_bit PageShift p') \<and>
     (0x30000 \<le> unat p \<and> unat p \<le> 0x50000 \<longrightarrow> ret' = 0x50001000 \<and> p' = 0x50002)"
proof (cases "skip_nvm ret p")
  case (Pair ret' p')
  then show ?thesis using skip_nvm_out [OF Pair] skip_nvm_inside [of p ret] by auto
qed

theorem nvm_window_skipped_witness: "skip_nvm 0x2ffff000 0x30000 = (0x50001000, 0x50002)"
  using nvm_window_skipped [of "0x2ffff000" "0x30000"] by auto


lemma dram_two_pages:
  "alloc_seq (\<lambda>s. allocPhysPages 0x80000000 (m5opRange 0) s 1) (Suc (Suc 0)) sys_alloc_init =
     Ok (\<lparr>pagePtr = 2, pageNVMPtr = 0\<rparr>, [0, 4096])"
proof -
  have "skip_nvm 0 1 = (0, 1)" "skip_nvm 4096 2 = (4096, 2)"
    by (rule skip_nvm_done; simp add: in_nvm_def NVM_START_ADDR_def PageShift_def)+
  then show ?thesis
    by (simp add: allocPhysPages_def m5opRange_disabled PageShift_def sys_alloc_init_def)
qed


text \<open>
  C28: as long as at most \<open>0x20000\<close> pages are taken in all, single-page
  allocations from the window return pairwise different pages that were not in use and every byte
  of which lies in the window.
\<close>

theorem nvm_pages_fresh:
  assumes "unat (pageNVMPtr s) + n \<le> 0x20000"
    and "alloc_seq (\<lambda>s. Ok (allocNVMPhysPages s 1)) n s = Ok (s', as)"
  shows "length as = n \<and> distinct as \<and> set as \<inter> nvm_used s = {} \<and>
     (\<forall>a\<in>set as. 4096 dvd unat a \<and> (\<forall>b\<in>page_at a. in_nvm b))"
proof -
  have "unat (pageNVMPtr s) \<le> 0x20000" "n \<le> 0x20000 - unat (pageNVMPtr s)" using assms(1) by simp_all
  from nvm.alloc_seq_pages [OF this assms(2)] show ?thesis by (auto simp: nvm_pages_def)
qed

theorem nvm_pages_fresh_witness:
  "distinct [0x30000000, 0x30001000 :: addr] \<and> page_at 0x30001000 \<subseteq> Collect in_nvm"
proof -
  have "unat (pageNVMPtr sys_alloc_init) + Suc (Suc 0) \<le> 0x20000" by (simp add: sys_alloc_init_def)
  moreover have "alloc_seq (\<lambda>s. Ok (allocNVMPhysPages s 1)) (Suc (Suc 0)) sys_alloc_init =
      Ok (\<lparr>pagePtr = 0, pageNVMPtr = 2\<rparr>, [0x30000000, 0x30001000])"
    by (simp add: allocNVMPhysPages_def PageShift_def NVM_START_ADDR_def sys_alloc_init_def)
  ultimately show ?thesis using nvm_pages_fresh [of sys_alloc_init "Suc (Suc 0)"] by auto
qed

text \<open>
  Also: a four-page allocation that reaches the window returns the page
  after it with only one page reserved, so the next allocation returns a page inside the block.
\<close>

theorem multi_page_overlap:
  "\<exists>s1 s2 a b. allocPhysPages 0x80000000 (m5opRange 0) \<lparr>pagePtr = 0x2fffe, pageNVMPtr = 0\<rparr> 4 = Ok (s1, a) \<and>
     allocPhysPages 0x80000000 (m5opRange 0) s1 1 = Ok (s2, b) \<and>
     unat a < unat b \<and> unat b < unat a + 4 * 4096"
proof -
  let ?s = "\<lparr>pagePtr = 0x2fffe, pageNVMPtr = 0\<rparr>" and ?s1 = "\<lparr>pagePtr = 0x50002, pageNVMPtr = 0\<rparr>"
  have "skip_nvm (push_bit PageShift 0x2fffe) 0x30002 = (0x50001000, 0x50002)"
    by (rule skip_nvm_inside) simp_all
  then have "allocPhysPages 0x80000000 (m5opRange 0) ?s 4 = Ok (?s1, 0x50001000)"
    using alloc_no_m5op [of ?s 4 "0x50001000" "0x50002" "0x80000000"] by (simp add: PageShift_def)
  moreover have "skip_nvm (push_bit PageShift 0x50002) 0x50003 = (0x50002000, 0x50003)"
    by (subst skip_nvm_done) (simp_all add: in_nvm_def NVM_START_ADDR_def NVM_END_ADDR_def PageShift_def)
  then have "allocPhysPages 0x80000000 (m5opRange 0) ?s1 1 =
      Ok (\<lparr>pagePtr = 0x50003, pageNVMPtr = 0\<rparr>, 0x50002000)"
    using alloc_no_m5op [of ?s1 1 "0x50002000" "0x50003" "0x80000000"] by (simp add: PageShift_def)
  ultimately show ?thesis by (intro exI conjI) (assumption | simp)+
qed

text \<open>
  Also: only the first and the next address are compared with
  the window, so one large allocation can contain the whole window.
\<close>

theorem large_block_covers_window:
  "\<exists>s1 a. allocPhysPages 0x80000000 (m5opRange 0) \<lparr>pagePtr = 0x2ff00, pageNVMPtr = 0\<rparr> 0x20200 = Ok (s1, a) \<and>
     unat ` Collect in_nvm \<subseteq> {unat a ..< unat a + 0x20200 * 4096}"
proof -
  let ?s = "\<lparr>pagePtr = 0x2ff00, pageNVMPtr = 0\<rparr>"
  have "skip_nvm (push_bit PageShift 0x2ff00) 0x50100 = (0x2ff00000, 0x50100)"
    by (subst skip_nvm_done) (simp_all add: in_nvm_def NVM_START_ADDR_def NVM_END_ADDR_def PageShift_def)
  then have "allocPhysPages 0x80000000 (m5opRange 0) ?s 0x20200 =
      Ok (\<lparr>pagePtr = 0x50100, pageNVMPtr = 0\<rparr>, 0x2ff00000)"
    using alloc_no_m5op [of ?s "0x20200" "0x2ff00000" "0x50100" "0x80000000"] by (simp add: PageShift_def)
  moreover have "unat ` Collect in_nvm \<subseteq> {unat (0x2ff00000 :: addr) ..< unat (0x2ff00000 :: addr) + 0x20200 * 4096}"
    by (auto simp: in_nvm_unat)
  ultimately show ?thesis by blast
qed

text \<open>
  Also: a checkpoint restores the page pointer of ordinary
  memory but not that of the window, so after a restore the first page of the window that was
  handed out before the checkpoint is handed out again, for every state.
\<close>

theorem checkpoint_loses_nvm_pointer:
  "let s' = sys_unserialize sys_alloc_init (sys_serialize s)
   in pagePtr s' = pagePtr s \<and> pageNVMPtr s' = 0 \<and>
      snd (allocNVMPhysPages s' 1) = snd (allocNVMPhysPages sys_alloc_init 1)"
  by (simp add: sys_unserialize_def sys_serialize_def sys_alloc_init_def allocNVMPhysPages_def Let_def)

lemma nvm_seq_total:
  "\<exists>as. alloc_seq (\<lambda>s. Ok (allocNVMPhysPages s 1)) n s = Ok (s\<lparr>pageNVMPtr := pageNVMPtr s + of_nat n\<rparr>, as)"
proof (induction n arbitrary: s)
  case (Suc n)
  obtain a where a: "allocNVMPhysPages s 1 = (s\<lparr>pageNVMPtr := pageNVMPtr s + 1\<rparr>, a)" by (simp add: allocNVMPhysPages_def)
  show ?case using Suc.IH [of "s\<lparr>pageNVMPtr := pageNVMPtr s + 1\<rparr>"] a by (auto simp: algebra_simps)
qed simp

text \<open>
  C29. The allocator of NVM pages has no upper bound. After \<open>0x20001\<close> pages it leaves
  the window, and the frame it hands out next is the one the allocator of DRAM pages continues with after the window.
\<close>

theorem nvm_exhaustion_aliases_dram:
  assumes "pagePtr s = 0x2ffff" "pageNVMPtr s = 0"
  shows "\<exists>s1 as s2 s3. alloc_seq (\<lambda>s. Ok (allocNVMPhysPages s 1)) 0x20001 s = Ok (s1, as) \<and>
    allocNVMPhysPages s1 1 = (s2, 0x50001000) \<and> \<not> in_nvm 0x50001000 \<and>
    allocPhysPages 0x80000000 (m5opRange 0) s2 1 = Ok (s3, 0x50001000)"
proof -
  let ?s1 = "s\<lparr>pageNVMPtr := 0x20001\<rparr>" and ?s2 = "s\<lparr>pageNVMPtr := 0x20002\<rparr>"
  obtain as where as: "alloc_seq (\<lambda>s. Ok (allocNVMPhysPages s 1)) 0x20001 s = Ok (?s1, as)"
    using nvm_seq_total [of "0x20001" s] assms(2) by auto
  have n: "allocNVMPhysPages ?s1 1 = (?s2, 0x50001000)"
    by (simp add: allocNVMPhysPages_def PageShift_def NVM_START_ADDR_def)
  have "skip_nvm (push_bit PageShift 0x2ffff) 0x30000 = (0x50001000, 0x50002)" by (rule skip_nvm_inside) simp_all
  then have d: "allocPhysPages 0x80000000 (m5opRange 0) ?s2 1 = Ok (?s2\<lparr>pagePtr := 0x50002\<rparr>, 0x50001000)"
    using alloc_no_m5op [of ?s2 1 "0x50001000" "0x50002" "0x80000000"] assms(1) by (simp add: PageShift_def)
  have "\<not> in_nvm 0x50001000" by (simp add: in_nvm_unat)
  with as n d show ?thesis by (intro exI conjI)
qed

theorem nvm_exhaustion_aliases_dram_witness:
  "\<exists>s1 as s2 s3. alloc_seq (\<lambda>s. Ok (allocNVMPhysPages s 1)) 0x20001 \<lparr>pagePtr = 0x2ffff, pageNVMPtr = 0\<rparr> = Ok (s1, as) \<and>
    allocNVMPhysPages s1 1 = (s2, 0x50001000) \<and> \<not> in_nvm 0x50001000 \<and>
    allocPhysPages 0x80000000 (m5opRange 0) s2 1 = Ok (s3, 0x50001000)"
  by (rule nvm_exhaustion_aliases_dram) simp_all

end
