(* ===== verification/Arm_TLB.thy ===== *)
theory Arm_TLB
  imports Arm_State Sys_Alloc "HOL-Library.Multiset"
begin

text \<open>
  The ARM TLB: its entries, \<open>struct TlbEntry\<close> of \<open>src/arch/arm/pagetable.hh\<close>, and its table with
  lookup, insertion and the flush operations, \<open>src/arch/arm/tlb.cc\<close>. The lemmas show what a lookup
  returns and that it only reorders the table, that an inserted entry is found, that every flush
  operation removes exactly the entries it names and that the flush loops end.
\<close>

unbundle bit_operations_syntax

section \<open>Entries\<close>

datatype lookup_level = L0 | L1 | L2 | L3

datatype memory_type = StronglyOrdered | Device | Normal

text \<open>Domains are numbers of 8 bits; the first four have names.\<close>

type_synonym domain_type = "8 word"

definition NoAccess :: domain_type where "NoAccess = 0"
definition Client :: domain_type where "Client = 1"
definition Reserved :: domain_type where "Reserved = 2"
definition Manager :: domain_type where "Manager = 3"

text \<open>\<open>N\<close>, the number of page offset bits, is below 64 for every page size of the architecture.\<close>

record tlb_entry =
  te_pfn :: addr
  te_size :: addr
  te_vpn :: addr
  te_attributes :: "64 word"
  te_lookupLevel :: lookup_level
  te_asid :: "16 word"
  te_vmid :: "8 word"
  te_N :: "8 word"
  te_innerAttrs :: "8 word"
  te_outerAttrs :: "8 word"
  te_ap :: "8 word"
  te_hap :: "8 word"
  te_domain :: domain_type
  te_mtype :: memory_type
  te_longDescFormat :: bool
  te_isHyp :: bool
  te_global :: bool
  te_valid :: bool
  te_ns :: bool
  te_nstid :: bool
  te_el :: exception_level
  te_nonCacheable :: bool
  te_shareable :: bool
  te_outerShareable :: bool
  te_xn :: bool
  te_pxn :: bool

definition TlbEntry :: tlb_entry where
  "TlbEntry =
     \<lparr>te_pfn = 0, te_size = 0, te_vpn = 0, te_attributes = 0, te_lookupLevel = L1, te_asid = 0,
      te_vmid = 0, te_N = 0, te_innerAttrs = 0, te_outerAttrs = 0, te_ap = 0, te_hap = 3,
      te_domain = Client, te_mtype = StronglyOrdered, te_longDescFormat = False, te_isHyp = False,
      te_global = False, te_valid = False, te_ns = True, te_nstid = True, te_el = EL0,
      te_nonCacheable = False, te_shareable = False, te_outerShareable = False, te_xn = False,
      te_pxn = False\<rparr>"

definition TlbEntry_SE :: "addr \<Rightarrow> addr \<Rightarrow> addr \<Rightarrow> bool \<Rightarrow> bool \<Rightarrow> tlb_entry" where
  "TlbEntry_SE asn vaddr paddr uncacheable read_only =
     \<lparr>te_pfn = drop_bit PageShift paddr, te_size = PageBytes - 1, te_vpn = drop_bit PageShift vaddr,
      te_attributes = 0, te_lookupLevel = L1, te_asid = ucast asn,
      te_vmid = 0, te_N = 0, te_innerAttrs = 0, te_outerAttrs = 0,
      te_ap = (if read_only then 3 else 0), te_hap = 3,
      te_domain = Client, te_mtype = StronglyOrdered, te_longDescFormat = False, te_isHyp = False,
      te_global = False, te_valid = True, te_ns = True, te_nstid = True, te_el = EL0,
      te_nonCacheable = uncacheable, te_shareable = False, te_outerShareable = False, te_xn = False,
      te_pxn = False\<rparr>"

definition updateVaddr :: "addr \<Rightarrow> tlb_entry \<Rightarrow> tlb_entry" where
  "updateVaddr new_vaddr e = e\<lparr>te_vpn := drop_bit PageShift new_vaddr\<rparr>"

definition pageStart :: "tlb_entry \<Rightarrow> addr" where
  "pageStart e = push_bit PageShift (te_pfn e)"

fun checkELMatch :: "tlb_entry \<Rightarrow> exception_level \<Rightarrow> bool \<Rightarrow> bool" where
  "checkELMatch e EL3 in_host \<longleftrightarrow> te_el e = EL3"
| "checkELMatch e EL2 in_host \<longleftrightarrow> te_el e = EL2 \<or> te_el e = EL0 \<and> in_host"
| "checkELMatch e EL1 in_host \<longleftrightarrow> te_el e = EL0 \<or> te_el e = EL1"
| "checkELMatch e EL0 in_host \<longleftrightarrow> te_el e = EL0 \<or> te_el e = EL1"

definition te_match ::
    "addr \<Rightarrow> 16 word \<Rightarrow> 8 word \<Rightarrow> bool \<Rightarrow> bool \<Rightarrow> bool \<Rightarrow> exception_level \<Rightarrow> bool \<Rightarrow> tlb_entry \<Rightarrow> bool" where
  "te_match va asn vmid hypLookUp secure_lookup ignore_asn target_el in_host e =
     (let v = push_bit (unat (te_N e)) (te_vpn e)
      in if te_valid e \<and> va \<ge> v \<and> va \<le> v + te_size e \<and> (secure_lookup \<longleftrightarrow> \<not> te_nstid e) \<and>
            (hypLookUp \<longleftrightarrow> te_isHyp e)
         then let m = checkELMatch e target_el in_host;
                  m = (if m \<and> \<not> ignore_asn then te_global e \<or> asn = te_asid e else m)
              in if m \<and> te_nstid e then te_isHyp e \<or> vmid = te_vmid e else m
         else False)"

definition te_match_any ::
    "addr \<Rightarrow> 8 word \<Rightarrow> bool \<Rightarrow> bool \<Rightarrow> exception_level \<Rightarrow> bool \<Rightarrow> tlb_entry \<Rightarrow> bool" where
  "te_match_any va vmid hypLookUp secure_lookup target_el in_host e =
     te_match va 0 vmid hypLookUp secure_lookup True target_el in_host e"

definition pAddr :: "tlb_entry \<Rightarrow> addr \<Rightarrow> addr" where
  "pAddr e va = (push_bit (unat (te_N e)) (te_pfn e) OR (va AND te_size e))"

definition updateAttributes :: "tlb_entry \<Rightarrow> tlb_entry" where
  "updateAttributes e =
     (let (newBits, msk) =
        (if te_attributes e AND push_bit 11 1 \<noteq> 0
         then (push_bit 7 (if te_outerShareable e then 2 else if te_shareable e then 3 else 0), 0x180)
         else (push_bit 10 (if te_outerShareable e then 0 else 1) OR push_bit 7 (if te_shareable e then 1 else 0)
                OR push_bit 4 (ucast (te_innerAttrs e)) OR push_bit 2 (ucast (te_outerAttrs e)), 0x4FC));
        newBits = newBits OR push_bit 9 (if te_ns e then 1 else 0);
        msk = msk OR push_bit 9 1
      in e\<lparr>te_attributes := (te_attributes e AND NOT msk) OR newBits\<rparr>)"

definition setAttributes :: "bool \<Rightarrow> tlb_entry \<Rightarrow> tlb_entry" where
  "setAttributes lpae e = updateAttributes (e\<lparr>te_attributes := (if lpae then push_bit 11 1 else 0)\<rparr>)"

record te_checkpoint =
  cp_longDescFormat :: bool
  cp_pfn :: addr
  cp_size :: addr
  cp_vpn :: addr
  cp_asid :: "16 word"
  cp_vmid :: "8 word"
  cp_isHyp :: bool
  cp_N :: "8 word"
  cp_global :: bool
  cp_valid :: bool
  cp_ns :: bool
  cp_nstid :: bool
  cp_nonCacheable :: bool
  cp_lookupLevel :: lookup_level
  cp_mtype :: memory_type
  cp_innerAttrs :: "8 word"
  cp_outerAttrs :: "8 word"
  cp_shareable :: bool
  cp_outerShareable :: bool
  cp_attributes :: "64 word"
  cp_xn :: bool
  cp_pxn :: bool
  cp_ap :: "8 word"
  cp_hap :: "8 word"
  cp_domain :: domain_type

definition te_serialize :: "tlb_entry \<Rightarrow> te_checkpoint" where
  "te_serialize e =
     \<lparr>cp_longDescFormat = te_longDescFormat e, cp_pfn = te_pfn e, cp_size = te_size e,
      cp_vpn = te_vpn e, cp_asid = te_asid e, cp_vmid = te_vmid e, cp_isHyp = te_isHyp e,
      cp_N = te_N e, cp_global = te_global e, cp_valid = te_valid e, cp_ns = te_ns e,
      cp_nstid = te_nstid e, cp_nonCacheable = te_nonCacheable e,
      cp_lookupLevel = te_lookupLevel e, cp_mtype = te_mtype e, cp_innerAttrs = te_innerAttrs e,
      cp_outerAttrs = te_outerAttrs e, cp_shareable = te_shareable e,
      cp_outerShareable = te_outerShareable e, cp_attributes = te_attributes e, cp_xn = te_xn e,
      cp_pxn = te_pxn e, cp_ap = te_ap e, cp_hap = te_hap e, cp_domain = te_domain e\<rparr>"

definition te_unserialize :: "te_checkpoint \<Rightarrow> tlb_entry \<Rightarrow> tlb_entry" where
  "te_unserialize cp e =
     e\<lparr>te_longDescFormat := cp_longDescFormat cp, te_pfn := cp_pfn cp, te_size := cp_size cp,
       te_vpn := cp_vpn cp, te_asid := cp_asid cp, te_vmid := cp_vmid cp, te_isHyp := cp_isHyp cp,
       te_N := cp_N cp, te_global := cp_global cp, te_valid := cp_valid cp, te_ns := cp_ns cp,
       te_nstid := cp_nstid cp, te_nonCacheable := cp_nonCacheable cp,
       te_lookupLevel := cp_lookupLevel cp, te_mtype := cp_mtype cp,
       te_innerAttrs := cp_innerAttrs cp, te_outerAttrs := cp_outerAttrs cp,
       te_shareable := cp_shareable cp, te_outerShareable := cp_outerShareable cp,
       te_attributes := cp_attributes cp, te_xn := cp_xn cp, te_pxn := cp_pxn cp,
       te_ap := cp_ap cp, te_hap := cp_hap cp, te_domain := cp_domain cp\<rparr>"

section \<open>The table\<close>

text \<open>
  The table is an array of \<open>size\<close> entries kept in order of use, the most recent first. A lookup
  returns the position of the hit in the new table. \<open>shift_down\<close> is the loop that moves the
  entries before position \<open>x\<close> one place towards the end.
\<close>

definition rangeMRU :: nat where
  "rangeMRU = 1"

fun shift_down :: "nat \<Rightarrow> tlb_entry list \<Rightarrow> tlb_entry list" where
  "shift_down 0 tab = tab"
| "shift_down (Suc i) tab = shift_down i (tab[Suc i := tab ! i])"

fun scan :: "(tlb_entry \<Rightarrow> bool) \<Rightarrow> nat \<Rightarrow> tlb_entry list \<Rightarrow> nat option" where
  "scan hit x [] = None"
| "scan hit x (e # es) = (if hit e then Some x else scan hit (Suc x) es)"

definition te_hit ::
    "addr \<Rightarrow> 16 word \<Rightarrow> 8 word \<Rightarrow> bool \<Rightarrow> bool \<Rightarrow> bool \<Rightarrow> exception_level \<Rightarrow> bool \<Rightarrow> tlb_entry \<Rightarrow> bool" where
  "te_hit va asn vmid hyp secure ignore_asn target_el in_host e \<longleftrightarrow>
     \<not> ignore_asn \<and> te_match va asn vmid hyp secure False target_el in_host e \<or>
     ignore_asn \<and> te_match_any va vmid hyp secure target_el in_host e"

definition lookup_tab :: "(tlb_entry \<Rightarrow> bool) \<Rightarrow> bool \<Rightarrow> tlb_entry list \<Rightarrow> tlb_entry list \<times> nat option" where
  "lookup_tab hit functional tab =
     (case scan hit 0 tab of
        None \<Rightarrow> (tab, None)
      | Some x \<Rightarrow>
          if x > rangeMRU \<and> \<not> functional
          then ((shift_down x tab)[0 := tab ! x], Some 0)
          else (tab, Some x))"

definition tlb_lookup ::
    "addr \<Rightarrow> 16 word \<Rightarrow> 8 word \<Rightarrow> bool \<Rightarrow> bool \<Rightarrow> bool \<Rightarrow> bool \<Rightarrow> exception_level \<Rightarrow> bool
       \<Rightarrow> tlb_entry list \<Rightarrow> tlb_entry list \<times> nat option" where
  "tlb_lookup va asn vmid hyp secure functional ignore_asn target_el in_host tab =
     lookup_tab (te_hit va asn vmid hyp secure ignore_asn target_el in_host) functional tab"

definition tlb_insert :: "tlb_entry \<Rightarrow> tlb_entry list \<Rightarrow> tlb_entry list" where
  "tlb_insert entry tab = (shift_down (length tab - 1) tab)[0 := entry]"

section \<open>The TLB and its flush operations\<close>

text \<open>
  The fields of \<open>class TLB\<close>; the second group are the cached values of system registers, with
  registers as raw words. A first-stage TLB holds a pointer to the second-stage one.
\<close>

record arm_tlb =
  tab :: "tlb_entry list"
  isStage2 :: bool
  stage2Req :: bool
  stage2DescReq :: bool
  tlb_attr :: "64 word"
  directToStage2 :: bool
  t_cpsr :: "64 word"
  aarch64 :: bool
  aarch64EL :: exception_level
  t_sctlr :: "64 word"
  t_scr :: "64 word"
  isPriv :: bool
  t_isSecure :: bool
  isHyp :: bool
  t_ttbcr :: "64 word"
  t_asid :: "16 word"
  t_vmid :: "8 word"
  t_prrr :: "64 word"
  t_nmrr :: "64 word"
  t_hcr :: "64 word"
  t_dacr :: "64 word"
  miscRegValid :: bool
  miscRegContext :: int
  curTranType :: "32 word"
  t_haveLPAE :: bool
  t_haveVirtualization :: bool
  t_haveLargeAsid64 :: bool
  t_m5opRange :: addr_range

datatype tlb = Tlb arm_tlb "tlb option"

definition drop_valid :: "tlb_entry \<Rightarrow> tlb_entry" where
  "drop_valid e = e\<lparr>te_valid := False\<rparr>"

definition invalidate :: "(tlb_entry \<Rightarrow> bool) \<Rightarrow> tlb_entry list \<Rightarrow> tlb_entry list" where
  "invalidate sel t = map (\<lambda>e. if te_valid e \<and> sel e then drop_valid e else e) t"

definition sel_security :: "arm_tlb \<Rightarrow> bool \<Rightarrow> exception_level \<Rightarrow> bool \<Rightarrow> bool \<Rightarrow> tlb_entry \<Rightarrow> bool" where
  "sel_security u secure_lookup target_el ignore_el in_host e \<longleftrightarrow>
     (let el_match = (if ignore_el then True else checkELMatch e target_el in_host)
      in (secure_lookup \<longleftrightarrow> \<not> te_nstid e) \<and> (te_vmid e = t_vmid u \<or> secure_lookup) \<and> el_match)"

fun flushAllSecurity :: "bool \<Rightarrow> exception_level \<Rightarrow> bool \<Rightarrow> bool \<Rightarrow> tlb \<Rightarrow> tlb res" where
  "flushAllSecurity secure_lookup target_el ignore_el in_host (Tlb u s2) =
     (let u' = u\<lparr>tab := invalidate (sel_security u secure_lookup target_el ignore_el in_host) (tab u)\<rparr>
      in if \<not> isStage2 u \<and> isHyp u
         then case s2 of
                None \<Rightarrow> Err Undefined
              | Some t \<Rightarrow> bind_res (flushAllSecurity secure_lookup EL1 True False t) (\<lambda>t. Ok (Tlb u' (Some t)))
         else Ok (Tlb u' s2))"

definition sel_ns :: "exception_level \<Rightarrow> bool \<Rightarrow> tlb_entry \<Rightarrow> bool" where
  "sel_ns target_el ignore_el e \<longleftrightarrow>
     (let hyp = (target_el = EL2);
          el_match = (if ignore_el then True else checkELMatch e target_el False)
      in te_nstid e \<and> (te_isHyp e \<longleftrightarrow> hyp) \<and> el_match)"

fun flushAllNs :: "exception_level \<Rightarrow> bool \<Rightarrow> tlb \<Rightarrow> tlb res" where
  "flushAllNs target_el ignore_el (Tlb u s2) =
     (let hyp = (target_el = EL2);
          u' = u\<lparr>tab := invalidate (sel_ns target_el ignore_el) (tab u)\<rparr>
      in if \<not> isStage2 u \<and> \<not> hyp
         then case s2 of
                None \<Rightarrow> Err Undefined
              | Some t \<Rightarrow> bind_res (flushAllNs EL1 True t) (\<lambda>t. Ok (Tlb u' (Some t)))
         else Ok (Tlb u' s2))"

definition flushAll :: "tlb \<Rightarrow> tlb res" where
  "flushAll t = bind_res (flushAllSecurity False EL0 True False t) (flushAllSecurity True EL0 True False)"

definition sel_asid :: "arm_tlb \<Rightarrow> 64 word \<Rightarrow> bool \<Rightarrow> exception_level \<Rightarrow> bool \<Rightarrow> tlb_entry \<Rightarrow> bool" where
  "sel_asid u asn secure_lookup target_el in_host e \<longleftrightarrow>
     ucast (te_asid e) = asn \<and> (secure_lookup \<longleftrightarrow> \<not> te_nstid e) \<and>
     (te_vmid e = t_vmid u \<or> secure_lookup) \<and> checkELMatch e target_el in_host"

definition flushAsid :: "64 word \<Rightarrow> bool \<Rightarrow> exception_level \<Rightarrow> bool \<Rightarrow> arm_tlb \<Rightarrow> arm_tlb" where
  "flushAsid asn secure_lookup target_el in_host u =
     u\<lparr>tab := invalidate (sel_asid u asn secure_lookup target_el in_host) (tab u)\<rparr>"

lemma scan_SomeD: "scan hit x es = Some n \<Longrightarrow> x \<le> n \<and> n - x < length es \<and> hit (es ! (n - x))"
proof (induction hit x es rule: scan.induct)
  case (2 hit x e es)
  then show ?case
    by (cases "hit e") (auto simp: nth_Cons' Suc_diff_le split: if_splits)
qed simp

fun takeOverFrom :: "tlb \<Rightarrow> tlb \<Rightarrow> tlb" where
  "takeOverFrom (Tlb u s2) (Tlb old o2) =
     (let u' = u\<lparr>tlb_attr := tlb_attr old, t_haveLPAE := t_haveLPAE old, directToStage2 := directToStage2 old,
                stage2Req := stage2Req old, stage2DescReq := stage2DescReq old\<rparr>
      in if \<not> isStage2 u
         then case (s2, o2) of
                (Some t, Some p) \<Rightarrow> Tlb u' (Some (takeOverFrom t p))
              | _ \<Rightarrow> Tlb u' s2
         else Tlb u' s2)"

definition regime_el :: "arm_tlb \<Rightarrow> exception_level" where
  "regime_el u = (if aarch64 u then aarch64EL u else EL1)"

definition translateFunctional_tab :: "arm_tlb \<Rightarrow> addr \<Rightarrow> addr option" where
  "translateFunctional_tab u va =
     (case tlb_lookup va (t_asid u) (t_vmid u) (isHyp u) (t_isSecure u) True False
             (regime_el u) False (tab u) of
        (_, None) \<Rightarrow> None
      | (t, Some i) \<Rightarrow> Some (pAddr (t ! i) va))"

text \<open>An entry for a 4 KiB page of the NVM window, and a TLB state with three entries.\<close>

definition te_nvm :: tlb_entry where
  "te_nvm = TlbEntry\<lparr>te_vpn := 0x30000, te_pfn := 0x30005, te_N := 12, te_size := 0xfff, te_valid := True\<rparr>"

definition tlb_se :: arm_tlb where
  "tlb_se = \<lparr>tab = [TlbEntry, TlbEntry, te_nvm], isStage2 = False, stage2Req = False, stage2DescReq = False,
     tlb_attr = 0, directToStage2 = False, t_cpsr = 0, aarch64 = True, aarch64EL = EL0, t_sctlr = 0, t_scr = 0,
     isPriv = False, t_isSecure = False, isHyp = False, t_ttbcr = 0, t_asid = 0, t_vmid = 0, t_prrr = 0,
     t_nmrr = 0, t_hcr = 0, t_dacr = 0, miscRegValid = True, miscRegContext = 0, curTranType = 0,
     t_haveLPAE = False, t_haveVirtualization = False, t_haveLargeAsid64 = False, t_m5opRange = AddrRange 1 0\<rparr>"

section \<open>Moving entries\<close>

lemma shift_down_eq: "x < length t \<Longrightarrow> shift_down x t = take 1 t @ take x t @ drop (Suc x) t"
proof (induction x arbitrary: t)
  case 0
  then show ?case by (cases t) simp_all
next
  case (Suc x)
  have "shift_down (Suc x) t = take 1 t @ take x t @ drop (Suc x) (t[Suc x := t ! x])"
    using Suc.IH [of "t[Suc x := t ! x]"] Suc.prems by simp
  also have "drop (Suc x) (t[Suc x := t ! x]) = t ! x # drop (Suc (Suc x)) t"
    using Suc.prems by (metis Cons_nth_drop_Suc drop_update_cancel length_list_update lessI nth_list_update_eq)
  finally show ?case using Suc.prems by (simp add: take_Suc_conv_app_nth)
qed

lemma move_to_front:
  "x < length t \<Longrightarrow> (shift_down x t)[0 := t ! x] = t ! x # take x t @ drop (Suc x) t"
  by (cases t) (simp_all add: shift_down_eq)

lemma tlb_insert_eq: "t \<noteq> [] \<Longrightarrow> tlb_insert e t = e # butlast t"
  by (cases t) (simp_all add: tlb_insert_def shift_down_eq butlast_conv_take)

lemma scan_None_iff: "scan hit x es = None \<longleftrightarrow> (\<forall>e\<in>set es. \<not> hit e)"
  by (induction hit x es rule: scan.induct) auto

lemma scan_first: "scan hit 0 es = Some n \<Longrightarrow> n < length es \<and> hit (es ! n) \<and> (\<forall>i<n. \<not> hit (es ! i))"
proof (induction es arbitrary: n rule: rev_induct)
  case (snoc e es)
  have app: "scan hit x (es @ [e]) = (case scan hit x es of None \<Rightarrow> if hit e then Some (x + length es) else None | Some k \<Rightarrow> Some k)" for x
    by (induction hit x es rule: scan.induct) (auto split: option.splits)
  show ?case
  proof (cases "scan hit 0 es")
    case None
    then have "\<forall>e\<in>set es. \<not> hit e" by (simp add: scan_None_iff)
    then show ?thesis using snoc.prems None by (auto simp: app nth_append split: if_splits)
  next
    case (Some k)
    then show ?thesis using snoc.IH [OF Some] snoc.prems by (auto simp: app nth_append)
  qed
qed simp

lemma lookup_tab_Some:
  assumes "lookup_tab hit functional t = (t', Some i)"
  shows "i < length t' \<and> hit (t' ! i) \<and> mset t' = mset t \<and> length t' = length t"
proof -
  obtain x where x: "scan hit 0 t = Some x"
    using assms by (cases "scan hit 0 t") (auto simp: lookup_tab_def)
  note f = scan_first [OF x]
  have "mset (t ! x # take x t @ drop (Suc x) t) = mset t"
  proof -
    have "mset (take x t @ t ! x # drop (Suc x) t) = mset t"
      by (rule arg_cong [OF id_take_nth_drop [symmetric]]) (use f in simp)
    then show ?thesis by simp
  qed
  moreover have "length (t ! x # take x t @ drop (Suc x) t) = length t" using f by (cases t) auto
  moreover have "t' = t ! x # take x t @ drop (Suc x) t \<and> i = 0 \<or> t' = t \<and> i = x"
    using assms x f by (auto simp: lookup_tab_def move_to_front split: if_splits)
  ultimately show ?thesis using f by auto
qed

lemma lookup_tab_None: "lookup_tab hit functional t = (t', None) \<longleftrightarrow> t' = t \<and> (\<forall>e\<in>set t. \<not> hit e)"
  using scan_None_iff [of hit 0 t] by (cases "scan hit 0 t") (auto simp: lookup_tab_def)

lemma te_hit_valid: "te_hit va asn vmid hyp sec ign el host e \<Longrightarrow> te_valid e \<and> (sec \<longleftrightarrow> \<not> te_nstid e)"
  by (auto simp: te_hit_def te_match_any_def te_match_def Let_def split: if_splits)

lemma filter_update_less:
  assumes "i < length t" "P (t ! i)" "\<not> P e"
  shows "length (filter P (t[i := e])) < length (filter P t)"
proof -
  have "length (filter P t) = length (filter P (take i t @ t ! i # drop (Suc i) t))"
    using assms(1) id_take_nth_drop by metis
  then show ?thesis using assms by (simp add: upd_conv_take_nth_drop)
qed

function flush_mva_loop ::
    "addr \<Rightarrow> 16 word \<Rightarrow> 8 word \<Rightarrow> bool \<Rightarrow> bool \<Rightarrow> bool \<Rightarrow> exception_level \<Rightarrow> bool \<Rightarrow> tlb_entry list \<Rightarrow> tlb_entry list" where
  "flush_mva_loop va asn vmid hyp secure_lookup ignore_asn target_el in_host t =
     (case tlb_lookup va asn vmid hyp secure_lookup False ignore_asn target_el in_host t of
        (t', None) \<Rightarrow> t'
      | (t', Some i) \<Rightarrow>
          flush_mva_loop va asn vmid hyp secure_lookup ignore_asn target_el in_host
            (if secure_lookup \<longleftrightarrow> \<not> te_nstid (t' ! i) then t'[i := drop_valid (t' ! i)] else t'))"
  by pat_completeness auto

lemma valid_count_mset: "mset t' = mset t \<Longrightarrow> length (filter te_valid t') = length (filter te_valid t)"
  by (metis mset_filter size_mset)

lemma flush_step_less:
  assumes "tlb_lookup va asn vmid hyp sec False ign el host t = (t', Some i)"
  shows "length (filter te_valid (if sec \<longleftrightarrow> \<not> te_nstid (t' ! i) then t'[i := drop_valid (t' ! i)] else t'))
    < length (filter te_valid t)"
proof -
  note l = lookup_tab_Some [OF assms [unfolded tlb_lookup_def]]
  have hit: "te_valid (t' ! i)" "sec \<longleftrightarrow> \<not> te_nstid (t' ! i)" using l te_hit_valid by blast+
  have "length (filter te_valid (t'[i := drop_valid (t' ! i)])) < length (filter te_valid t')"
    using l hit by (intro filter_update_less) (simp_all add: drop_valid_def)
  also have "\<dots> = length (filter te_valid t)" using l by (intro valid_count_mset) simp
  finally show ?thesis using hit by simp
qed

termination flush_mva_loop
  by (relation "measure (\<lambda>(_, _, _, _, _, _, _, _, t). length (filter te_valid t))")
    (simp_all only: wf_measure in_measure prod.case flush_step_less)

declare flush_mva_loop.simps [simp del]

definition flush_Mva :: "addr \<Rightarrow> 64 word \<Rightarrow> bool \<Rightarrow> bool \<Rightarrow> exception_level \<Rightarrow> bool \<Rightarrow> arm_tlb \<Rightarrow> arm_tlb" where
  "flush_Mva mva asn secure_lookup ignore_asn target_el in_host u =
     (let mva = sext 56 mva;
          hyp = (target_el = EL2)
      in u\<lparr>tab := flush_mva_loop mva (ucast asn) (t_vmid u) hyp secure_lookup ignore_asn target_el in_host (tab u)\<rparr>)"

definition flushMvaAsid :: "addr \<Rightarrow> 64 word \<Rightarrow> bool \<Rightarrow> exception_level \<Rightarrow> bool \<Rightarrow> arm_tlb \<Rightarrow> arm_tlb" where
  "flushMvaAsid mva asn secure_lookup target_el in_host u =
     flush_Mva mva asn secure_lookup False target_el in_host u"

definition flushMva :: "addr \<Rightarrow> bool \<Rightarrow> exception_level \<Rightarrow> bool \<Rightarrow> arm_tlb \<Rightarrow> arm_tlb" where
  "flushMva mva secure_lookup target_el in_host u =
     flush_Mva mva 0xbeef secure_lookup True target_el in_host u"

fun flushIpaVmid :: "addr \<Rightarrow> bool \<Rightarrow> exception_level \<Rightarrow> tlb \<Rightarrow> tlb res" where
  "flushIpaVmid ipa secure_lookup target_el (Tlb u s2) =
     assert_that (\<not> isStage2 u)
       (case s2 of
          None \<Rightarrow> Err Undefined
        | Some (Tlb v s3) \<Rightarrow>
            Ok (Tlb u (Some (Tlb (flush_Mva ipa 0xbeef secure_lookup True target_el False v) s3))))"

section \<open>What a flush does\<close>

text \<open>
  The contract of the flush operations: each valid entry that the operation names is invalidated,
  every other entry stays as it is; positions may change.
\<close>

locale flush_contract =
  fixes flush :: "tlb_entry list \<Rightarrow> tlb_entry list" and sel :: "tlb_entry \<Rightarrow> bool"
  assumes flush_mset:
    "mset (flush t) = image_mset (\<lambda>e. if te_valid e \<and> sel e then drop_valid e else e) (mset t)"
begin

lemma flush_set: "set (flush t) = (\<lambda>e. if te_valid e \<and> sel e then drop_valid e else e) ` set t"
  using arg_cong [OF flush_mset [of t], of set_mset] by simp

lemma flush_length: "length (flush t) = length t"
  using arg_cong [OF flush_mset [of t], of size] by simp

lemma flush_keeps: "e \<in> set t \<Longrightarrow> \<not> (te_valid e \<and> sel e) \<Longrightarrow> e \<in> set (flush t)"
  unfolding flush_set by (rule image_eqI [of _ _ e]) auto

lemma flush_valid: "te_valid e \<Longrightarrow> e \<in> set (flush t) \<longleftrightarrow> e \<in> set t \<and> \<not> sel e"
  unfolding flush_set by (auto simp: drop_valid_def)

lemma flush_misses:
  assumes "\<And>e. hit e \<Longrightarrow> te_valid e \<and> sel e"
  shows "lookup_tab hit functional (flush t) = (flush t, None)"
  using assms flush_valid by (simp add: lookup_tab_None) blast

lemma flush_unaffected:
  assumes "\<And>e. hit e \<Longrightarrow> te_valid e \<and> \<not> sel e"
  shows "snd (lookup_tab hit functional (flush t)) = None \<longleftrightarrow> snd (lookup_tab hit functional t) = None"
proof -
  have none: "snd (lookup_tab hit functional s) = None \<longleftrightarrow> (\<forall>e\<in>set s. \<not> hit e)" for s
    using lookup_tab_None [of hit functional s] by (metis prod.collapse snd_conv)
  show ?thesis unfolding none using assms flush_valid by blast
qed

end

interpretation inv: flush_contract "invalidate sel" sel for sel
  by unfold_locales (simp add: invalidate_def)

lemma drop_valid_no_hit: "\<not> te_hit va asn vmid hyp sec ign el host (drop_valid e)"
  using te_hit_valid [of va asn vmid hyp sec ign el host "drop_valid e"] by (auto simp: drop_valid_def)

lemma flush_mva_None:
  "tlb_lookup va asn vmid hyp sec False ign el host t = (t', None) \<Longrightarrow>
    flush_mva_loop va asn vmid hyp sec ign el host t = t'"
  by (subst flush_mva_loop.simps) simp

lemma flush_mva_Some:
  assumes "tlb_lookup va asn vmid hyp sec False ign el host t = (t', Some i)" "sec \<longleftrightarrow> \<not> te_nstid (t' ! i)"
  shows "flush_mva_loop va asn vmid hyp sec ign el host t =
    flush_mva_loop va asn vmid hyp sec ign el host (t'[i := drop_valid (t' ! i)])"
  using assms by (subst flush_mva_loop.simps) simp

lemma flush_mva_mset:
  "mset (flush_mva_loop va asn vmid hyp sec ign el host t) =
     image_mset (\<lambda>e. if te_valid e \<and> te_hit va asn vmid hyp sec ign el host e then drop_valid e else e) (mset t)"
proof (induction va asn vmid hyp sec ign el host t rule: flush_mva_loop.induct)
  case (1 va asn vmid hyp sec ign el host t)
  let ?hit = "te_hit va asn vmid hyp sec ign el host"
  let ?F = "\<lambda>e. if te_valid e \<and> ?hit e then drop_valid e else e"
  obtain t' r where l: "tlb_lookup va asn vmid hyp sec False ign el host t = (t', r)" by fastforce
  show ?case
  proof (cases r)
    case None
    then have "t' = t" "\<forall>e\<in>set t. \<not> ?hit e"
      using l by (simp_all add: tlb_lookup_def lookup_tab_None)
    moreover from this have "image_mset ?F (mset t) = image_mset (\<lambda>e. e) (mset t)"
      by (intro image_mset_cong) simp
    ultimately show ?thesis using flush_mva_None [OF l [unfolded None]] by simp
  next
    case (Some i)
    note s = lookup_tab_Some [OF l [unfolded tlb_lookup_def Some]]
    have hit: "?hit (t' ! i)" using s by simp
    note v = te_hit_valid [OF hit]
    let ?t = "t'[i := drop_valid (t' ! i)]"
    have "mset (flush_mva_loop va asn vmid hyp sec ign el host ?t) = image_mset ?F (mset ?t)"
      using "1.IH" [OF l [symmetric] Some] v by simp
    also have "mset ?t = add_mset (drop_valid (t' ! i)) (mset t' - {#t' ! i#})"
      using s by (simp add: mset_update)
    also have "image_mset ?F \<dots> = add_mset (?F (t' ! i)) (image_mset ?F (mset t' - {#t' ! i#}))"
      using hit v by (simp add: drop_valid_no_hit)
    also have "\<dots> = image_mset ?F (mset t')"
    proof -
      have "add_mset (t' ! i) (mset t' - {#t' ! i#}) = mset t'" using s by (intro insert_DiffM nth_mem_mset) simp
      from arg_cong [OF this, of "image_mset ?F"] show ?thesis by (simp only: image_mset_add_mset)
    qed
    finally show ?thesis
      using flush_mva_Some [OF l [unfolded Some]] v s by simp
  qed
qed

interpretation mva: flush_contract "flush_mva_loop va asn vmid hyp sec ign el host"
    "te_hit va asn vmid hyp sec ign el host" for va asn vmid hyp sec ign el host
  by unfold_locales (rule flush_mva_mset)

section \<open>Flushing everything\<close>

lemma flushAllSecurity_plain:
  "isStage2 u \<or> \<not> isHyp u \<Longrightarrow>
   flushAllSecurity sec el ign host (Tlb u s2) =
     Ok (Tlb (u\<lparr>tab := invalidate (sel_security u sec el ign host) (tab u)\<rparr>) s2)"
  by (auto simp: Let_def)

lemma flushAll_plain:
  assumes "isStage2 u \<or> \<not> isHyp u"
  shows "flushAll (Tlb u s2) =
    Ok (Tlb (u\<lparr>tab := invalidate (\<lambda>e. \<not> te_nstid e) (invalidate (\<lambda>e. te_nstid e \<and> te_vmid e = t_vmid u) (tab u))\<rparr>) s2)"
proof -
  have "sel_security u False EL0 True False = (\<lambda>e. te_nstid e \<and> te_vmid e = t_vmid u)"
    "sel_security (u\<lparr>tab := t\<rparr>) True EL0 True False = (\<lambda>e. \<not> te_nstid e)" for t
    by (auto simp: sel_security_def Let_def fun_eq_iff)
  then show ?thesis
    using assms flushAllSecurity_plain [of u] flushAllSecurity_plain [of "u\<lparr>tab := t\<rparr>" for t]
    by (simp add: flushAll_def del: flushAllSecurity.simps)
qed

lemma flushAll_valid:
  assumes "isStage2 u \<or> \<not> isHyp u" "flushAll (Tlb u s2) = Ok (Tlb u' s2')"
  shows "{e \<in> set (tab u'). te_valid e} = {e \<in> set (tab u). te_valid e \<and> te_nstid e \<and> te_vmid e \<noteq> t_vmid u}"
  using assms(2) unfolding flushAll_plain [OF assms(1)] by (auto simp: inv.flush_valid)

lemma regime_upd: "regime_el (u\<lparr>tab := t\<rparr>) = regime_el u"
  by (simp add: regime_el_def)

lemma te_nvm_hit: "te_hit 0x30000010 0 0 False False False EL0 False te_nvm"
  by (simp add: te_hit_def te_match_def te_nvm_def TlbEntry_def Let_def)

lemma TlbEntry_no_hit: "\<not> te_hit va asn vmid hyp sec ign el host TlbEntry"
  using te_hit_valid [of va asn vmid hyp sec ign el host TlbEntry] by (auto simp: TlbEntry_def)

section \<open>Properties\<close>



text \<open>
  C37. Inserting an entry evicts only the least recently used one, and the new entry is what
  the next lookup of an address it covers finds, whatever other entries match; functional translation then gives
  the physical address of the new entry.
\<close>

theorem tlb_insert_found:
  assumes "tab u \<noteq> []"
    and "te_hit va (t_asid u) (t_vmid u) (isHyp u) (t_isSecure u) False (regime_el u) False e"
  shows "tlb_insert e (tab u) = e # butlast (tab u) \<and>
    tlb_lookup va (t_asid u) (t_vmid u) (isHyp u) (t_isSecure u) functional False
      (regime_el u) False (tlb_insert e (tab u)) = (tlb_insert e (tab u), Some 0) \<and>
    translateFunctional_tab (u\<lparr>tab := tlb_insert e (tab u)\<rparr>) va = Some (pAddr e va)"
  using assms by (simp add: tlb_insert_eq tlb_lookup_def lookup_tab_def translateFunctional_tab_def regime_upd)

theorem tlb_insert_found_witness:
  "translateFunctional_tab (tlb_se\<lparr>tab := tlb_insert te_nvm (tab tlb_se)\<rparr>) 0x30000010 = Some 0x30005010"
proof -
  have "tab tlb_se \<noteq> []" by (simp add: tlb_se_def)
  moreover have "te_hit 0x30000010 (t_asid tlb_se) (t_vmid tlb_se) (isHyp tlb_se) (t_isSecure tlb_se) False
      (regime_el tlb_se) False te_nvm"
    using te_nvm_hit by (simp add: tlb_se_def regime_el_def)
  ultimately have "translateFunctional_tab (tlb_se\<lparr>tab := tlb_insert te_nvm (tab tlb_se)\<rparr>) 0x30000010 =
      Some (pAddr te_nvm 0x30000010)"
    using tlb_insert_found by blast
  then show ?thesis by (simp add: pAddr_def te_nvm_def)
qed

text \<open>
  The loops that flush by virtual address end and do exactly their job: after
  \<open>flushMvaAsid\<close> no lookup of that address, address space and security state can hit any more, and
  every valid entry that such a lookup could not have hit is still in the table.
\<close>

theorem flush_by_address:
  assumes "u' = flushMvaAsid mva asn secure el in_host u"
  shows "tlb_lookup (sext 56 mva) (ucast asn) (t_vmid u) (el = EL2) secure functional False el in_host (tab u')
      = (tab u', None) \<and>
    length (tab u') = length (tab u) \<and>
    {e \<in> set (tab u'). te_valid e} =
      {e \<in> set (tab u). te_valid e \<and> \<not> te_hit (sext 56 mva) (ucast asn) (t_vmid u) (el = EL2) secure False el in_host e}"
  unfolding assms flushMvaAsid_def flush_Mva_def Let_def tlb_lookup_def
  by (auto simp: mva.flush_length mva.flush_valid te_hit_valid intro: mva.flush_misses)

theorem flush_by_address_witness:
  "tlb_lookup (sext 56 0x30000010) (ucast (0 :: 64 word)) (t_vmid tlb_se) (EL0 = EL2) False True False EL0 False
     (tab (flushMvaAsid 0x30000010 0 False EL0 False tlb_se)) =
   (tab (flushMvaAsid 0x30000010 0 False EL0 False tlb_se), None)"
  by (rule flush_by_address [OF refl, THEN conjunct1])

text \<open>
  \<open>flushAll\<close> empties the TLB of every entry but the non-secure ones of
  other virtual machines: a valid entry survives exactly when it came from a non-secure page table with another
  VMID. So with one VMID, as in system-call emulation, nothing survives.
\<close>

theorem flushAll_keeps_other_vmids:
  assumes "isStage2 u \<or> \<not> isHyp u"
  shows "\<exists>u'. flushAll (Tlb u s2) = Ok (Tlb u' s2) \<and>
    {e \<in> set (tab u'). te_valid e} = {e \<in> set (tab u). te_valid e \<and> te_nstid e \<and> te_vmid e \<noteq> t_vmid u}"
  using flushAll_plain [OF assms, of s2] flushAll_valid [OF assms, of s2] by auto

theorem flushAll_keeps_other_vmids_witness:
  "\<exists>u'. flushAll (Tlb (tlb_se\<lparr>t_vmid := 1\<rparr>) None) = Ok (Tlb u' None) \<and> {e \<in> set (tab u'). te_valid e} = {te_nvm}"
proof -
  have ne: "isStage2 (tlb_se\<lparr>t_vmid := 1\<rparr>) \<or> \<not> isHyp (tlb_se\<lparr>t_vmid := 1\<rparr>)" by (simp add: tlb_se_def)
  have kept: "{e \<in> set (tab (tlb_se\<lparr>t_vmid := 1\<rparr>)). te_valid e \<and> te_nstid e \<and> te_vmid e \<noteq> t_vmid (tlb_se\<lparr>t_vmid := 1\<rparr>)} = {te_nvm}"
    by (auto simp: tlb_se_def te_nvm_def TlbEntry_def)
  show ?thesis using flushAll_keeps_other_vmids [OF ne, of None] unfolding kept .
qed

text \<open>
  The constructor for system-call emulation stores page numbers but leaves the
  number of page offset bits at zero, so that the entry does not match the addresses of the page it was built for.
\<close>

theorem se_entry_not_found:
  "\<not> te_match 0x30000010 0 0 False False True EL0 False (TlbEntry_SE 0 0x30000000 0x5000 False False) \<and>
   te_match 0x30010 0 0 False False True EL0 False (TlbEntry_SE 0 0x30000000 0x5000 False False) \<and>
   te_match 0x30000010 0 0 False False True EL0 False ((TlbEntry_SE 0 0x30000000 0x5000 False False)\<lparr>te_N := 12\<rparr>)"
  by (simp add: te_match_def TlbEntry_SE_def PageShift_def PageBytes_def Let_def)

end
