(* ===== verification/Mem_State.thy ===== *)
theory Mem_State
  imports Vma Page_Table Arm_TLB
begin

text \<open>
  The address space of a process, \<open>src/sim/mem_state.cc\<close> and \<open>mem_state.hh\<close>: the list of virtual memory areas, the
  program break, the stack and the mapping region. The operations also change the page table
  of the owner and flush the TLBs of all threads, so these are arguments and results. Pointers to processes are
  natural numbers.
\<close>

unbundle bit_operations_syntax

section \<open>State\<close>

record mem_state =
  ms_ownerProcess :: nat
  ms_pageBytes :: addr
  ms_brkPoint :: addr
  ms_stackBase :: addr
  ms_stackSize :: addr
  ms_maxStackSize :: addr
  ms_stackMin :: addr
  ms_nextThreadStackBase :: addr
  ms_mmapEnd :: addr
  ms_endBrkPoint :: addr
  ms_vmaList :: "vma list"

definition MemState :: "nat \<Rightarrow> addr \<Rightarrow> addr \<Rightarrow> addr \<Rightarrow> addr \<Rightarrow> addr \<Rightarrow> addr \<Rightarrow> mem_state" where
  "MemState owner pageBytes brk_point stack_base max_stack_size next_thread_stack_base mmap_end =
     \<lparr>ms_ownerProcess = owner, ms_pageBytes = pageBytes, ms_brkPoint = brk_point, ms_stackBase = stack_base, ms_stackSize = max_stack_size,
      ms_maxStackSize = max_stack_size, ms_stackMin = stack_base - max_stack_size,
      ms_nextThreadStackBase = next_thread_stack_base, ms_mmapEnd = mmap_end, ms_endBrkPoint = brk_point,
      ms_vmaList = []\<rparr>"

text \<open>
  The setters, and the assignment operator, which copies every member but the owner.
\<close>

definition setBrkPoint :: "addr \<Rightarrow> mem_state \<Rightarrow> mem_state" where "setBrkPoint a ms = ms\<lparr>ms_brkPoint := a\<rparr>"
definition setStackBase :: "addr \<Rightarrow> mem_state \<Rightarrow> mem_state" where "setStackBase a ms = ms\<lparr>ms_stackBase := a\<rparr>"
definition setStackSize :: "addr \<Rightarrow> mem_state \<Rightarrow> mem_state" where "setStackSize a ms = ms\<lparr>ms_stackSize := a\<rparr>"
definition setMaxStackSize :: "addr \<Rightarrow> mem_state \<Rightarrow> mem_state" where "setMaxStackSize a ms = ms\<lparr>ms_maxStackSize := a\<rparr>"
definition setStackMin :: "addr \<Rightarrow> mem_state \<Rightarrow> mem_state" where "setStackMin a ms = ms\<lparr>ms_stackMin := a\<rparr>"
definition setNextThreadStackBase :: "addr \<Rightarrow> mem_state \<Rightarrow> mem_state" where
  "setNextThreadStackBase a ms = ms\<lparr>ms_nextThreadStackBase := a\<rparr>"
definition setMmapEnd :: "addr \<Rightarrow> mem_state \<Rightarrow> mem_state" where "setMmapEnd a ms = ms\<lparr>ms_mmapEnd := a\<rparr>"

definition resetOwner :: "nat \<Rightarrow> mem_state \<Rightarrow> mem_state" where "resetOwner p ms = ms\<lparr>ms_ownerProcess := p\<rparr>"

definition ms_assign :: "mem_state \<Rightarrow> mem_state \<Rightarrow> mem_state" where
  "ms_assign this i =
     this\<lparr>ms_pageBytes := ms_pageBytes i, ms_brkPoint := ms_brkPoint i, ms_stackBase := ms_stackBase i,
          ms_stackSize := ms_stackSize i, ms_maxStackSize := ms_maxStackSize i, ms_stackMin := ms_stackMin i,
          ms_nextThreadStackBase := ms_nextThreadStackBase i, ms_mmapEnd := ms_mmapEnd i,
          ms_endBrkPoint := ms_endBrkPoint i, ms_vmaList := ms_vmaList i\<rparr>"

section \<open>Checkpoints\<close>

record ms_checkpoint =
  msc_brkPoint :: addr
  msc_stackBase :: addr
  msc_stackSize :: addr
  msc_maxStackSize :: addr
  msc_stackMin :: addr
  msc_nextThreadStackBase :: addr
  msc_mmapEnd :: addr
  msc_vmas :: "(string \<times> addr \<times> addr) list"

definition ms_serialize :: "mem_state \<Rightarrow> ms_checkpoint" where
  "ms_serialize ms =
     \<lparr>msc_brkPoint = ms_brkPoint ms, msc_stackBase = ms_stackBase ms, msc_stackSize = ms_stackSize ms,
      msc_maxStackSize = ms_maxStackSize ms, msc_stackMin = ms_stackMin ms,
      msc_nextThreadStackBase = ms_nextThreadStackBase ms, msc_mmapEnd = ms_mmapEnd ms,
      msc_vmas = map (\<lambda>v. (v_vmaName v, v_start v, v_end v)) (ms_vmaList ms)\<rparr>"

fun restore_vmas :: "host \<Rightarrow> addr \<Rightarrow> (string \<times> addr \<times> addr) list \<Rightarrow> vma list \<Rightarrow> vma list res" where
  "restore_vmas h pb [] vs = Ok vs"
| "restore_vmas h pb ((name, st, en) # cps) vs =
     bind_res (VMA h (AddrRange st en) pb name (- 1) 0) (\<lambda>v. restore_vmas h pb cps (vs @ [v]))"

definition ms_unserialize :: "host \<Rightarrow> ms_checkpoint \<Rightarrow> mem_state \<Rightarrow> mem_state res" where
  "ms_unserialize h cp ms =
     bind_res (restore_vmas h (ms_pageBytes ms) (msc_vmas cp) (ms_vmaList ms)) (\<lambda>vs.
       Ok (ms\<lparr>ms_brkPoint := msc_brkPoint cp, ms_stackBase := msc_stackBase cp, ms_stackSize := msc_stackSize cp,
              ms_maxStackSize := msc_maxStackSize cp, ms_stackMin := msc_stackMin cp,
              ms_nextThreadStackBase := msc_nextThreadStackBase cp, ms_mmapEnd := msc_mmapEnd cp,
              ms_vmaList := vs\<rparr>))"

section \<open>Free regions\<close>

fun any_intersects :: "addr_range \<Rightarrow> vma list \<Rightarrow> bool res" where
  "any_intersects r [] = Ok False"
| "any_intersects r (v # vs) = bind_res (v_intersects v r) (\<lambda>b. if b then Ok True else any_intersects r vs)"

text \<open>
  The loop over the pages of the region. It runs for ever when the end of the region is closer to the end of the
  address space than one page and not page aligned.
\<close>

partial_function (option) pages_free :: "page_table \<Rightarrow> addr \<Rightarrow> addr \<Rightarrow> addr \<Rightarrow> bool run" where
  "pages_free pt pb st en =
     (if st < en then
        if pt_lookup pt st \<noteq> None then Some (Err Panic) else pages_free pt pb (st + pb) en
      else Done True)"

definition ms_isUnmapped :: "page_table \<Rightarrow> mem_state \<Rightarrow> addr \<Rightarrow> addr \<Rightarrow> bool run" where
  "ms_isUnmapped pt ms start_addr len =
     (let end_addr = start_addr + len
      in bind_run (Some (any_intersects (AddrRange start_addr end_addr) (ms_vmaList ms))) (\<lambda>b.
           if b then Done False else pages_free pt (ms_pageBytes ms) start_addr end_addr))"

definition mapRegion ::
    "host \<Rightarrow> page_table \<Rightarrow> addr \<Rightarrow> addr \<Rightarrow> string \<Rightarrow> int \<Rightarrow> int \<Rightarrow> mem_state \<Rightarrow> mem_state run" where
  "mapRegion h pt start_addr len region_name sim_fd offset ms =
     bind_run (ms_isUnmapped pt ms start_addr len) (\<lambda>b.
       Some (assert_that b
         (bind_res (VMA h (AddrRange start_addr (start_addr + len)) (ms_pageBytes ms) region_name sim_fd offset)
           (\<lambda>v. Ok (ms\<lparr>ms_vmaList := ms_vmaList ms @ [v]\<rparr>)))))"

definition updateBrkRegion :: "host \<Rightarrow> page_table \<Rightarrow> addr \<Rightarrow> addr \<Rightarrow> mem_state \<Rightarrow> mem_state run" where
  "updateBrkRegion h pt old_brk new_brk ms =
     (if new_brk < old_brk then Done (ms\<lparr>ms_brkPoint := new_brk\<rparr>)
      else
        bind_run (Some (roundUp new_brk (ms_pageBytes ms))) (\<lambda>page_aligned_brk.
          if page_aligned_brk > ms_endBrkPoint ms then
            let len = page_aligned_brk - ms_endBrkPoint ms
            in bind_run (ms_isUnmapped pt ms (ms_endBrkPoint ms) len) (\<lambda>b.
                 if \<not> b then Done ms
                 else bind_run (mapRegion h pt (ms_endBrkPoint ms) len ''heap'' (- 1) 0 ms) (\<lambda>ms.
                        Done (ms\<lparr>ms_endBrkPoint := page_aligned_brk, ms_brkPoint := new_brk\<rparr>)))
          else Done (ms\<lparr>ms_brkPoint := new_brk\<rparr>)))"

partial_function (option) find_region :: "page_table \<Rightarrow> mem_state \<Rightarrow> bool \<Rightarrow> addr \<Rightarrow> addr \<Rightarrow> addr run" where
  "find_region pt ms growsDown len st =
     bind_run (ms_isUnmapped pt ms st len) (\<lambda>b.
       if b then Done st
       else find_region pt ms growsDown len
              (if growsDown then st - ms_pageBytes ms else st + ms_pageBytes ms))"

definition extendMmap :: "page_table \<Rightarrow> bool \<Rightarrow> addr \<Rightarrow> mem_state \<Rightarrow> (mem_state \<times> addr) run" where
  "extendMmap pt growsDown len ms =
     bind_run (find_region pt ms growsDown len (if growsDown then ms_mmapEnd ms - len else ms_mmapEnd ms)) (\<lambda>st.
       Done (ms\<lparr>ms_mmapEnd := (if growsDown then st else st + len)\<rparr>, st))"

section \<open>Unmapping\<close>

text \<open>
  The walk over the list of areas: \<open>unmap_vmas r seen pending\<close> has left the areas \<open>seen\<close> behind. An area that
  strictly contains the region is split, its left part goes to the end of the list, and the walk stops.
\<close>

fun unmap_vmas :: "addr_range \<Rightarrow> vma list \<Rightarrow> vma list \<Rightarrow> vma list res" where
  "unmap_vmas r seen [] = Ok seen"
| "unmap_vmas r seen (v # vs) =
     (if isStrictSuperset v r then
        bind_res (sliceRegionRight (ar_start r) v) (\<lambda>clone.
        bind_res (sliceRegionLeft (ar_end r) v) (\<lambda>v. Ok (seen @ v # vs @ [clone])))
      else bind_res (v_isSubset v r) (\<lambda>sub.
        if sub then unmap_vmas r seen vs
        else bind_res (v_intersects v r) (\<lambda>cuts.
          if cuts then
            bind_res (if v_start v < ar_start r then sliceRegionRight (ar_start r) v
                      else sliceRegionLeft (ar_end r) v) (\<lambda>v. unmap_vmas r (seen @ [v]) vs)
          else unmap_vmas r (seen @ [v]) vs)))"

record thread =
  th_process :: nat
  th_tc :: thread_ctx
  th_dtb :: tlb
  th_itb :: tlb

fun flush_threads :: "thread list \<Rightarrow> thread list res" where
  "flush_threads [] = Ok []"
| "flush_threads (t # ts) =
     bind_res (flushAll (th_dtb t)) (\<lambda>d.
     bind_res (flushAll (th_itb t)) (\<lambda>i.
     bind_res (flush_threads ts) (\<lambda>ts. Ok (t\<lparr>th_dtb := d, th_itb := i\<rparr> # ts))))"

definition unmap_page :: "addr \<Rightarrow> addr \<Rightarrow> page_table \<Rightarrow> page_table res" where
  "unmap_page pb a pt =
     bind_res (pt_isUnmapped pt a (sint pb)) (\<lambda>b. if b then Ok pt else pt_unmap pt a (sint pb))"

text \<open>The loop ends only when the length is a multiple of the page size; a length of zero unmaps every page.\<close>

partial_function (option) unmap_pages :: "addr \<Rightarrow> addr \<Rightarrow> addr \<Rightarrow> page_table \<Rightarrow> page_table run" where
  "unmap_pages pb start_addr len pt =
     bind_run (Some (unmap_page pb start_addr pt)) (\<lambda>pt.
       let start_addr = start_addr + pb; len = len - pb
       in if len > 0 then unmap_pages pb start_addr len pt else Done pt)"

definition unmapRegion ::
    "addr \<Rightarrow> addr \<Rightarrow> mem_state \<times> page_table \<times> thread list \<Rightarrow> (mem_state \<times> page_table \<times> thread list) run" where
  "unmapRegion start_addr len = (\<lambda>(ms, pt, ths).
     let end_addr = start_addr + len
     in bind_run (Some (unmap_vmas (AddrRange start_addr end_addr) [] (ms_vmaList ms))) (\<lambda>vs.
        bind_run (Some (flush_threads ths)) (\<lambda>ths.
        bind_run (unmap_pages (ms_pageBytes ms) start_addr len pt) (\<lambda>pt.
          Done (ms\<lparr>ms_vmaList := vs\<rparr>, pt, ths)))))"

section \<open>Remapping\<close>

text \<open>
  The walk of \<open>remapRegion\<close>. Clones are appended to the list and are visited in turn; they no longer meet the region.
\<close>

definition overlap_count :: "addr_range \<Rightarrow> vma list \<Rightarrow> nat" where
  "overlap_count r vs = length (filter (\<lambda>v. v_intersects v r = Ok True) vs)"

lemma slice_right_apart:
  assumes "sliceRegionRight (ar_start r) v = Ok v'"
  shows "v_intersects v' r = Ok False"
  using assms
  by (auto simp: sliceRegionRight_def bind_res_eq_Ok v_intersects_def range_intersects_def AddrRange_def sanityCheck_Ok)

lemma slice_left_apart:
  assumes "sliceRegionLeft (ar_end r) v = Ok v'"
  shows "v_intersects v' r = Ok False"
  using assms
  by (auto simp: sliceRegionLeft_def bind_res_eq_Ok v_intersects_def range_intersects_def AddrRange_def sanityCheck_Ok)

function remap_vmas :: "addr_range \<Rightarrow> addr \<Rightarrow> vma list \<Rightarrow> vma list \<Rightarrow> vma list res" where
  "remap_vmas r new_start_addr seen [] = Ok seen"
| "remap_vmas r new_start_addr seen (v # vs) =
     (if isStrictSuperset v r then
        bind_res (sliceRegionRight (ar_start r) v) (\<lambda>clone1.
        bind_res (sliceRegionLeft (ar_end r) v) (\<lambda>clone2.
        bind_res (sliceRegionLeft (ar_start r) v) (\<lambda>v.
        bind_res (sliceRegionRight (ar_end r) v) (\<lambda>v.
        bind_res (v_remap new_start_addr v) (\<lambda>v. Ok (seen @ v # vs @ [clone1, clone2]))))))
      else bind_res (v_isSubset v r) (\<lambda>sub.
        if sub then
          bind_res (v_remap (v_start v - ar_start r + new_start_addr) v) (\<lambda>v. remap_vmas r new_start_addr (seen @ [v]) vs)
        else bind_res (v_intersects v r) (\<lambda>cuts.
          if cuts then
            if v_start v < ar_start r then
              bind_res (sliceRegionRight (ar_start r) v) (\<lambda>clone.
              bind_res (sliceRegionLeft (ar_start r) v) (\<lambda>v.
              bind_res (v_remap new_start_addr v) (\<lambda>v. remap_vmas r new_start_addr (seen @ [v]) (vs @ [clone]))))
            else
              bind_res (sliceRegionLeft (ar_end r) v) (\<lambda>clone.
              bind_res (sliceRegionRight (ar_end r) v) (\<lambda>v.
              bind_res (v_remap (new_start_addr + v_start v - ar_start r) v) (\<lambda>v.
                remap_vmas r new_start_addr (seen @ [v]) (vs @ [clone]))))
          else remap_vmas r new_start_addr (seen @ [v]) vs)))"
  by pat_completeness auto

termination remap_vmas
  by (relation "measures [\<lambda>(r, _, _, vs). overlap_count r vs, \<lambda>(_, _, _, vs). length vs]")
    (auto simp: overlap_count_def dest: slice_right_apart slice_left_apart)

declare remap_vmas.simps [simp del]

definition remap_page :: "addr \<Rightarrow> addr \<Rightarrow> addr \<Rightarrow> page_table \<Rightarrow> page_table res" where
  "remap_page pb a new_a pt =
     bind_res (pt_isUnmapped pt a (sint pb)) (\<lambda>b. if b then Ok pt else pt_remap pt a (sint pb) new_a)"

partial_function (option) remap_pages :: "addr \<Rightarrow> addr \<Rightarrow> addr \<Rightarrow> addr \<Rightarrow> page_table \<Rightarrow> page_table run" where
  "remap_pages pb start_addr new_start_addr len pt =
     bind_run (Some (remap_page pb start_addr new_start_addr pt)) (\<lambda>pt.
       let start_addr = start_addr + pb; new_start_addr = new_start_addr + pb; len = len - pb
       in if len > 0 then remap_pages pb start_addr new_start_addr len pt else Done pt)"

definition remapRegion ::
    "addr \<Rightarrow> addr \<Rightarrow> addr \<Rightarrow> mem_state \<times> page_table \<times> thread list \<Rightarrow> (mem_state \<times> page_table \<times> thread list) run" where
  "remapRegion start_addr new_start_addr len = (\<lambda>(ms, pt, ths).
     let end_addr = start_addr + len
     in bind_run (Some (remap_vmas (AddrRange start_addr end_addr) new_start_addr [] (ms_vmaList ms))) (\<lambda>vs.
        bind_run (Some (flush_threads ths)) (\<lambda>ths.
        bind_run (remap_pages (ms_pageBytes ms) start_addr new_start_addr len pt) (\<lambda>pt.
          Done (ms\<lparr>ms_vmaList := vs\<rparr>, pt, ths)))))"

text \<open>
  The meaning of a list of areas: the addresses it covers, each with the name of its area and its byte of the file.
\<close>

definition area :: "vma \<Rightarrow> (addr \<times> string \<times> 8 word option) set" where
  "area v = {(x, n, b). x \<in> vma_set v \<and> n = v_vmaName v \<and> b = file_byte v x}"

definition areas :: "vma list \<Rightarrow> (addr \<times> string \<times> 8 word option) set" where
  "areas vs = (\<Union>v\<in>set vs. area v)"

definition covered :: "vma list \<Rightarrow> addr set" where
  "covered vs = (\<Union>v\<in>set vs. vma_set v)"

definition vmas_ok :: "addr \<Rightarrow> vma list \<Rightarrow> bool" where
  "vmas_ok pb vs \<longleftrightarrow> (\<forall>v\<in>set vs. vma_wf v \<and> v_pageBytes v = pb) \<and>
     sorted_wrt (\<lambda>v w. vma_set v \<inter> vma_set w = {}) vs"

definition outside :: "addr set \<Rightarrow> (addr \<times> 'a) set \<Rightarrow> (addr \<times> 'a) set" where
  "outside K A = {t \<in> A. fst t \<notin> K}"

definition shift :: "addr \<Rightarrow> addr \<times> 'a \<Rightarrow> addr \<times> 'a" where
  "shift d t = (fst t + d, snd t)"

definition inside :: "addr set \<Rightarrow> (addr \<times> 'a) set \<Rightarrow> (addr \<times> 'a) set" where
  "inside K A = {t \<in> A. fst t \<in> K}"

text \<open>\<open>remapped K d A\<close>: the part of \<open>A\<close> in \<open>K\<close> moves by \<open>d\<close>, the rest stays.\<close>

definition remapped :: "addr set \<Rightarrow> addr \<Rightarrow> (addr \<times> 'a) set \<Rightarrow> (addr \<times> 'a) set" where
  "remapped K d A = outside K A \<union> shift d ` inside K A"

text \<open>What makes a move of whole pages possible, and what the walk over the areas makes of a list of areas.\<close>

definition move_ok :: "nat \<Rightarrow> addr \<Rightarrow> addr \<Rightarrow> addr \<Rightarrow> bool" where
  "move_ok k s e n \<longleftrightarrow> s < e \<and> n < n + (e - s) \<and> k < 64 \<and>
     page_aligned (2 ^ k) s \<and> page_aligned (2 ^ k) e \<and> page_aligned (2 ^ k) n"

definition remaps :: "nat \<Rightarrow> addr \<Rightarrow> addr \<Rightarrow> addr \<Rightarrow> vma list \<Rightarrow> vma list \<Rightarrow> bool" where
  "remaps k s e n seen vs \<longleftrightarrow> (\<exists>vs'. remap_vmas (AddrRange s e) n seen vs = Ok (seen @ vs') \<and> vmas_ok (2 ^ k) vs' \<and>
     areas vs' = remapped {s..<e} (n - s) (areas vs))"

section \<open>Intervals\<close>

lemma interval_inside:
  assumes "(a :: 'a::linorder) < s" "s < e" "e < b"
  shows "{a..<b} - {s..<e} = {a..<s} \<union> {e..<b}" "{s..<e} \<subseteq> {a..<b}" "{a..<s} \<inter> {s..<e} = {}"
    "{e..<b} \<inter> {s..<e} = {}" "{a..<s} \<inter> {e..<b} = {}"
  using assms by auto

lemma interval_right:
  assumes "(a :: 'a::linorder) < s" "b \<le> e" "s < b"
  shows "{a..<b} - {s..<e} = {a..<s}" "{a..<s} \<inter> {s..<e} = {}"
  using assms by auto

lemma interval_left:
  assumes "(s :: 'a::linorder) \<le> a" "e < b" "a < e"
  shows "{a..<b} - {s..<e} = {e..<b}" "{e..<b} \<inter> {s..<e} = {}"
  using assms by auto

lemma interval_right_in: "(a :: 'a::linorder) < s \<Longrightarrow> b \<le> e \<Longrightarrow> s < b \<Longrightarrow> {a..<b} \<inter> {s..<e} = {s..<b}"
  by auto

lemma interval_left_in: "(s :: 'a::linorder) \<le> a \<Longrightarrow> e < b \<Longrightarrow> a < e \<Longrightarrow> {a..<b} \<inter> {s..<e} = {a..<e}"
  by auto

lemma interval_apart:
  assumes "(e :: 'a::linorder) \<le> a \<or> b \<le> s"
  shows "{a..<b} \<inter> {s..<e} = {}"
  using assms by auto

lemma interval_cases:
  fixes a b s e :: "'a::linorder"
  obtains (inside) "a < s" "e < b" | (sub) "s \<le> a" "b \<le> e" | (right) "a < s" "b \<le> e" "s < b"
    | (left) "s \<le> a" "e < b" "a < e" | (apart) "e \<le> a \<or> b \<le> s"
  using not_le by blast

lemma interval_apart_tests:
  assumes "(e :: 'a::linorder) \<le> a \<or> b \<le> s" "s < e" "a < b"
  shows "\<not> (a < s \<and> e < b)" "\<not> (s \<le> a \<and> b \<le> e)" "\<not> (a < e \<and> s < b)"
  using assms by auto

lemma interval_right_tests:
  assumes "(a :: 'a::linorder) < s" "b \<le> e" "s < b" "s < e"
  shows "\<not> e < b" "\<not> s \<le> a" "a < e" "s < b" "a < s"
  using assms by auto

lemma interval_left_tests:
  assumes "(s :: 'a::linorder) \<le> a" "e < b" "a < e" "s < e"
  shows "\<not> a < s" "\<not> b \<le> e" "a < e" "s < b"
  using assms by auto

lemma interval_meets: "(a :: 'a::linorder) < b \<Longrightarrow> s < e \<Longrightarrow> a < e \<and> s < b \<longleftrightarrow> {a..<b} \<inter> {s..<e} \<noteq> {}"
  by (cases "a \<le> s") auto

lemma interval_sub: "(s :: 'a::linorder) \<le> a \<Longrightarrow> b \<le> e \<Longrightarrow> {a..<b} \<subseteq> {s..<e}"
  by auto

section \<open>What a list of areas means\<close>

lemma covered_areas: "covered vs = fst ` areas vs"
  by (force simp: covered_def areas_def area_def)

lemma covered_simps [simp]:
  "covered [] = {}" "covered (v # vs) = vma_set v \<union> covered vs" "covered (vs @ ws) = covered vs \<union> covered ws"
  by (auto simp: covered_def)

lemma areas_simps [simp]:
  "areas [] = {}" "areas (v # vs) = area v \<union> areas vs" "areas (vs @ ws) = areas vs \<union> areas ws"
  by (auto simp: areas_def)

lemma outside_simps [simp]:
  "outside K {} = {}" "outside K (A \<union> B) = outside K A \<union> outside K B"
  by (auto simp: outside_def)

lemma vmas_ok_simps:
  "vmas_ok pb []"
  "vmas_ok pb (v # vs) \<longleftrightarrow> vma_wf v \<and> v_pageBytes v = pb \<and> vma_set v \<inter> covered vs = {} \<and> vmas_ok pb vs"
  "vmas_ok pb (vs @ ws) \<longleftrightarrow> vmas_ok pb vs \<and> vmas_ok pb ws \<and> covered vs \<inter> covered ws = {}"
  by (auto simp: vmas_ok_def covered_def sorted_wrt_append)

lemma outside_id: "fst ` A \<inter> K = {} \<Longrightarrow> outside K A = A"
  by (auto simp: outside_def)

lemma outside_pieces:
  assumes "fst ` A - K = I \<union> J" "I \<inter> K = {}" "J \<inter> K = {}"
  shows "{t \<in> A. fst t \<in> I} \<union> {t \<in> A. fst t \<in> J} = outside K A"
proof -
  have "fst t \<in> I \<or> fst t \<in> J \<longleftrightarrow> fst t \<notin> K" if "t \<in> A" for t
    using assms imageI [OF that, of fst] by blast
  then show ?thesis unfolding outside_def by blast
qed

lemma outside_piece: "fst ` A - K = I \<Longrightarrow> I \<inter> K = {} \<Longrightarrow> {t \<in> A. fst t \<in> I} = outside K A"
  using outside_pieces [of A K I I] by simp

lemma outside_all: "fst ` A \<subseteq> K \<Longrightarrow> outside K A = {}"
  by (auto simp: outside_def)

lemma fst_area: "fst ` area v = vma_set v"
  by (force simp: area_def)

lemma area_cut:
  assumes "cut a b v v'" "v_start v \<le> a" "b \<le> v_end v"
  shows "area v' = {t \<in> area v. fst t \<in> {a..<b}}"
  using assms by (auto simp: area_def vma_set_def cut_def)

lemma area_fst: "t \<in> area v \<Longrightarrow> fst t \<in> vma_set v"
  by (auto simp: area_def)

lemma vma_set_cut:
  assumes "cut a b v v'" "v_start v \<le> a" "b \<le> v_end v"
  shows "vma_set v' = {a..<b}" "vma_set v' \<subseteq> vma_set v"
  using assms by (auto simp: vma_set_def cut_def)

section \<open>Unmapping a region of areas\<close>

lemma ar_ends [simp]: "ar_start (AddrRange s e) = s" "ar_end (AddrRange s e) = e"
  by (simp_all add: AddrRange_def)

lemma unmap_vmas_Cons:
  assumes "vma_wf v"
  shows "unmap_vmas (AddrRange s e) seen (v # vs) =
     (if s > v_start v \<and> e < v_end v then
        bind_res (sliceRegionRight s v) (\<lambda>clone.
        bind_res (sliceRegionLeft e v) (\<lambda>v. Ok (seen @ v # vs @ [clone])))
      else if s \<le> v_start v \<and> v_end v \<le> e then unmap_vmas (AddrRange s e) seen vs
      else if v_start v < e \<and> s < v_end v then
            bind_res (if v_start v < s then sliceRegionRight s v
                      else sliceRegionLeft e v) (\<lambda>v. unmap_vmas (AddrRange s e) (seen @ [v]) vs)
      else unmap_vmas (AddrRange s e) (seen @ [v]) vs)"
  unfolding unmap_vmas.simps isStrictSuperset_def v_isSubset_wf [OF assms] v_intersects_wf [OF assms] ar_ends bind_res_Ok ..

text \<open>The walk splits, drops and trims the areas so that exactly the addresses of the region disappear.\<close>

lemma unmap_vmas_areas:
  assumes "vmas_ok pb vs" "s < e" "page_aligned pb s" "page_aligned pb e"
  shows "\<exists>vs'. unmap_vmas (AddrRange s e) seen vs = Ok (seen @ vs') \<and> vmas_ok pb vs' \<and> areas vs' = outside {s..<e} (areas vs)"
  using assms(1)
proof (induction vs arbitrary: seen)
  case (Cons v vs)
  have v: "vma_wf v" "v_pageBytes v = pb" "vma_set v \<inter> covered vs = {}" "vmas_ok pb vs"
    using Cons.prems by (auto simp: vmas_ok_simps)
  have ends: "v_start v < v_end v" using v(1) by (simp add: vma_wf_def)
  let ?r = "AddrRange s e"
  have IH: "\<exists>vs'. unmap_vmas ?r seen vs = Ok (seen @ vs') \<and> vmas_ok pb vs' \<and> areas vs' = outside {s..<e} (areas vs)" for seen
    by (rule Cons.IH [OF v(4)])
  note walk = unmap_vmas_Cons [OF v(1)] simp_thms if_True if_False bind_res_Ok
  
  have keep: "\<exists>vs'. unmap_vmas ?r (seen @ [v']) vs = Ok (seen @ vs') \<and> vmas_ok pb vs' \<and>
      areas vs' = outside {s..<e} (areas (v # vs))"
    if "vma_wf v'" "v_pageBytes v' = pb" "vma_set v' \<subseteq> vma_set v" "area v' = outside {s..<e} (area v)" for v'
  proof -
    obtain vs' where vs': "unmap_vmas ?r (seen @ [v']) vs = Ok ((seen @ [v']) @ vs')" "vmas_ok pb vs'"
      "areas vs' = outside {s..<e} (areas vs)" using IH [of "seen @ [v']"] by blast
    have "covered vs' \<subseteq> covered vs" using vs'(3) by (auto simp: covered_areas outside_def)
    then show ?thesis using vs' that v(3) by (intro exI [of _ "v' # vs'"]) (auto simp: vmas_ok_simps)
  qed
  show ?case
  proof (cases rule: interval_cases [where a = "v_start v" and b = "v_end v" and s = s and e = e])
    case inside
    have le: "s \<le> v_end v" "v_start v \<le> e" using inside assms(2) by order+
    obtain l where l: "sliceRegionRight s v = Ok l" "cut (v_start v) s v l"
      using sliceRegionRight_cut [OF v(1) inside(1) le(1)] v(2) assms(3) by auto
    obtain r' where r': "sliceRegionLeft e v = Ok r'" "cut e (v_end v) v r'"
      using sliceRegionLeft_cut [OF v(1) le(2) inside(2)] v(2) assms(4) by auto
    have sets: "vma_set l = {v_start v..<s}" "vma_set r' = {e..<v_end v}" "vma_set l \<subseteq> vma_set v" "vma_set r' \<subseteq> vma_set v"
      using vma_set_cut [OF l(2) order_refl le(1)] vma_set_cut [OF r'(2) le(2) order_refl] by blast+
    note iv = interval_inside [OF inside(1) assms(2) inside(2), folded vma_set_def]
    have "fst ` areas vs \<inter> {s..<e} = {}" using v(3) iv(2) unfolding covered_areas by blast
    then have rest: "outside {s..<e} (areas vs) = areas vs" by (rule outside_id)
    have "area l \<union> area r' = outside {s..<e} (area v)"
      unfolding area_cut [OF l(2) order_refl le(1)] area_cut [OF r'(2) le(2) order_refl]
      using iv by (intro outside_pieces) (simp_all only: fst_area)
    moreover have "vmas_ok pb (r' # vs @ [l])"
    proof -
      have "vma_wf l" "v_pageBytes l = pb" "vma_wf r'" "v_pageBytes r' = pb"
        using l(2) r'(2) v(2) by (simp_all add: cut_def)
      moreover have "vma_set r' \<inter> (covered vs \<union> vma_set l) = {}" "covered vs \<inter> vma_set l = {}"
        using v(3) sets iv(5) by blast+
      ultimately show ?thesis using v(4) by (simp add: vmas_ok_simps)
    qed
    moreover have "unmap_vmas ?r seen (v # vs) = Ok (seen @ r' # vs @ [l])"
      using inside l(1) r'(1) by (simp only: walk)
    ultimately show ?thesis using rest by (intro exI [of _ "r' # vs @ [l]"]) auto
  next
    case sub
    have "outside {s..<e} (area v) = {}"
      by (rule outside_all) (simp only: fst_area interval_sub [OF sub, folded vma_set_def])
    moreover have "unmap_vmas ?r seen (v # vs) = unmap_vmas ?r seen vs"
      using sub leD [OF sub(1)] by (simp only: walk)
    ultimately show ?thesis using IH [of seen] by simp
  next
    case right
    obtain v' where v': "sliceRegionRight s v = Ok v'" "cut (v_start v) s v v'"
      using sliceRegionRight_cut [OF v(1) right(1) less_imp_le [OF right(3)]] v(2) assms(3) by auto
    note c = area_cut [OF v'(2) order_refl less_imp_le [OF right(3)]] vma_set_cut(2) [OF v'(2) order_refl less_imp_le [OF right(3)]]
    note iv = interval_right [OF right, folded vma_set_def]
    have a: "area v' = outside {s..<e} (area v)"
      unfolding c(1) using iv by (intro outside_piece) (simp_all only: fst_area)
    have wf': "vma_wf v'" "v_pageBytes v' = pb" using v'(2) v(2) by (simp_all add: cut_def)
    have step: "unmap_vmas ?r seen (v # vs) = unmap_vmas ?r (seen @ [v']) vs"
      using v'(1)
      by (simp only: walk interval_right_tests [OF right assms(2)])
    show ?thesis unfolding step by (rule keep [OF wf' c(2) a])
  next
    case left
    obtain v' where v': "sliceRegionLeft e v = Ok v'" "cut e (v_end v) v v'"
      using sliceRegionLeft_cut [OF v(1) less_imp_le [OF left(3)] left(2)] v(2) assms(4) by auto
    note c = area_cut [OF v'(2) less_imp_le [OF left(3)] order_refl] vma_set_cut(2) [OF v'(2) less_imp_le [OF left(3)] order_refl]
    note iv = interval_left [OF left, folded vma_set_def]
    have a: "area v' = outside {s..<e} (area v)"
      unfolding c(1) using iv by (intro outside_piece) (simp_all only: fst_area)
    have wf': "vma_wf v'" "v_pageBytes v' = pb" using v'(2) v(2) by (simp_all add: cut_def)
    have step: "unmap_vmas ?r seen (v # vs) = unmap_vmas ?r (seen @ [v']) vs"
      using v'(1) by (simp only: walk interval_left_tests [OF left assms(2)])
    show ?thesis unfolding step by (rule keep [OF wf' c(2) a])
  next
    case apart
    note iv = interval_apart [OF apart, folded vma_set_def]
    have a: "area v = outside {s..<e} (area v)"
      by (rule outside_id [symmetric]) (simp only: fst_area iv)
    have step: "unmap_vmas ?r seen (v # vs) = unmap_vmas ?r (seen @ [v]) vs"
      by (simp only: walk interval_apart_tests [OF apart assms(2) ends])
    show ?thesis unfolding step by (rule keep [OF v(1,2) order_refl a])
  qed
qed (simp add: vmas_ok_simps)

section \<open>Moving a region of areas\<close>

lemma inside_simps [simp]: "inside K {} = {}" "inside K (A \<union> B) = inside K A \<union> inside K B"
  by (auto simp: inside_def)

lemma inside_none: "fst ` A \<inter> K = {} \<Longrightarrow> inside K A = {}"
  by (auto simp: inside_def)

lemma inside_all: "fst ` A \<subseteq> K \<Longrightarrow> inside K A = A"
  by (auto simp: inside_def)

lemma fst_shift: "fst ` shift d ` A = (\<lambda>x. x + d) ` fst ` A"
  by (simp add: shift_def image_image)

lemma shift_no_wrap:
  assumes "s \<le> x" "x < y" "y \<le> e" "n < n + (e - s :: addr)"
  shows "x - s + n < x - s + n + (y - x)"
proof -
  have n: "unat n + unat (e - s) < 18446744073709551616"
    using no_wrap_unat [OF assms(4)] unat_64 [of "n + (e - s)"] by simp
  have u: "unat (x - s) = unat x - unat s" "unat (y - x) = unat y - unat x" "unat (e - s) = unat e - unat s"
    "unat s \<le> unat x" "unat x < unat y" "unat y \<le> unat e"
    using assms by (simp_all add: word_le_nat_alt word_less_nat_alt unat_sub_if')
  define z where "z = x - s + n"
  have z: "unat z = unat (x - s) + unat n"
    using n u by (simp add: z_def unat_word_ariths)
  have "unat (z + (y - x)) = unat z + unat (y - x)"
    using n u z by (simp add: unat_word_ariths)
  then show ?thesis using u unfolding z_def [symmetric] by (simp add: word_less_nat_alt)
qed

lemma shift_interval:
  assumes "x < y" "a < a + (y - x :: addr)"
  shows "(\<lambda>z. z + (a - x)) ` {x..<y} = {a..<a + (y - x)}"
proof -
  have u: "unat (a + (y - x)) = unat a + (unat y - unat x)" "unat x < unat y"
    using no_wrap_unat [OF assms(2)] assms(1) by (simp_all add: word_less_nat_alt unat_sub_if')
  have b: "unat a + (unat y - unat x) < 18446744073709551616" using u(1) unat_64 [of "a + (y - x)"] by simp
  show ?thesis
  proof (intro equalityI subsetI)
    fix w assume "w \<in> (\<lambda>z. z + (a - x)) ` {x..<y}"
    then obtain z where z: "x \<le> z" "z < y" "w = z + (a - x)" by auto
    have "w = a + (z - x)" using z(3) by simp
    moreover have "unat (z - x) = unat z - unat x" "unat x \<le> unat z" "unat z < unat y"
      using z by (simp_all add: word_le_nat_alt word_less_nat_alt unat_sub_if')
    ultimately have "unat w = unat a + (unat z - unat x)" "unat x \<le> unat z" "unat z < unat y"
      using b by (simp_all add: unat_word_ariths)
    then have "unat a \<le> unat w" "unat w < unat (a + (y - x))" using u by linarith+
    then show "w \<in> {a..<a + (y - x)}" by (simp add: word_le_nat_alt word_less_nat_alt)
  next
    fix w assume "w \<in> {a..<a + (y - x)}"
    then have w: "unat a \<le> unat w" "unat w < unat a + (unat y - unat x)"
      using u by (simp_all add: word_le_nat_alt word_less_nat_alt)
    define z where "z = x + (w - a)"
    have "unat (w - a) = unat w - unat a" using w by (simp add: unat_sub_if' word_le_nat_alt)
    then have "unat z = unat x + (unat w - unat a)"
      using w u(2) unat_64 [of y] by (simp add: z_def unat_word_ariths)
    then have "unat x \<le> unat z" "unat z < unat y" using w u(2) by linarith+
    then have "z \<in> {x..<y}" by (simp add: word_le_nat_alt word_less_nat_alt)
    moreover have "w = z + (a - x)" by (simp add: z_def)
    ultimately show "w \<in> (\<lambda>z. z + (a - x)) ` {x..<y}" by blast
  qed
qed

lemma area_moved:
  assumes "moved a v v'" "vma_wf v"
  shows "area v' = shift (a - v_start v) ` area v" "vma_set v' = (\<lambda>z. z + (a - v_start v)) ` vma_set v"
proof -
  have ord: "v_start v < v_end v" using assms(2) by (simp add: vma_wf_def)
  have m: "v_start v' = a" "v_end v' = a + (v_end v - v_start v)" "vma_wf v'" "v_vmaName v' = v_vmaName v"
    "file_byte v' (a + (x - v_start v)) = file_byte v x" for x
    using assms(1) by (simp_all add: moved_def)
  have "a < a + (v_end v - v_start v)" using m(1-3) by (simp add: vma_wf_def)
  then show set: "vma_set v' = (\<lambda>z. z + (a - v_start v)) ` vma_set v"
    unfolding vma_set_def m(1,2) using shift_interval [OF ord] by simp
  have "file_byte v' (z + (a - v_start v)) = file_byte v z" for z
    using m(5) [of z] by (simp add: algebra_simps)
  then show "area v' = shift (a - v_start v) ` area v"
    unfolding area_def set m(4) by (force simp: shift_def)
qed

lemma aligned_pow2: "page_aligned (2 ^ k) a \<longleftrightarrow> take_bit k (a :: addr) = 0"
  by (simp add: page_aligned_def take_bit_eq_mod)

lemma aligned_closed:
  assumes "page_aligned (2 ^ k) a" "page_aligned (2 ^ k) b" "k < 64"
  shows "page_aligned (2 ^ k) (a + b)" "page_aligned (2 ^ k) (a - b)"
  using assms take_bit_page_add [of k a b] take_bit_page_add [of k b "a - b"] by (simp_all add: aligned_pow2)

text \<open>
  One step of the walk, for an area that meets the region in the interval from \<open>x\<close> to \<open>y\<close>: the piece in the middle moves.
\<close>

lemma move_piece:
  assumes "cut x y v v1" "v_start v \<le> x" "x < y" "y \<le> v_end v" "s \<le> x" "y \<le> e"
    and "n < n + (e - s)" "v_pageBytes v = 2 ^ k" "k < 64" "page_aligned (2 ^ k) n" "page_aligned (2 ^ k) s"
  shows "\<exists>v2. v_remap (x - s + n) v1 = Ok v2 \<and> vma_wf v2 \<and> v_pageBytes v2 = 2 ^ k \<and>
    area v2 = shift (n - s) ` {t \<in> area v. fst t \<in> {x..<y}} \<and> vma_set v2 = (\<lambda>z. z + (n - s)) ` {x..<y}"
proof -
  have c: "vma_wf v1" "v_start v1 = x" "v_end v1 = y" "v_pageBytes v1 = 2 ^ k"
    using assms(1,8) by (simp_all add: cut_def)
  have al: "page_aligned (2 ^ k) x" "page_aligned (2 ^ k) y" using c by (auto simp: vma_wf_def)
  have "page_aligned (2 ^ k) (x - s + n)" "page_aligned (2 ^ k) (x - s + n + (y - x))"
    by (intro aligned_closed al assms)+
  then obtain v2 where v2: "v_remap (x - s + n) v1 = Ok v2" "moved (x - s + n) v1 v2"
    using v_remap_moved [of v1 "x - s + n"] shift_no_wrap [OF assms(5,3,6,7)] c by auto
  have "area v1 = {t \<in> area v. fst t \<in> {x..<y}}" by (rule area_cut [OF assms(1,2,4)])
  moreover have "vma_set v1 = {x..<y}" by (simp add: vma_set_def c)
  ultimately show ?thesis
    using area_moved [OF v2(2) c(1)] v2 c by (simp add: moved_def)
qed

lemma cut_refl: "vma_wf v \<Longrightarrow> cut (v_start v) (v_end v) v v"
  by (simp add: cut_def)

lemma cut_trans: "cut a b v v1 \<Longrightarrow> cut c d v1 v2 \<Longrightarrow> a \<le> c \<Longrightarrow> d \<le> b \<Longrightarrow> cut c d v v2"
  unfolding cut_def by (auto dest: order_trans intro: less_le_trans)

lemma remap_vmas_Cons:
  assumes "vma_wf v"
  shows "remap_vmas (AddrRange s e) n seen (v # vs) =
     (if s > v_start v \<and> e < v_end v then
        bind_res (sliceRegionRight s v) (\<lambda>clone1.
        bind_res (sliceRegionLeft e v) (\<lambda>clone2.
        bind_res (sliceRegionLeft s v) (\<lambda>v.
        bind_res (sliceRegionRight e v) (\<lambda>v.
        bind_res (v_remap n v) (\<lambda>v. Ok (seen @ v # vs @ [clone1, clone2]))))))
      else if s \<le> v_start v \<and> v_end v \<le> e then
        bind_res (v_remap (v_start v - s + n) v) (\<lambda>v. remap_vmas (AddrRange s e) n (seen @ [v]) vs)
      else if v_start v < e \<and> s < v_end v then
        if v_start v < s then
          bind_res (sliceRegionRight s v) (\<lambda>clone.
          bind_res (sliceRegionLeft s v) (\<lambda>v.
          bind_res (v_remap n v) (\<lambda>v. remap_vmas (AddrRange s e) n (seen @ [v]) (vs @ [clone]))))
        else
          bind_res (sliceRegionLeft e v) (\<lambda>clone.
          bind_res (sliceRegionRight e v) (\<lambda>v.
          bind_res (v_remap (n + v_start v - s) v) (\<lambda>v. remap_vmas (AddrRange s e) n (seen @ [v]) (vs @ [clone]))))
      else remap_vmas (AddrRange s e) n (seen @ [v]) vs)"
  unfolding remap_vmas.simps isStrictSuperset_def v_isSubset_wf [OF assms] v_intersects_wf [OF assms] ar_ends bind_res_Ok ..

lemma remapped_simps [simp]: "remapped K d {} = {}" "remapped K d (A \<union> B) = remapped K d A \<union> remapped K d B"
  by (auto simp: remapped_def)

lemma remapped_out: "fst ` A \<inter> K = {} \<Longrightarrow> remapped K d A = A"
  by (simp add: remapped_def outside_id inside_none)

lemma remapped_in: "fst ` A \<subseteq> K \<Longrightarrow> remapped K d A = shift d ` A"
  by (simp add: remapped_def outside_all inside_all)

lemma fst_remapped: "fst ` remapped K d A = (fst ` A - K) \<union> (\<lambda>z. z + d) ` (fst ` A \<inter> K)"
  unfolding remapped_def image_Un fst_shift by (force simp: outside_def inside_def)

text \<open>Adding a moved piece in front of the rest of the walk keeps the areas apart.\<close>

lemma moved_apart:
  assumes "V \<inter> C = {}" "I \<subseteq> V" "I \<subseteq> K" "(V \<union> C - K) \<inter> (\<lambda>z. z + d) ` K = {}"
  shows "(\<lambda>z. z + (d :: addr)) ` I \<inter> ((C - K) \<union> (\<lambda>z. z + d) ` (C \<inter> K)) = {}"
  using assms by (auto simp: image_iff) blast+

lemma inside_apart:
  assumes "V - K = I \<union> J" "V \<inter> C = {}" "(V \<union> C - K) \<inter> F = {}" "K \<subseteq> V"
  shows "C \<inter> (I \<union> J) = {}" "F \<inter> (C \<union> (I \<union> J)) = {}" "C \<inter> K = {}"
  using assms by blast+

text \<open>An area that sticks out of the region on one side: \<open>I\<close> stays and \<open>J\<close> moves.\<close>

lemma remapped_split:
  assumes "fst ` A - K = I" "I \<inter> K = {}" "fst ` A \<inter> K = J"
  shows "remapped K d A = shift d ` {t \<in> A. fst t \<in> J} \<union> {t \<in> A. fst t \<in> I}"
proof -
  have "{t \<in> A. fst t \<in> J} = inside K A" unfolding assms(3) [symmetric] inside_def by blast
  then show ?thesis unfolding remapped_def by (simp add: outside_piece [OF assms(1,2)] Un_commute)
qed

lemma split_apart:
  assumes "V - K = I" "V \<inter> K = J" "V \<inter> C = {}" "(V \<union> C - K) \<inter> (\<lambda>z. z + d) ` K = {}"
  shows "(\<lambda>z. z + (d :: addr)) ` J \<inter> ((C \<union> I - K) \<union> (\<lambda>z. z + d) ` ((C \<union> I) \<inter> K)) = {}" "C \<inter> I = {}" "C \<union> I \<subseteq> V \<union> C"
proof -
  have "J \<inter> (C \<union> I) = {}" "J \<subseteq> K" "J \<union> (C \<union> I) - K \<subseteq> V \<union> C - K" "C \<inter> I = {}" "C \<union> I \<subseteq> V \<union> C" using assms(1-3) by blast+
  then show "(\<lambda>z. z + d) ` J \<inter> ((C \<union> I - K) \<union> (\<lambda>z. z + d) ` ((C \<union> I) \<inter> K)) = {}" "C \<inter> I = {}" "C \<union> I \<subseteq> V \<union> C"
    using moved_apart [of J "C \<union> I" J K d] assms(4) by blast+
qed

lemma overlap_count_Cons:
  "vma_wf v \<Longrightarrow> overlap_count (AddrRange s e) (v # vs) = of_bool (v_start v < e \<and> s < v_end v) + overlap_count (AddrRange s e) vs"
  by (simp add: overlap_count_def v_intersects_wf)

lemma overlap_count_snoc:
  "v_intersects w r = Ok False \<Longrightarrow> overlap_count r (vs @ [w]) = overlap_count r vs"
  by (simp add: overlap_count_def)

lemma slice_apart:
  "sliceRegionRight s v = Ok w \<Longrightarrow> v_intersects w (AddrRange s e) = Ok False"
  "sliceRegionLeft e v = Ok w \<Longrightarrow> v_intersects w (AddrRange s e) = Ok False"
  using slice_right_apart [of "AddrRange s e" v w] slice_left_apart [of "AddrRange s e" v w] by simp_all

text \<open>
  The walk of one area: it is moved as a whole, in one piece of its own, with a piece left behind for a later round, or
  not at all. The areas still to come must not lie where the region goes.
\<close>

lemma remaps_step:
  assumes "remap_vmas (AddrRange s e) n seen pending = remap_vmas (AddrRange s e) n (seen @ [v2]) vs1"
    and "remaps k s e n (seen @ [v2]) vs1" "vma_wf v2" "v_pageBytes v2 = 2 ^ k"
    and "area v2 \<union> remapped {s..<e} (n - s) (areas vs1) = remapped {s..<e} (n - s) (areas pending)"
    and "vma_set v2 \<inter> ((covered vs1 - {s..<e}) \<union> (\<lambda>z. z + (n - s)) ` (covered vs1 \<inter> {s..<e})) = {}"
  shows "remaps k s e n seen pending"
proof -
  obtain vs' where vs': "remap_vmas (AddrRange s e) n (seen @ [v2]) vs1 = Ok ((seen @ [v2]) @ vs')" "vmas_ok (2 ^ k) vs'"
    "areas vs' = remapped {s..<e} (n - s) (areas vs1)"
    using assms(2) unfolding remaps_def by blast
  have "covered vs' = (covered vs1 - {s..<e}) \<union> (\<lambda>z. z + (n - s)) ` (covered vs1 \<inter> {s..<e})"
    unfolding covered_areas vs'(3) by (rule fst_remapped)
  then show ?thesis using vs' assms unfolding remaps_def by (intro exI [of _ "v2 # vs'"]) (simp add: vmas_ok_simps)
qed

lemma remaps_stick_out:
  assumes "remap_vmas (AddrRange s e) n seen (v # vs) = remap_vmas (AddrRange s e) n (seen @ [v2]) (vs @ [l])"
    and "vmas_ok (2 ^ k) (v # vs)" "(vma_set v \<union> covered vs - {s..<e}) \<inter> (\<lambda>z. z + (n - s)) ` {s..<e} = {}"
    and "cut a b v l" "v_start v \<le> a" "b \<le> v_end v" "vma_set v - {s..<e} = {a..<b}" "{a..<b} \<inter> {s..<e} = {}"
      "vma_set v \<inter> {s..<e} = J"
    and "vma_wf v2" "v_pageBytes v2 = 2 ^ k" "area v2 = shift (n - s) ` {t \<in> area v. fst t \<in> J}"
      "vma_set v2 = (\<lambda>z. z + (n - s)) ` J"
    and "v_intersects l (AddrRange s e) = Ok False" "v_start v < e \<and> s < v_end v"
    and IH: "\<And>vs1. length vs1 + overlap_count (AddrRange s e) vs1 < length (v # vs) + overlap_count (AddrRange s e) (v # vs) \<Longrightarrow>
      vmas_ok (2 ^ k) vs1 \<Longrightarrow> covered vs1 \<subseteq> covered (v # vs) \<Longrightarrow> remaps k s e n (seen @ [v2]) vs1"
  shows "remaps k s e n seen (v # vs)"
proof -
  let ?r = "AddrRange s e" and ?K = "{s..<e}" and ?d = "n - s"
  have v: "vma_wf v" "v_pageBytes v = 2 ^ k" "vma_set v \<inter> covered vs = {}" "vmas_ok (2 ^ k) vs"
    using assms(2) unfolding vmas_ok_simps by blast+
  note ap = split_apart [OF assms(7,9) v(3) assms(3)]
  have l: "area l = {t \<in> area v. fst t \<in> {a..<b}}" "vma_set l = {a..<b}" "vma_wf l" "v_pageBytes l = 2 ^ k"
    using area_cut [OF assms(4-6)] vma_set_cut [OF assms(4-6)] assms(4) v(2) by (simp_all add: cut_def)
  have "remapped ?K ?d (area v) = area v2 \<union> area l"
    unfolding assms(12) l(1) by (rule remapped_split) (simp_all only: fst_area assms(7-9))
  moreover have "remapped ?K ?d (area l) = area l" by (rule remapped_out) (simp only: fst_area l(2) assms(8))
  ultimately have ar: "area v2 \<union> remapped ?K ?d (areas (vs @ [l])) = remapped ?K ?d (areas (v # vs))"
    by (simp add: Un_ac)
  have "remaps k s e n (seen @ [v2]) (vs @ [l])"
  proof (rule IH)
    show "vmas_ok (2 ^ k) (vs @ [l])" using v(4) l ap(2) by (simp add: vmas_ok_simps)
    show "covered (vs @ [l]) \<subseteq> covered (v # vs)" using ap(3) by (simp add: l(2))
    show "length (vs @ [l]) + overlap_count ?r (vs @ [l]) < length (v # vs) + overlap_count ?r (v # vs)"
      using assms(14,15) by (simp add: overlap_count_Cons [OF v(1)] overlap_count_snoc)
  qed
  moreover have "vma_set v2 \<inter> (covered (vs @ [l]) - ?K \<union> (\<lambda>z. z + ?d) ` (covered (vs @ [l]) \<inter> ?K)) = {}"
    using ap(1) by (simp add: assms(13) l(2))
  ultimately show ?thesis using remaps_step [OF assms(1) _ assms(10,11) ar] by blast
qed

lemma remaps_inside:
  assumes m: "move_ok k s e n" and ok: "vmas_ok (2 ^ k) (v # vs)" "(vma_set v \<union> covered vs - {s..<e}) \<inter> (\<lambda>z. z + (n - s)) ` {s..<e} = {}"
    and inside: "v_start v < s" "e < v_end v"
  shows "remaps k s e n seen (v # vs)"
proof -
  let ?r = "AddrRange s e" and ?K = "{s..<e}" and ?d = "n - s"
  note m = m [unfolded move_ok_def]
  have m: "s < e" "n < n + (e - s)" "k < 64" "page_aligned (2 ^ k) s" "page_aligned (2 ^ k) e" "page_aligned (2 ^ k) n"
    using m by blast+
  have v: "vma_wf v" "v_pageBytes v = 2 ^ k" "vma_set v \<inter> covered vs = {}" "vmas_ok (2 ^ k) vs"
    using ok(1) unfolding vmas_ok_simps by blast+
  have le: "s \<le> v_end v" "v_start v \<le> e" "s < v_end v" using inside m(1) by order+
  obtain l where l: "sliceRegionRight s v = Ok l" "cut (v_start v) s v l"
    using sliceRegionRight_cut [OF v(1) inside(1) le(1)] v(2) m(4) by auto
  obtain r' where r': "sliceRegionLeft e v = Ok r'" "cut e (v_end v) v r'"
    using sliceRegionLeft_cut [OF v(1) le(2) inside(2)] v(2) m(5) by auto
  obtain va where va: "sliceRegionLeft s v = Ok va" "cut s (v_end v) v va"
    using sliceRegionLeft_cut [OF v(1) less_imp_le [OF inside(1)] le(3)] v(2) m(4) by auto
  have a: "vma_wf va" "v_start va = s" "v_end va = v_end v" "v_pageBytes va = 2 ^ k" using va(2) v(2) by (simp_all add: cut_def)
  obtain v1 where v1: "sliceRegionRight e va = Ok v1" "cut s e va v1"
    using sliceRegionRight_cut [OF a(1), of e] a m(1,5) inside(2) less_imp_le by auto
  obtain v2 where v2: "v_remap (s - s + n) v1 = Ok v2" "vma_wf v2" "v_pageBytes v2 = 2 ^ k"
    "area v2 = shift ?d ` {t \<in> area v. fst t \<in> ?K}" "vma_set v2 = (\<lambda>z. z + ?d) ` ?K"
    using move_piece [OF cut_trans [OF va(2) v1(2) order_refl less_imp_le [OF inside(2)]]
        less_imp_le [OF inside(1)] m(1) less_imp_le [OF inside(2)] order_refl order_refl m(2) v(2) m(3,6,4)] by blast
  note iv = interval_inside [OF inside(1) m(1) inside(2), folded vma_set_def]
  have out: "area l \<union> area r' = outside ?K (area v)"
    unfolding area_cut [OF l(2) order_refl le(1)] area_cut [OF r'(2) le(2) order_refl]
    using iv by (intro outside_pieces) (simp_all only: fst_area)
  note dis = inside_apart [OF iv(1) v(3) ok(2) iv(2)]
  have rest: "remapped ?K ?d (areas vs) = areas vs" by (rule remapped_out) (simp only: covered_areas [symmetric] dis(3))
  have sets: "vma_set l = {v_start v..<s}" "vma_set r' = {e..<v_end v}"
    using vma_set_cut(1) [OF l(2) order_refl le(1)] vma_set_cut(1) [OF r'(2) le(2) order_refl] by blast+
  have wf: "vma_wf l" "v_pageBytes l = 2 ^ k" "vma_wf r'" "v_pageBytes r' = 2 ^ k" using l(2) r'(2) v(2) by (simp_all add: cut_def)
  have "vmas_ok (2 ^ k) (v2 # vs @ [l, r'])" using v(4) v2(2,3) wf dis iv(5) by (simp add: vmas_ok_simps sets v2(5))
  moreover have "areas (v2 # vs @ [l, r']) = remapped ?K ?d (areas (v # vs))"
    unfolding areas_simps remapped_simps rest using out by (simp add: v2(4) remapped_def inside_def Un_ac)
  moreover have "remap_vmas ?r n seen (v # vs) = Ok (seen @ v2 # vs @ [l, r'])"
    using inside l(1) r'(1) va(1) v1(1) v2(1)
    by (simp only: remap_vmas_Cons [OF v(1)] simp_thms if_True if_False bind_res_Ok diff_self add_0)
  ultimately show ?thesis unfolding remaps_def by blast
qed

lemma remaps_sub:
  assumes m: "move_ok k s e n" and ok: "vmas_ok (2 ^ k) (v # vs)" "(vma_set v \<union> covered vs - {s..<e}) \<inter> (\<lambda>z. z + (n - s)) ` {s..<e} = {}"
    and sub: "s \<le> v_start v" "v_end v \<le> e" and IH: "\<And>w. remaps k s e n (seen @ [w]) vs"
  shows "remaps k s e n seen (v # vs)"
proof -
  let ?r = "AddrRange s e" and ?K = "{s..<e}" and ?d = "n - s"
  have m: "n < n + (e - s)" "k < 64" "page_aligned (2 ^ k) s" "page_aligned (2 ^ k) n" using m unfolding move_ok_def by blast+
  have v: "vma_wf v" "v_pageBytes v = 2 ^ k" "vma_set v \<inter> covered vs = {}" "v_start v < v_end v"
    using ok(1) unfolding vmas_ok_simps vma_wf_def by blast+
  obtain v2 where v2: "v_remap (v_start v - s + n) v = Ok v2" "vma_wf v2" "v_pageBytes v2 = 2 ^ k"
    "area v2 = shift ?d ` {t \<in> area v. fst t \<in> {v_start v..<v_end v}}" "vma_set v2 = (\<lambda>z. z + ?d) ` vma_set v"
    using move_piece [OF cut_refl [OF v(1)] order_refl v(4) order_refl sub m(1) v(2) m(2,4,3)]
    unfolding vma_set_def by blast
  have in_K: "vma_set v \<subseteq> ?K" unfolding vma_set_def by (rule interval_sub [OF sub])
  have "{t \<in> area v. fst t \<in> {v_start v..<v_end v}} = area v"
    unfolding vma_set_def [symmetric] by (auto dest: area_fst)
  then have ar: "area v2 \<union> remapped ?K ?d (areas vs) = remapped ?K ?d (areas (v # vs))"
    using v2(4) in_K unfolding areas_simps remapped_simps by (simp add: remapped_in fst_area)
  have ap: "vma_set v2 \<inter> ((covered vs - ?K) \<union> (\<lambda>z. z + ?d) ` (covered vs \<inter> ?K)) = {}"
    unfolding v2(5) by (rule moved_apart [OF v(3) order_refl in_K ok(2)])
  have step: "remap_vmas ?r n seen (v # vs) = remap_vmas ?r n (seen @ [v2]) vs"
    using sub v2(1) leD [OF sub(1)] by (simp only: remap_vmas_Cons [OF v(1)] simp_thms if_True if_False bind_res_Ok)
  show ?thesis by (rule remaps_step [OF step IH v2(2,3) ar ap])
qed

lemma remaps_apart:
  assumes "s < e" and ok: "vmas_ok (2 ^ k) (v # vs)" "(vma_set v \<union> covered vs - {s..<e}) \<inter> (\<lambda>z. z + (n - s)) ` {s..<e} = {}"
    and apart: "e \<le> v_start v \<or> v_end v \<le> s" and IH: "remaps k s e n (seen @ [v]) vs"
  shows "remaps k s e n seen (v # vs)"
proof -
  let ?r = "AddrRange s e" and ?K = "{s..<e}" and ?d = "n - s"
  have v: "vma_wf v" "v_pageBytes v = 2 ^ k" "vma_set v \<inter> covered vs = {}" "v_start v < v_end v"
    using ok(1) unfolding vmas_ok_simps vma_wf_def by blast+
  note iv = interval_apart [OF apart, folded vma_set_def]
  have ar: "area v \<union> remapped ?K ?d (areas vs) = remapped ?K ?d (areas (v # vs))"
    using iv unfolding areas_simps remapped_simps by (simp add: remapped_out fst_area)
  have ap: "vma_set v \<inter> ((covered vs - ?K) \<union> (\<lambda>z. z + ?d) ` (covered vs \<inter> ?K)) = {}"
    using iv v(3) ok(2) by blast
  have "remap_vmas ?r n seen (v # vs) = remap_vmas ?r n (seen @ [v]) vs"
    by (simp only: remap_vmas_Cons [OF v(1)] simp_thms if_True if_False bind_res_Ok interval_apart_tests [OF apart assms(1) v(4)])
  then show ?thesis using remaps_step [OF _ IH v(1,2) ar ap] by blast
qed

lemma remap_vmas_areas:
  assumes "move_ok k s e n" "vmas_ok (2 ^ k) vs" "(covered vs - {s..<e}) \<inter> (\<lambda>z. z + (n - s)) ` {s..<e} = {}"
  shows "remaps k s e n seen vs"
  using assms(2,3)
proof (induction vs arbitrary: seen rule: measure_induct_rule [where f = "\<lambda>vs. length vs + overlap_count (AddrRange s e) vs"])
  case (less pending)
  let ?r = "AddrRange s e" and ?K = "{s..<e}" and ?d = "n - s"
  have m: "s < e" "n < n + (e - s)" "k < 64" "page_aligned (2 ^ k) s" "page_aligned (2 ^ k) e" "page_aligned (2 ^ k) n"
    using assms(1) unfolding move_ok_def by blast+
  have IH: "remaps k s e n seen' vs1"
    if "length vs1 + overlap_count ?r vs1 < length pending + overlap_count ?r pending" "vmas_ok (2 ^ k) vs1"
      "covered vs1 \<subseteq> covered pending" for seen' vs1
  proof (rule less.IH [OF that(1,2)])
    show "(covered vs1 - ?K) \<inter> (\<lambda>z. z + ?d) ` ?K = {}" using less.prems(2) that(3) by blast
  qed
  show ?case
  proof (cases pending)
    case Nil
    then show ?thesis by (simp add: remaps_def remap_vmas.simps vmas_ok_simps)
  next
    case (Cons v vs)
    have ok: "vmas_ok (2 ^ k) (v # vs)" "(vma_set v \<union> covered vs - ?K) \<inter> (\<lambda>z. z + ?d) ` ?K = {}"
      using less.prems unfolding Cons covered_simps by blast+
    have v: "vma_wf v" "v_pageBytes v = 2 ^ k" "vmas_ok (2 ^ k) vs" using ok(1) unfolding vmas_ok_simps by blast+
    note IH = IH [unfolded Cons]
    have rest: "remaps k s e n seen' vs" for seen'
    proof (rule IH)
      show "length vs + overlap_count ?r vs < length (v # vs) + overlap_count ?r (v # vs)"
        unfolding overlap_count_Cons [OF v(1)] by simp
    qed (simp_all add: v(3))
    note walk = remap_vmas_Cons [OF v(1)] simp_thms if_True if_False bind_res_Ok
    show ?thesis unfolding Cons
    proof (cases rule: interval_cases [where a = "v_start v" and b = "v_end v" and s = s and e = e])
      case inside
      show "remaps k s e n seen (v # vs)" by (rule remaps_inside [OF assms(1) ok inside])
    next
      case sub
      show "remaps k s e n seen (v # vs)" by (rule remaps_sub [OF assms(1) ok sub rest])
    next
      case right
      have le: "s \<le> v_end v" using right(3) by (rule less_imp_le)
      obtain l where l: "sliceRegionRight s v = Ok l" "cut (v_start v) s v l"
        using sliceRegionRight_cut [OF v(1) right(1) le] v(2) m(4) by auto
      obtain v1 where v1: "sliceRegionLeft s v = Ok v1" "cut s (v_end v) v v1"
        using sliceRegionLeft_cut [OF v(1) less_imp_le [OF right(1)] right(3)] v(2) m(4) by auto
      obtain v2 where v2: "v_remap (s - s + n) v1 = Ok v2" "vma_wf v2" "v_pageBytes v2 = 2 ^ k"
        "area v2 = shift ?d ` {t \<in> area v. fst t \<in> {s..<v_end v}}" "vma_set v2 = (\<lambda>z. z + ?d) ` {s..<v_end v}"
        using move_piece [OF v1(2) less_imp_le [OF right(1)] right(3) order_refl order_refl right(2) m(2) v(2) m(3,6,4)] by blast
      note iv = interval_right [OF right, folded vma_set_def] interval_right_in [OF right, folded vma_set_def]
      have step: "remap_vmas ?r n seen (v # vs) = remap_vmas ?r n (seen @ [v2]) (vs @ [l])"
        using l(1) v1(1) v2(1) by (simp only: walk interval_right_tests [OF right m(1)] diff_self add_0)
      show "remaps k s e n seen (v # vs)"
        by (rule remaps_stick_out [OF step ok l(2) order_refl le iv(1,2,3) v2(2-5) slice_apart(1) [OF l(1)] _ IH])
          (simp_all add: interval_right_tests [OF right m(1)])
    next
      case left
      have le: "v_start v \<le> e" using left(3) by (rule less_imp_le)
      obtain l where l: "sliceRegionLeft e v = Ok l" "cut e (v_end v) v l"
        using sliceRegionLeft_cut [OF v(1) le left(2)] v(2) m(5) by auto
      obtain v1 where v1: "sliceRegionRight e v = Ok v1" "cut (v_start v) e v v1"
        using sliceRegionRight_cut [OF v(1) left(3) less_imp_le [OF left(2)]] v(2) m(5) by auto
      have st: "v_start v1 = v_start v" using v1(2) by (simp add: cut_def)
      obtain v2 where v2: "v_remap (v_start v - s + n) v1 = Ok v2" "vma_wf v2" "v_pageBytes v2 = 2 ^ k"
        "area v2 = shift ?d ` {t \<in> area v. fst t \<in> {v_start v..<e}}" "vma_set v2 = (\<lambda>z. z + ?d) ` {v_start v..<e}"
        using move_piece [OF v1(2) order_refl left(3) less_imp_le [OF left(2)] left(1) order_refl m(2) v(2) m(3,6,4)] by blast
      note iv = interval_left [OF left, folded vma_set_def] interval_left_in [OF left, folded vma_set_def]
      have "v_remap (n + v_start v1 - s) v1 = Ok v2" using v2(1) unfolding st by (simp add: algebra_simps)
      then have step: "remap_vmas ?r n seen (v # vs) = remap_vmas ?r n (seen @ [v2]) (vs @ [l])"
        using l(1) v1(1) by (simp only: walk interval_left_tests [OF left m(1)])
      show "remaps k s e n seen (v # vs)"
        by (rule remaps_stick_out [OF step ok l(2) le order_refl iv(1,2,3) v2(2-5) slice_apart(2) [OF l(1)] _ IH])
          (simp_all add: interval_left_tests [OF left m(1)])
    next
      case apart
      show "remaps k s e n seen (v # vs)" by (rule remaps_apart [OF m(1) ok apart rest])
    qed
  qed
qed

end
