(* ===== verification/Mem_Ops.thy ===== *)
theory Mem_Ops
  imports Mem_State
begin

text \<open>
  The operations of the memory state on whole regions, proved against the abstract picture of an address space: the
  set of its areas and the translations of its page table. A space is well formed (\<^const>\<open>vmas_ok\<close> and every translated
  address lies in an area); freeing, moving and mapping regions, growing the heap and looking for a free place keep
  it so and change exactly the addresses of the region.
\<close>

unbundle bit_operations_syntax

section \<open>Well-formed address spaces\<close>

text \<open>
  The address space of a process: well-formed areas that do not overlap, and no translation outside of them.
\<close>

definition space_ok :: "nat \<Rightarrow> mem_state \<Rightarrow> page_table \<Rightarrow> bool" where
  "space_ok k ms pt \<longleftrightarrow> pt_ok k pt \<and> ms_pageBytes ms = 2 ^ k \<and> vmas_ok (2 ^ k) (ms_vmaList ms) \<and>
     (\<forall>x. pt_translate pt x \<noteq> None \<longrightarrow> x \<in> covered (ms_vmaList ms))"

text \<open>A region of whole pages that does not reach past the end of the address space.\<close>

definition region :: "nat \<Rightarrow> addr \<Rightarrow> addr \<Rightarrow> bool" where
  "region k s l \<longleftrightarrow> take_bit k s = 0 \<and> take_bit k l = 0 \<and> s < s + l"

text \<open>The threads whose TLBs can be flushed without a second stage.\<close>

fun plain_tlb :: "tlb \<Rightarrow> bool" where
  "plain_tlb (Tlb u s2) \<longleftrightarrow> isStage2 u \<or> \<not> isHyp u"

definition threads_ok :: "thread list \<Rightarrow> bool" where
  "threads_ok ths \<longleftrightarrow> (\<forall>t\<in>set ths. plain_tlb (th_dtb t) \<and> plain_tlb (th_itb t))"

text \<open>Looking for a free region: the walk stops at the first place that is free.\<close>

definition place :: "bool \<Rightarrow> addr \<Rightarrow> addr \<Rightarrow> nat \<Rightarrow> addr" where
  "place growsDown st pb i = (if growsDown then st - of_nat i * pb else st + of_nat i * pb)"

text \<open>One anonymous area of eight pages with its second page mapped.\<close>

definition vma_demo :: vma where
  "vma_demo = \<lparr>v_addrRange = AddrRange 0x10000 0x18000, v_pageBytes = 4096, v_origHostBuf = None, v_hostBuf = Uninit,
     v_hostBufLen = None, v_vmaName = ''anon''\<rparr>"

definition ms_demo :: mem_state where
  "ms_demo = MemState 0 4096 0x20000 0x8000000 0x100000 0 0x1c000 \<lparr>ms_vmaList := [vma_demo]\<rparr>"

definition pt_demo :: page_table where
  "pt_demo = pt4k\<lparr>pTable := [0x11000 \<mapsto> \<lparr>pte_paddr = 0x5000, pte_flags = 0\<rparr>]\<rparr>"

text \<open>A host without files.\<close>

definition host_none :: host where
  "host_none = \<lparr>host_fstat = \<lambda>_. None, host_mmap = \<lambda>_ _ _. None\<rparr>"

text \<open>The areas of a restored address space are the old ones without their files.\<close>

definition forget_file :: "addr \<times> string \<times> 8 word option \<Rightarrow> addr \<times> string \<times> 8 word option" where
  "forget_file = (\<lambda>(x, n, _). (x, n, None))"

section \<open>The loops over the page table\<close>

lemma pow_63: "k < 63 \<Longrightarrow> (2 :: int) ^ k < 2 ^ 63"
  by (rule power_strict_increasing) simp_all

lemma sint_page: "k < 63 \<Longrightarrow> sint ((2 :: addr) ^ k) = 2 ^ k"
proof -
  assume k: "k < 63"
  have "sint ((2 :: addr) ^ k) = signed_take_bit 63 (uint ((2 :: addr) ^ k))" by (simp add: sint_uint)
  also have "\<dots> = signed_take_bit 63 (2 ^ k)" using k by (simp add: uint_page_size)
  also have "\<dots> = (2 :: int) ^ k"
    using pow_63 [OF k] by (intro signed_take_bit_int_eq_self) (simp_all add: order_trans [of _ 0])
  finally show ?thesis .
qed

lemma npages_page: "npages k (2 ^ k) = 1"
  using npages_step [of "2 ^ k" k] npages_0 [of 0 k] by simp

lemma pspan_one_page: "pspan k a (2 ^ k) = page_span k a 1"
  by (simp add: pspan_def npages_page)

lemma page_span_Suc:
  assumes "Suc n * 2 ^ k \<le> 2 ^ 64" "k < 64"
  shows "page_span k a (Suc n) = page_span k a 1 \<union> page_span k (a + 2 ^ k) n" "page_span k a 1 \<inter> page_span k (a + 2 ^ k) n = {}"
proof -
  have p: "unat ((2 :: addr) ^ k) = 2 ^ k" using assms(2) by (simp add: unat_exp_lower)
  have iff: "unat (x - (a + 2 ^ k)) < n * 2 ^ k \<longleftrightarrow> 2 ^ k \<le> unat (x - a) \<and> unat (x - a) < Suc n * 2 ^ k" for x
  proof -
    have d: "x - (a + 2 ^ k) = (x - a) - 2 ^ k" by simp
    show ?thesis
    proof (cases "2 ^ k \<le> unat (x - a)")
      case True
      then have "unat (x - (a + 2 ^ k)) = unat (x - a) - 2 ^ k" unfolding d by (simp add: unat_sub_if' p word_le_nat_alt)
      then show ?thesis using True by auto
    next
      case False
      then have "unat (x - (a + 2 ^ k)) = 2 ^ 64 + unat (x - a) - 2 ^ k" unfolding d by (simp add: unat_sub_if' p word_le_nat_alt)
      then show ?thesis using False assms(1) by auto
    qed
  qed
  show "page_span k a (Suc n) = page_span k a 1 \<union> page_span k (a + 2 ^ k) n"
    unfolding page_span_def iff by auto
  show "page_span k a 1 \<inter> page_span k (a + 2 ^ k) n = {}"
    unfolding page_span_def iff by auto
qed

lemma page_same:
  assumes "pt_ok k pt" "take_bit k a = 0" "x \<in> page_span k a 1"
  shows "pageAlign pt x = a"
proof -
  have k: "k < 64" using assms(1) by (simp add: pt_ok_def)
  note off = aligned_offset [OF assms(1,2)]
  have "(2::nat) ^ k \<le> 2 ^ 64" using k by (intro power_increasing) simp_all
  then have "pageAlign pt x \<in> page_range k a 1"
    using pageAlign_in_range [OF assms(1) off, of 1 x] assms(3) by simp
  then show ?thesis by (auto simp: page_range_def)
qed

lemma page_all:
  assumes "pt_ok k pt" "take_bit k a = 0"
  shows "(\<forall>x\<in>page_span k a 1. pt_translate pt x = None) \<longleftrightarrow> pt_translate pt a = None"
    "(\<forall>x\<in>page_span k a 1. pt_translate pt x \<noteq> None) \<longleftrightarrow> pt_translate pt a \<noteq> None"
proof -
  have a: "a \<in> page_span k a 1" by (simp add: page_span_def)
  have e: "pt_translate pt x = None \<longleftrightarrow> pt_translate pt a = None" if "x \<in> page_span k a 1" for x
    using page_same [OF assms that] page_same [OF assms a] by (simp add: pt_translate_alt)
  show "(\<forall>x\<in>page_span k a 1. pt_translate pt x = None) \<longleftrightarrow> pt_translate pt a = None" using a e by blast
  show "(\<forall>x\<in>page_span k a 1. pt_translate pt x \<noteq> None) \<longleftrightarrow> pt_translate pt a \<noteq> None" using a e by metis
qed

lemma unmap_page_eq:
  assumes "pt_ok k pt" "take_bit k a = 0"
  shows "\<exists>pt'. unmap_page (2 ^ k) a pt = Ok pt' \<and> pt_ok k pt' \<and>
    (\<forall>x. pt_translate pt' x = (if x \<in> page_span k a 1 then None else pt_translate pt x))"
proof -
  have k: "k < 63" using assms(1) by (simp add: pt_ok_def)
  note off = aligned_offset [OF assms] and sz = pow_63 [OF k]
  have un: "unmap_page (2 ^ k) a pt = (if pt_translate pt a = None then Ok pt else pt_unmap pt a (2 ^ k))"
    unfolding unmap_page_def sint_page [OF k] pt_isUnmapped_eq [OF assms(1) off sz] pspan_one_page page_all [OF assms] by simp
  show ?thesis
  proof (cases "pt_translate pt a = None")
    case True
    then show ?thesis using un assms(1) page_all(1) [OF assms] by auto
  next
    case False
    then obtain pt' where pt': "pt_unmap pt a (2 ^ k) = Ok pt'"
      using pt_unmap_total [OF assms(1) off sz] page_all(2) [OF assms] by (auto simp: pspan_one_page)
    have "unmap_page (2 ^ k) a pt = Ok pt'" using un pt' False by presburger
    then show ?thesis using pt_unmap_eq [OF assms(1) off sz pt'] by (simp add: pspan_one_page)
  qed
qed

text \<open>A length of \<open>n\<close> pages, where \<open>2 ^ (64 - k)\<close> pages have length zero.\<close>

lemma length_step:
  assumes "Suc n * 2 ^ k \<le> 2 ^ 64" "k < 64"
  shows "of_nat (Suc n) * 2 ^ k - 2 ^ k = (of_nat n * 2 ^ k :: addr)" "(0 :: addr) < of_nat n * 2 ^ k \<longleftrightarrow> n \<noteq> 0"
proof -
  show "of_nat (Suc n) * 2 ^ k - 2 ^ k = (of_nat n * 2 ^ k :: addr)" by (simp add: algebra_simps)
  have "n * 2 ^ k < 2 ^ 64" using assms by (rule_tac page_bound [of "Suc n"]) simp_all
  then have "unat (of_nat n * 2 ^ k :: addr) = n * 2 ^ k" by (rule unat_mult_page)
  then show "(0 :: addr) < of_nat n * 2 ^ k \<longleftrightarrow> n \<noteq> 0" by (simp add: word_less_nat_alt)
qed

lemma unmap_pages_eq:
  assumes "pt_ok k pt" "take_bit k a = 0" "Suc n * 2 ^ k \<le> 2 ^ 64"
  shows "\<exists>pt'. unmap_pages (2 ^ k) a (of_nat (Suc n) * 2 ^ k) pt = Done pt' \<and> pt_ok k pt' \<and>
    (\<forall>x. pt_translate pt' x = (if x \<in> page_span k a (Suc n) then None else pt_translate pt x))"
  using assms
proof (induction n arbitrary: a pt)
  case 0
  have k: "k < 64" using 0(1) by (simp add: pt_ok_def)
  obtain pt' where "unmap_page (2 ^ k) a pt = Ok pt'" "pt_ok k pt'"
    "\<forall>x. pt_translate pt' x = (if x \<in> page_span k a 1 then None else pt_translate pt x)"
    using unmap_page_eq [OF 0(1,2)] by blast
  then show ?case using k by (subst unmap_pages.simps) simp
next
  case (Suc n)
  have k: "k < 64" using Suc.prems(1) by (simp add: pt_ok_def)
  obtain pt1 where 1: "unmap_page (2 ^ k) a pt = Ok pt1" "pt_ok k pt1"
    "\<forall>x. pt_translate pt1 x = (if x \<in> page_span k a 1 then None else pt_translate pt x)"
    using unmap_page_eq [OF Suc.prems(1,2)] by blast
  have al: "take_bit k (a + 2 ^ k) = 0" using Suc.prems(2) k by (simp add: take_bit_page_add take_bit_exp_0)
  have "Suc n * 2 ^ k \<le> (2 :: nat) ^ 64" using Suc.prems(3) by simp
  then obtain pt' where 2: "unmap_pages (2 ^ k) (a + 2 ^ k) (of_nat (Suc n) * 2 ^ k) pt1 = Done pt'" "pt_ok k pt'"
    "\<forall>x. pt_translate pt' x = (if x \<in> page_span k (a + 2 ^ k) (Suc n) then None else pt_translate pt1 x)"
    using Suc.IH [OF 1(2) al] by blast
  have "unmap_pages (2 ^ k) a (of_nat (Suc (Suc n)) * 2 ^ k) pt = Done pt'"
    by (subst unmap_pages.simps) (simp only: 1 bind_run_simps Let_def length_step [OF Suc.prems(3) k] 2 nat.simps not_False_eq_True if_True)
  then show ?case using 1(3) 2(2,3) page_span_Suc(1) [OF Suc.prems(3) k] by auto
qed

lemma remap_page_eq:
  assumes "pt_ok k pt" "take_bit k a = 0" "take_bit k b = 0" "pt_translate pt b = None"
  shows "\<exists>pt'. remap_page (2 ^ k) a b pt = Ok pt' \<and> pt_ok k pt' \<and>
    (\<forall>x. pt_translate pt' x = (if x \<in> page_span k b 1 then pt_translate pt (a + (x - b))
       else if x \<in> page_span k a 1 then None else pt_translate pt x))"
proof -
  have k: "k < 63" using assms(1) by (simp add: pt_ok_def)
  note off = aligned_offset [OF assms(1,2)] aligned_offset [OF assms(1,3)] and sz = pow_63 [OF k]
  have un: "remap_page (2 ^ k) a b pt = (if pt_translate pt a = None then Ok pt else pt_remap pt a (2 ^ k) b)"
    unfolding remap_page_def sint_page [OF k] pt_isUnmapped_eq [OF assms(1) off(1) sz] pspan_one_page page_all [OF assms(1,2)] by simp
  have new: "\<forall>x\<in>page_span k b 1. pt_translate pt x = None" using page_all(1) [OF assms(1,3)] assms(4) by blast
  show ?thesis
  proof (cases "pt_translate pt a = None")
    case True
    then have old: "\<forall>x\<in>page_span k a 1. pt_translate pt x = None" using page_all(1) [OF assms(1,2)] by blast
    have "a + (x - b) \<in> page_span k a 1" if "x \<in> page_span k b 1" for x using that by (simp add: page_span_def)
    then have "\<forall>x. pt_translate pt x = (if x \<in> page_span k b 1 then pt_translate pt (a + (x - b))
       else if x \<in> page_span k a 1 then None else pt_translate pt x)" using old new by auto
    then show ?thesis using un True assms(1) by auto
  next
    case False
    then have "\<forall>x\<in>page_span k a 1. pt_translate pt x \<noteq> None" using page_all(2) [OF assms(1,2)] by blast
    from pt_remap_eq [OF assms(1) off sz, unfolded pspan_one_page, OF this new] un False show ?thesis by auto
  qed
qed

lemma remap_pages_eq:
  assumes "pt_ok k pt" "take_bit k a = 0" "take_bit k b = 0" "Suc n * 2 ^ k \<le> 2 ^ 64"
    and "\<forall>x\<in>page_span k b (Suc n). pt_translate pt x = None" "page_span k a (Suc n) \<inter> page_span k b (Suc n) = {}"
  shows "\<exists>pt'. remap_pages (2 ^ k) a b (of_nat (Suc n) * 2 ^ k) pt = Done pt' \<and> pt_ok k pt' \<and>
    (\<forall>x. pt_translate pt' x = (if x \<in> page_span k b (Suc n) then pt_translate pt (a + (x - b))
       else if x \<in> page_span k a (Suc n) then None else pt_translate pt x))"
  using assms
proof (induction n arbitrary: a b pt)
  case 0
  have k: "k < 64" using 0(1) by (simp add: pt_ok_def)
  have "pt_translate pt b = None" using 0(5) by (simp add: page_span_def)
  then obtain pt' where "remap_page (2 ^ k) a b pt = Ok pt'" "pt_ok k pt'"
    "\<forall>x. pt_translate pt' x = (if x \<in> page_span k b 1 then pt_translate pt (a + (x - b))
       else if x \<in> page_span k a 1 then None else pt_translate pt x)"
    using remap_page_eq [OF 0(1-3)] by blast
  then show ?case using k by (subst remap_pages.simps) simp
next
  case (Suc n)
  have k: "k < 64" using Suc.prems(1) by (simp add: pt_ok_def)
  note span = page_span_Suc [OF Suc.prems(4) k]
  have none: "pt_translate pt b = None" using Suc.prems(5) span(1) [of b] by (auto simp: page_span_def)
  obtain pt1 where 1: "remap_page (2 ^ k) a b pt = Ok pt1" "pt_ok k pt1"
    "\<forall>x. pt_translate pt1 x = (if x \<in> page_span k b 1 then pt_translate pt (a + (x - b))
       else if x \<in> page_span k a 1 then None else pt_translate pt x)"
    using remap_page_eq [OF Suc.prems(1-3) none] by blast
  have al: "take_bit k (a + 2 ^ k) = 0" "take_bit k (b + 2 ^ k) = 0"
    using Suc.prems(2,3) k by (simp_all add: take_bit_page_add take_bit_exp_0)
  have len: "Suc n * 2 ^ k \<le> (2 :: nat) ^ 64" using Suc.prems(4) by simp
  have free: "\<forall>x\<in>page_span k (b + 2 ^ k) (Suc n). pt_translate pt1 x = None"
    using Suc.prems(5) 1(3) span [of b] by auto
  have apart: "page_span k (a + 2 ^ k) (Suc n) \<inter> page_span k (b + 2 ^ k) (Suc n) = {}"
    using Suc.prems(6) span(1) by blast
  obtain pt' where 2: "remap_pages (2 ^ k) (a + 2 ^ k) (b + 2 ^ k) (of_nat (Suc n) * 2 ^ k) pt1 = Done pt'" "pt_ok k pt'"
    "\<forall>x. pt_translate pt' x = (if x \<in> page_span k (b + 2 ^ k) (Suc n) then pt_translate pt1 (a + 2 ^ k + (x - (b + 2 ^ k)))
       else if x \<in> page_span k (a + 2 ^ k) (Suc n) then None else pt_translate pt1 x)"
    using Suc.IH [OF 1(2) al len free apart] by blast
  have run: "remap_pages (2 ^ k) a b (of_nat (Suc (Suc n)) * 2 ^ k) pt = Done pt'"
    by (subst remap_pages.simps) (simp only: 1 bind_run_simps Let_def length_step [OF Suc.prems(4) k] 2 nat.simps not_False_eq_True if_True)
  have moved: "a + (x - b) \<in> page_span k (a + 2 ^ k) (Suc n)" if "x \<in> page_span k (b + 2 ^ k) (Suc n)" for x
    using that by (simp add: page_span_def algebra_simps)
  have "pt_translate pt' x = (if x \<in> page_span k b (Suc (Suc n)) then pt_translate pt (a + (x - b))
       else if x \<in> page_span k a (Suc (Suc n)) then None else pt_translate pt x)" for x
  proof -
    consider (first) "x \<in> page_span k b 1" | (rest) "x \<in> page_span k (b + 2 ^ k) (Suc n)" | (other) "x \<notin> page_span k b (Suc (Suc n))"
      using span(1) [of b] by blast
    then show ?thesis
    proof cases
      case first
      then show ?thesis using 1(3) 2(3) span [of b] Suc.prems(6) span(1) [of a] by auto
    next
      case rest
      have e: "a + 2 ^ k + (x - (b + 2 ^ k)) = a + (x - b)" by simp
      have "a + (x - b) \<notin> page_span k a 1" using moved [OF rest] span(2) [of a] by blast
      moreover have "a + (x - b) \<notin> page_span k b 1" using moved [OF rest] Suc.prems(6) span(1) by blast
      ultimately show ?thesis using rest 1(3) 2(3) span [of b] unfolding e by auto
    next
      case other
      then show ?thesis using 1(3) 2(3) span by auto
    qed
  qed
  then show ?case using run 2(2) by blast
qed

section \<open>Free regions\<close>

lemma length_pages:
  assumes "take_bit k l = 0" "(0 :: addr) < l" "k < 64"
  obtains n where "l = of_nat (Suc n) * 2 ^ k" "Suc n * 2 ^ k = unat l" "Suc n * 2 ^ k \<le> 2 ^ 64"
proof -
  have q: "l = of_nat (unat l div 2 ^ k) * 2 ^ k" using page_of_mult [of l k] assms(1) by simp
  have "unat l mod 2 ^ k = 0" using assms(1) unat_take_bit [of k l] by simp
  then have u: "unat l div 2 ^ k * 2 ^ k = unat l" by (metis add_0_right div_mult_mod_eq)
  have "unat l div 2 ^ k \<noteq> 0" using u assms(2) by (metis mult_zero_left unat_0 word_less_nat_alt less_irrefl)
  then obtain n where n: "unat l div 2 ^ k = Suc n" using not0_implies_Suc by blast
  have "Suc n * 2 ^ k \<le> 2 ^ 64" using u unat_64 [of l] unfolding n by simp
  then show ?thesis using that [of n] q u unfolding n by simp
qed

lemma span_interval:
  assumes "s < s + l" "n * 2 ^ k = unat (l :: addr)"
  shows "page_span k s n = {s..<s + l}"
proof -
  have u: "unat (s + l) = unat s + unat l" by (rule no_wrap_unat [OF assms(1)])
  have iff: "unat (x - s) < unat l \<longleftrightarrow> s \<le> x \<and> x < s + l" for x
  proof (cases "s \<le> x")
    case True
    then have "unat (x - s) = unat x - unat s" "unat s \<le> unat x" by (simp_all add: unat_sub_if' word_le_nat_alt)
    then have "unat (x - s) < unat l \<longleftrightarrow> unat x < unat (s + l)" using u by linarith
    then show ?thesis using True by (simp only: word_less_nat_alt simp_thms)
  next
    case False
    then have "unat (x - s) = 18446744073709551616 + unat x - unat s" by (simp add: unat_sub_if' word_le_nat_alt)
    then have "\<not> unat (x - s) < unat l" using u unat_64 [of "s + l"] by linarith
    then show ?thesis using False by blast
  qed
  show ?thesis unfolding page_span_def assms(2) by (rule set_eqI) (simp only: mem_Collect_eq atLeastLessThan_iff iff)
qed

lemma any_intersects_ok:
  assumes "vmas_ok pb vs" "s < e"
  shows "any_intersects (AddrRange s e) vs = Ok (covered vs \<inter> {s..<e} \<noteq> {})"
  using assms(1)
proof (induction vs)
  case (Cons v vs)
  have v: "vma_wf v" "vmas_ok pb vs" using Cons.prems by (simp_all add: vmas_ok_simps)
  have "v_start v < v_end v" using v(1) by (simp add: vma_wf_def)
  then have "v_start v < e \<and> s < v_end v \<longleftrightarrow> vma_set v \<inter> {s..<e} \<noteq> {}"
    unfolding vma_set_def by (rule interval_meets [OF _ assms(2)])
  then have step: "any_intersects (AddrRange s e) (v # vs) =
      (if vma_set v \<inter> {s..<e} \<noteq> {} then Ok True else any_intersects (AddrRange s e) vs)"
    by (simp add: v_intersects_wf [OF v(1)])
  show ?case
  proof (cases "vma_set v \<inter> {s..<e} = {}")
    case True
    then have "covered (v # vs) \<inter> {s..<e} = covered vs \<inter> {s..<e}" unfolding covered_simps by blast
    then show ?thesis using step True Cons.IH [OF v(2)] by simp
  next
    case False
    then have "covered (v # vs) \<inter> {s..<e} \<noteq> {}" unfolding covered_simps by blast
    then show ?thesis using step False by simp
  qed
qed simp

lemma pages_free_eq:
  assumes "pt_ok k pt" "take_bit k s = 0" "unat s + n * 2 ^ k < 2 ^ 64"
  shows "pages_free pt (2 ^ k) s (s + of_nat n * 2 ^ k) =
    (if \<forall>x\<in>page_span k s n. pt_translate pt x = None then Done True else Some (Err Panic))"
  using assms(2,3)
proof (induction n arbitrary: s)
  case 0
  then show ?case by (subst pages_free.simps) (simp add: page_span_def)
next
  case (Suc n)
  have k: "k < 64" using assms(1) by (simp add: pt_ok_def)
  have p: "unat ((2 :: addr) ^ k) = 2 ^ k" using k by (simp add: unat_exp_lower)
  have al: "take_bit k (s + 2 ^ k) = 0" using Suc.prems(1) k by (simp add: take_bit_page_add take_bit_exp_0)
  have len: "Suc n * 2 ^ k \<le> (2 :: nat) ^ 64" using Suc.prems(2) by simp
  have next_unat: "unat (s + 2 ^ k) = unat s + 2 ^ k" using Suc.prems(2) by (simp add: unat_word_ariths p)
  then have IH: "pages_free pt (2 ^ k) (s + 2 ^ k) (s + 2 ^ k + of_nat n * 2 ^ k) =
    (if \<forall>x\<in>page_span k (s + 2 ^ k) n. pt_translate pt x = None then Done True else Some (Err Panic))"
    using Suc.prems(2) by (intro Suc.IH [OF al]) simp
  have e: "s + of_nat (Suc n) * 2 ^ k = s + 2 ^ k + of_nat n * 2 ^ k" by (simp add: algebra_simps)
  have "unat (of_nat (Suc n) * 2 ^ k :: addr) = Suc n * 2 ^ k" using Suc.prems(2) by (intro unat_mult_page) simp
  then have "unat (s + of_nat (Suc n) * 2 ^ k) = unat s + Suc n * 2 ^ k"
    using Suc.prems(2) by (simp add: unat_word_ariths)
  then have lt: "s < s + of_nat (Suc n) * 2 ^ k" by (simp add: word_less_nat_alt)
  have look: "pt_lookup pt s = None \<longleftrightarrow> pt_translate pt s = None" by (simp add: pt_translate_def split: option.split)
  have "(\<forall>x\<in>page_span k s (Suc n). pt_translate pt x = None) \<longleftrightarrow>
      pt_translate pt s = None \<and> (\<forall>x\<in>page_span k (s + 2 ^ k) n. pt_translate pt x = None)"
    unfolding page_span_Suc(1) [OF len k] ball_Un page_all(1) [OF assms(1) Suc.prems(1)] ..
  moreover define en where "en = s + of_nat (Suc n) * 2 ^ k"
  ultimately show ?case
    using lt IH unfolding e [symmetric] en_def [symmetric]
    by (subst pages_free.simps) (cases "pt_translate pt s = None"; simp add: look)
qed

lemma region_pages:
  assumes "region k s l" "k < 64"
  obtains n where "l = of_nat (Suc n) * 2 ^ k" "Suc n * 2 ^ k \<le> 2 ^ 64" "page_span k s (Suc n) = {s..<s + l}"
    "unat s + Suc n * 2 ^ k < 2 ^ 64" "page_aligned (2 ^ k) s" "page_aligned (2 ^ k) (s + l)" "Suc n * 2 ^ k = unat l"
proof -
  have r: "take_bit k s = 0" "take_bit k l = 0" "s < s + l" using assms(1) by (simp_all add: region_def)
  have "0 < l" using r(3) by (cases "l = 0") (simp_all add: word_gt_0)
  then obtain n where n: "l = of_nat (Suc n) * 2 ^ k" "Suc n * 2 ^ k = unat l" "Suc n * 2 ^ k \<le> 2 ^ 64"
    using length_pages [OF r(2) _ assms(2)] by blast
  have "unat s + Suc n * 2 ^ k < 2 ^ 64" using no_wrap_unat [OF r(3)] unat_64 [of "s + l"] n(2) by simp
  moreover have "page_aligned (2 ^ k) s" "page_aligned (2 ^ k) (s + l)"
    using r(1,2) aligned_closed(1) [of k s l] assms(2) by (simp_all add: aligned_pow2)
  ultimately show ?thesis using that [OF n(1,3) span_interval [OF r(3) n(2)]] n(2) by blast
qed

lemma isUnmapped_ok:
  assumes "space_ok k ms pt" "region k s l"
  shows "ms_isUnmapped pt ms s l = Done (covered (ms_vmaList ms) \<inter> {s..<s + l} = {})"
proof -
  have sp: "pt_ok k pt" "ms_pageBytes ms = 2 ^ k" "vmas_ok (2 ^ k) (ms_vmaList ms)"
    "\<And>x. pt_translate pt x \<noteq> None \<Longrightarrow> x \<in> covered (ms_vmaList ms)"
    using assms(1) by (auto simp: space_ok_def)
  have k: "k < 64" using sp(1) by (simp add: pt_ok_def)
  have r: "take_bit k s = 0" "s < s + l" using assms(2) by (simp_all add: region_def)
  obtain n where n: "l = of_nat (Suc n) * 2 ^ k" "page_span k s (Suc n) = {s..<s + l}" "unat s + Suc n * 2 ^ k < 2 ^ 64"
    using region_pages [OF assms(2) k] by blast
  have "pages_free pt (2 ^ k) s (s + l) = Done True" if "covered (ms_vmaList ms) \<inter> {s..<s + l} = {}"
  proof -
    have "\<forall>x\<in>page_span k s (Suc n). pt_translate pt x = None" unfolding n(2) using sp(4) that by blast
    then show ?thesis using pages_free_eq [OF sp(1) r(1) n(3)] unfolding n(1) by simp
  qed
  then show ?thesis
    unfolding ms_isUnmapped_def Let_def any_intersects_ok [OF sp(3) r(2)] sp(2) by simp
qed

section \<open>The operations on regions\<close>

lemma VMA_anon_ok:
  assumes "s < e" "pb \<noteq> 0" "page_aligned pb s" "page_aligned pb e"
  shows "\<exists>v. VMA h (AddrRange s e) pb name (- 1) off = Ok v"
  using assms by (auto simp: VMA_def sanityCheck_Ok v_start_def v_end_def)

lemma area_anon:
  assumes "VMA h (AddrRange s e) pb name (- 1) off = Ok v"
  shows "vma_wf v \<and> v_pageBytes v = pb \<and> vma_set v = {s..<e} \<and> area v = {s..<e} \<times> {(name, None)}"
  using VMA_anon [OF assms] by (auto simp: vma_set_def area_def)

lemma space_k: "space_ok k ms pt \<Longrightarrow> k < 64"
  by (simp add: space_ok_def pt_ok_def)

text \<open>Mapping an anonymous region that is free.\<close>

lemma mapRegion_ok:
  assumes "space_ok k ms pt" "region k s l" "covered (ms_vmaList ms) \<inter> {s..<s + l} = {}"
  shows "\<exists>vs. mapRegion h pt s l name (- 1) off ms = Done (ms\<lparr>ms_vmaList := vs\<rparr>) \<and>
    space_ok k (ms\<lparr>ms_vmaList := vs\<rparr>) pt \<and> areas vs = areas (ms_vmaList ms) \<union> {s..<s + l} \<times> {(name, None)}"
proof -
  note k = space_k [OF assms(1)]
  have sp: "ms_pageBytes ms = 2 ^ k" "vmas_ok (2 ^ k) (ms_vmaList ms)" "(2 :: addr) ^ k \<noteq> 0"
    using assms(1) k by (auto simp: space_ok_def)
  have al: "page_aligned (2 ^ k) s" "page_aligned (2 ^ k) (s + l)" "s < s + l"
    using region_pages [OF assms(2) k] assms(2) unfolding region_def by blast+
  obtain v where v: "VMA h (AddrRange s (s + l)) (2 ^ k) name (- 1) off = Ok v"
    using VMA_anon_ok [OF al(3) sp(3) al(1,2)] by blast
  note a = area_anon [OF v]
  let ?vs = "ms_vmaList ms @ [v]"
  have "mapRegion h pt s l name (- 1) off ms = Done (ms\<lparr>ms_vmaList := ?vs\<rparr>)"
    unfolding mapRegion_def isUnmapped_ok [OF assms(1,2)] using assms(3) v sp(1) by simp
  moreover have "space_ok k (ms\<lparr>ms_vmaList := ?vs\<rparr>) pt"
    using assms(1,3) a unfolding space_ok_def by (auto simp: vmas_ok_simps)
  ultimately show ?thesis using a by (intro exI [of _ ?vs]) simp
qed

lemma flushAll_plain_tlb: "plain_tlb t \<Longrightarrow> \<exists>t'. flushAll t = Ok t' \<and> plain_tlb t'"
proof (cases t)
  case (Tlb u s2)
  assume "plain_tlb t"
  then show ?thesis using flushAll_plain [of u s2] Tlb by auto
qed

lemma flush_threads_ok:
  "threads_ok ths \<Longrightarrow> \<exists>ths'. flush_threads ths = Ok ths' \<and> threads_ok ths' \<and> map th_tc ths' = map th_tc ths"
proof (induction ths)
  case (Cons t ths)
  then have t: "plain_tlb (th_dtb t)" "plain_tlb (th_itb t)" "threads_ok ths" by (simp_all add: threads_ok_def)
  obtain d i where "flushAll (th_dtb t) = Ok d" "plain_tlb d" "flushAll (th_itb t) = Ok i" "plain_tlb i"
    using flushAll_plain_tlb [OF t(1)] flushAll_plain_tlb [OF t(2)] by blast
  moreover obtain ths' where "flush_threads ths = Ok ths'" "threads_ok ths'" "map th_tc ths' = map th_tc ths"
    using Cons.IH [OF t(3)] by blast
  ultimately show ?case by (auto simp: threads_ok_def)
qed (simp add: threads_ok_def)

text \<open>Unmapping a region removes exactly its addresses from the areas and from the page table.\<close>

lemma unmapRegion_ok:
  assumes "space_ok k ms pt" "region k s l" "threads_ok ths"
  shows "\<exists>vs pt' ths'. unmapRegion s l (ms, pt, ths) = Done (ms\<lparr>ms_vmaList := vs\<rparr>, pt', ths') \<and>
    space_ok k (ms\<lparr>ms_vmaList := vs\<rparr>) pt' \<and> threads_ok ths' \<and> areas vs = outside {s..<s + l} (areas (ms_vmaList ms)) \<and>
    (\<forall>x. pt_translate pt' x = (if x \<in> {s..<s + l} then None else pt_translate pt x))"
proof -
  note k = space_k [OF assms(1)]
  have sp: "pt_ok k pt" "ms_pageBytes ms = 2 ^ k" "vmas_ok (2 ^ k) (ms_vmaList ms)"
    "\<forall>x. pt_translate pt x \<noteq> None \<longrightarrow> x \<in> covered (ms_vmaList ms)"
    using assms(1) by (simp_all add: space_ok_def)
  have r: "take_bit k s = 0" "s < s + l" using assms(2) by (simp_all add: region_def)
  obtain n where n: "l = of_nat (Suc n) * 2 ^ k" "Suc n * 2 ^ k \<le> 2 ^ 64" "page_span k s (Suc n) = {s..<s + l}"
    "page_aligned (2 ^ k) s" "page_aligned (2 ^ k) (s + l)"
    using region_pages [OF assms(2) k] by blast
  obtain vs where vs: "unmap_vmas (AddrRange s (s + l)) [] (ms_vmaList ms) = Ok vs" "vmas_ok (2 ^ k) vs"
    "areas vs = outside {s..<s + l} (areas (ms_vmaList ms))"
    using unmap_vmas_areas [OF sp(3) r(2) n(4,5), of "[]"] by auto
  obtain ths' where ths': "flush_threads ths = Ok ths'" "threads_ok ths'" using flush_threads_ok [OF assms(3)] by blast
  obtain pt' where pt': "unmap_pages (2 ^ k) s l pt = Done pt'" "pt_ok k pt'"
    "\<forall>x. pt_translate pt' x = (if x \<in> {s..<s + l} then None else pt_translate pt x)"
    using unmap_pages_eq [OF sp(1) r(1) n(2)] unfolding n(1) [symmetric] n(3) by blast
  have "covered vs = covered (ms_vmaList ms) - {s..<s + l}"
    unfolding covered_areas vs(3) by (auto simp: outside_def)
  then have "space_ok k (ms\<lparr>ms_vmaList := vs\<rparr>) pt'"
    using sp pt' vs(2) unfolding space_ok_def by simp
  moreover have "unmapRegion s l (ms, pt, ths) = Done (ms\<lparr>ms_vmaList := vs\<rparr>, pt', ths')"
    by (simp add: unmapRegion_def vs(1) ths'(1) pt'(1) sp(2) del: atLeastLessThan_iff)
  ultimately show ?thesis using vs(3) ths'(2) pt'(3) by blast
qed

text \<open>Moving a region to a free place of the same length.\<close>

lemma covered_remapped:
  "areas vs' = remapped K d (areas vs) \<Longrightarrow> covered vs' = (covered vs - K) \<union> (\<lambda>z. z + d) ` (covered vs \<inter> K)"
  unfolding covered_areas by (simp only: fst_remapped)

lemma region_shift:
  assumes "s < s + l" "n < n + (l :: addr)"
  shows "(\<lambda>z. z + (n - s)) ` {s..<s + l} = {n..<n + l}"
  using shift_interval [OF assms(1), of n] assms(2) by simp

lemma remapRegion_ok:
  assumes "space_ok k ms pt" "region k s l" "region k n l" "threads_ok ths"
    and "covered (ms_vmaList ms) \<inter> {n..<n + l} = {}" "{s..<s + l} \<inter> {n..<n + l} = {}"
  shows "\<exists>vs pt' ths'. remapRegion s n l (ms, pt, ths) = Done (ms\<lparr>ms_vmaList := vs\<rparr>, pt', ths') \<and>
    space_ok k (ms\<lparr>ms_vmaList := vs\<rparr>) pt' \<and> threads_ok ths' \<and>
    areas vs = remapped {s..<s + l} (n - s) (areas (ms_vmaList ms)) \<and>
    (\<forall>x. pt_translate pt' x = (if x \<in> {n..<n + l} then pt_translate pt (s + (x - n))
       else if x \<in> {s..<s + l} then None else pt_translate pt x))"
proof -
  note k = space_k [OF assms(1)]
  have sp: "pt_ok k pt" "ms_pageBytes ms = 2 ^ k" "vmas_ok (2 ^ k) (ms_vmaList ms)"
    "\<And>x. pt_translate pt x \<noteq> None \<Longrightarrow> x \<in> covered (ms_vmaList ms)"
    using assms(1) by (auto simp: space_ok_def)
  have r: "take_bit k s = 0" "s < s + l" "take_bit k n = 0" "n < n + l" using assms(2,3) by (simp_all add: region_def)
  obtain m where m: "l = of_nat (Suc m) * 2 ^ k" "Suc m * 2 ^ k \<le> 2 ^ 64" "page_span k s (Suc m) = {s..<s + l}"
    "page_aligned (2 ^ k) s" "page_aligned (2 ^ k) (s + l)" "Suc m * 2 ^ k = unat l"
    using region_pages [OF assms(2) k] by blast
  note m2 = span_interval [OF r(4) m(6)]
  note sh = region_shift [OF r(2,4)]
  have len: "n < n + (s + l - s)" "page_aligned (2 ^ k) n" using r(3,4) by (simp_all add: aligned_pow2)
  have "(covered (ms_vmaList ms) - {s..<s + l}) \<inter> (\<lambda>z. z + (n - s)) ` {s..<s + l} = {}"
    unfolding sh using assms(5) by blast
  then obtain vs where vs: "remap_vmas (AddrRange s (s + l)) n [] (ms_vmaList ms) = Ok vs" "vmas_ok (2 ^ k) vs"
    "areas vs = remapped {s..<s + l} (n - s) (areas (ms_vmaList ms))"
    using remap_vmas_areas [of k s "s + l" n "ms_vmaList ms" "[]"] r(2) len k m(4,5) sp(3) by (auto simp: remaps_def move_ok_def)
  obtain ths' where ths': "flush_threads ths = Ok ths'" "threads_ok ths'" using flush_threads_ok [OF assms(4)] by blast
  have free: "\<forall>x\<in>{n..<n + l}. pt_translate pt x = None" using sp(4) assms(5) by blast
  obtain pt' where pt': "remap_pages (2 ^ k) s n l pt = Done pt'" "pt_ok k pt'"
    "\<forall>x. pt_translate pt' x = (if x \<in> {n..<n + l} then pt_translate pt (s + (x - n))
       else if x \<in> {s..<s + l} then None else pt_translate pt x)"
    using remap_pages_eq [OF sp(1) r(1,3) m(2)] free assms(6) unfolding m(1) [symmetric] m(3) m2 by blast
  have cov: "covered vs = (covered (ms_vmaList ms) - {s..<s + l}) \<union> (\<lambda>z. z + (n - s)) ` (covered (ms_vmaList ms) \<inter> {s..<s + l})"
    by (rule covered_remapped [OF vs(3)])
  have in_cov: "x \<in> covered vs" if t: "pt_translate pt' x \<noteq> None" for x
  proof (cases "x \<in> {n..<n + l}")
    case True
    then obtain z where z: "x = z + (n - s)" "z \<in> {s..<s + l}" unfolding sh [symmetric] by blast
    have "pt_translate pt z \<noteq> None" using t True pt'(3) z(1) by simp
    then show ?thesis using sp(4) z cov by blast
  next
    case False
    then have "x \<notin> {s..<s + l}" "pt_translate pt x \<noteq> None" using t pt'(3) by (metis, metis)
    then show ?thesis using sp(4) cov by blast
  qed
  have "space_ok k (ms\<lparr>ms_vmaList := vs\<rparr>) pt'"
    using pt'(2) vs(2) sp(2) in_cov unfolding space_ok_def by simp
  moreover have "remapRegion s n l (ms, pt, ths) = Done (ms\<lparr>ms_vmaList := vs\<rparr>, pt', ths')"
    by (simp add: remapRegion_def vs(1) ths'(1) pt'(1) sp(2))
  ultimately show ?thesis using vs(3) ths'(2) pt'(3) by blast
qed

text \<open>The program break.\<close>

lemma roundUp_page: "k < 64 \<Longrightarrow> roundUp a (2 ^ k) = Ok ((a + mask k) AND NOT (mask k))"
  by (simp add: roundUp_def isPowerOf2_exp exp_minus_1_mask Let_def)

lemma take_bit_round: "take_bit k ((a AND NOT (mask k)) :: addr) = 0"
  by (simp only: and_not_mask_minus take_bit_aligned)

lemma region_between: "take_bit k a = 0 \<Longrightarrow> take_bit k b = 0 \<Longrightarrow> a < b \<Longrightarrow> k < 64 \<Longrightarrow> region k a (b - a)"
  using aligned_closed(2) [of k b a] by (simp add: region_def aligned_pow2)

lemma updateBrkRegion_ok:
  assumes "space_ok k ms pt" "take_bit k (ms_endBrkPoint ms) = 0" "old \<le> new" "roundUp new (2 ^ k) = Ok r"
  shows "\<exists>vs. updateBrkRegion h pt old new ms =
      Done (if r \<le> ms_endBrkPoint ms then ms\<lparr>ms_brkPoint := new\<rparr>
            else if covered (ms_vmaList ms) \<inter> {ms_endBrkPoint ms..<r} = {}
            then ms\<lparr>ms_vmaList := vs, ms_endBrkPoint := r, ms_brkPoint := new\<rparr>
            else ms) \<and>
    (ms_endBrkPoint ms < r \<and> covered (ms_vmaList ms) \<inter> {ms_endBrkPoint ms..<r} = {} \<longrightarrow>
       space_ok k (ms\<lparr>ms_vmaList := vs\<rparr>) pt \<and>
       areas vs = areas (ms_vmaList ms) \<union> {ms_endBrkPoint ms..<r} \<times> {(''heap'', None)})"
proof -
  note k = space_k [OF assms(1)]
  have pb: "ms_pageBytes ms = 2 ^ k" using assms(1) by (simp add: space_ok_def)
  have "r = (new + mask k) AND NOT (mask k)" using assms(4) roundUp_page [OF k, of new] by simp
  then have r: "take_bit k r = 0" by (simp only: take_bit_round)
  have brk: "updateBrkRegion h pt old new ms = (if r > ms_endBrkPoint ms then
      bind_run (ms_isUnmapped pt ms (ms_endBrkPoint ms) (r - ms_endBrkPoint ms)) (\<lambda>b.
        if \<not> b then Done ms
        else bind_run (mapRegion h pt (ms_endBrkPoint ms) (r - ms_endBrkPoint ms) ''heap'' (- 1) 0 ms) (\<lambda>ms.
          Done (ms\<lparr>ms_endBrkPoint := r, ms_brkPoint := new\<rparr>)))
      else Done (ms\<lparr>ms_brkPoint := new\<rparr>))"
    using assms(3) by (simp add: updateBrkRegion_def pb assms(4) not_less [symmetric] Let_def)
  show ?thesis
  proof (cases "ms_endBrkPoint ms < r")
    case False
    then show ?thesis using brk by auto
  next
    case True
    note reg = region_between [OF assms(2) r True k]
    have sum: "ms_endBrkPoint ms + (r - ms_endBrkPoint ms) = r" by simp
    note un = isUnmapped_ok [OF assms(1) reg, unfolded sum] and mr = mapRegion_ok [OF assms(1) reg, unfolded sum]
    show ?thesis
    proof (cases "covered (ms_vmaList ms) \<inter> {ms_endBrkPoint ms..<r} = {}")
      case free: True
      from mr [OF free, of h "''heap''" 0] obtain vs where
        "mapRegion h pt (ms_endBrkPoint ms) (r - ms_endBrkPoint ms) ''heap'' (- 1) 0 ms = Done (ms\<lparr>ms_vmaList := vs\<rparr>)"
        "space_ok k (ms\<lparr>ms_vmaList := vs\<rparr>) pt" "areas vs = areas (ms_vmaList ms) \<union> {ms_endBrkPoint ms..<r} \<times> {(''heap'', None)}"
        by blast
      then show ?thesis using True free brk un by (intro exI [of _ vs]) simp
    next
      case False
      then show ?thesis using True brk un by simp
    qed
  qed
qed

lemma updateBrkRegion_grows:
  assumes "space_ok k ms pt" "ms_endBrkPoint ms = e" "take_bit k e = 0" "old \<le> new" "roundUp new (2 ^ k) = Ok r"
    "e < r" "covered (ms_vmaList ms) \<inter> {e..<r} = {}"
  shows "\<exists>vs. updateBrkRegion h pt old new ms = Done (ms\<lparr>ms_vmaList := vs, ms_endBrkPoint := r, ms_brkPoint := new\<rparr>) \<and>
    space_ok k (ms\<lparr>ms_vmaList := vs\<rparr>) pt \<and> areas vs = areas (ms_vmaList ms) \<union> {e..<r} \<times> {(''heap'', None)}"
  using updateBrkRegion_ok [OF assms(1) _ assms(4,5), of h] assms(3,6,7)
  unfolding assms(2) by (simp only: simp_thms if_True if_False not_le [THEN iffD2, OF assms(6)])

lemma updateBrkRegion_blocked:
  assumes "space_ok k ms pt" "ms_endBrkPoint ms = e" "take_bit k e = 0" "old \<le> new" "roundUp new (2 ^ k) = Ok r"
    "e < r" "covered (ms_vmaList ms) \<inter> {e..<r} \<noteq> {}"
  shows "updateBrkRegion h pt old new ms = Done ms"
  using updateBrkRegion_ok [OF assms(1) _ assms(4,5), of h] assms(3,6,7)
  unfolding assms(2) by (simp only: simp_thms if_True if_False not_le [THEN iffD2, OF assms(6)])

lemma place_Suc: "place d (if d then st - pb else st + pb) pb i = place d st pb (Suc i)"
  by (simp add: place_def algebra_simps)

lemma place_0 [simp]: "place d st pb 0 = st"
  by (cases d) (simp_all add: place_def)

lemma find_region_first:
  assumes "ms_isUnmapped pt ms (place d st (ms_pageBytes ms) j) l = Done True"
    and "\<forall>i<j. ms_isUnmapped pt ms (place d st (ms_pageBytes ms) i) l = Done False"
  shows "find_region pt ms d l st = Done (place d st (ms_pageBytes ms) j)"
  using assms
proof (induction j arbitrary: st)
  case 0
  then show ?case by (subst find_region.simps) simp
next
  case (Suc j)
  let ?st = "if d then st - ms_pageBytes ms else st + ms_pageBytes ms"
  have "ms_isUnmapped pt ms st l = Done False" using Suc.prems(2) [rule_format, of 0] by simp
  moreover have "find_region pt ms d l ?st = Done (place d ?st (ms_pageBytes ms) j)"
    using Suc.prems by (intro Suc.IH) (simp_all add: place_Suc)
  ultimately show ?case unfolding place_Suc by (subst find_region.simps) (simp only: bind_run_simps if_False)
qed

lemma extendMmap_first:
  assumes "space_ok k ms pt" "\<forall>i\<le>m. region k (place d st (2 ^ k) i) l"
    and "covered (ms_vmaList ms) \<inter> {place d st (2 ^ k) m..<place d st (2 ^ k) m + l} = {}"
    and "st = (if d then ms_mmapEnd ms - l else ms_mmapEnd ms)"
  shows "\<exists>j\<le>m. covered (ms_vmaList ms) \<inter> {place d st (2 ^ k) j..<place d st (2 ^ k) j + l} = {} \<and>
    extendMmap pt d l ms = Done (ms\<lparr>ms_mmapEnd := (if d then place d st (2 ^ k) j else place d st (2 ^ k) j + l)\<rparr>, place d st (2 ^ k) j)"
proof -
  let ?free = "\<lambda>i. covered (ms_vmaList ms) \<inter> {place d st (2 ^ k) i..<place d st (2 ^ k) i + l} = {}"
  have pb: "ms_pageBytes ms = 2 ^ k" using assms(1) by (simp add: space_ok_def)
  define j where "j = (LEAST i. ?free i)"
  have j: "?free j" "j \<le> m" "\<And>i. i < j \<Longrightarrow> \<not> ?free i"
    unfolding j_def using LeastI [of ?free, OF assms(3)] Least_le [of ?free, OF assms(3)] not_less_Least [of _ ?free] by blast+
  have un: "ms_isUnmapped pt ms (place d st (2 ^ k) i) l = Done (?free i)" if "i \<le> m" for i
    by (rule isUnmapped_ok [OF assms(1) assms(2) [rule_format, OF that]])
  have "find_region pt ms d l st = Done (place d st (2 ^ k) j)"
  proof (rule find_region_first [of pt ms d st j l, unfolded pb])
    show "ms_isUnmapped pt ms (place d st (2 ^ k) j) l = Done True" using un [OF j(2)] j(1) by (simp only: simp_thms)
    show "\<forall>i<j. ms_isUnmapped pt ms (place d st (2 ^ k) i) l = Done False"
      using un j(2,3) by (auto simp del: Int_atLeastLessThan)
  qed
  then show ?thesis using j(1,2) unfolding extendMmap_def assms(4) [symmetric] by auto
qed

text \<open>A length of zero: the loop over the pages runs through the whole address space.\<close>

lemma unmap_vmas_empty:
  assumes "\<forall>v\<in>set vs. vma_wf v \<and> \<not> (v_start v < a \<and> a < v_end v)"
  shows "unmap_vmas (AddrRange a a) seen vs = Ok (seen @ vs)"
  using assms
proof (induction vs arbitrary: seen)
  case (Cons v vs)
  have v: "vma_wf v" "\<not> (v_start v < a \<and> a < v_end v)" using Cons.prems by simp_all
  have "v_start v < v_end v" using v(1) by (simp add: vma_wf_def)
  then have "\<not> (a \<le> v_start v \<and> v_end v \<le> a)" by (meson leD le_less_trans less_le_trans)
  then have "unmap_vmas (AddrRange a a) seen (v # vs) = unmap_vmas (AddrRange a a) (seen @ [v]) vs"
    using v(2) by (simp only: unmap_vmas_Cons [OF v(1)] if_False simp_thms)
  then show ?case using Cons by simp
qed simp

lemma unmap_all:
  assumes "pt_ok k pt" "take_bit k a = 0"
  shows "\<exists>pt'. unmap_pages (2 ^ k) a 0 pt = Done pt' \<and> pt_ok k pt' \<and> (\<forall>x. pt_translate pt' x = None)"
proof -
  have k: "k < 64" using assms(1) by (simp add: pt_ok_def)
  define n :: nat where "n = 2 ^ (64 - k) - 1"
  have n: "Suc n = 2 ^ (64 - k)" by (simp add: n_def)
  have e: "Suc n * 2 ^ k = 2 ^ 64" unfolding n using k by (simp only: power_add [symmetric]) simp
  have "of_nat (Suc n) * 2 ^ k = (of_nat (Suc n * 2 ^ k) :: addr)" by (simp only: of_nat_mult of_nat_power of_nat_numeral)
  also have "\<dots> = 0" unfolding e by (simp add: word_of_nat_eq_0_iff)
  finally have l: "of_nat (Suc n) * 2 ^ k = (0 :: addr)" .
  have "x \<in> page_span k a (Suc n)" for x unfolding page_span_def e using unat_64 [of "x - a"] by simp
  then show ?thesis using unmap_pages_eq [OF assms(1,2), of n] e unfolding l by auto
qed

section \<open>A sample address space\<close>

lemma aligned_lit: "page_aligned 4096 (numeral n) \<longleftrightarrow> (numeral n :: addr) mod 4096 = 0" "page_aligned 4096 0"
  by (simp_all add: page_aligned_def)

lemma vma_demo_wf: "vma_wf vma_demo" "vma_set vma_demo = {0x10000..<0x18000}" "v_pageBytes vma_demo = 4096"
  by (simp_all add: vma_wf_def vma_demo_def vma_set_def v_start_def v_end_def aligned_lit)

lemma ms_demo_ok: "space_ok 12 ms_demo pt_demo"
proof -
  have ok: "pt_ok 12 pt_demo" by (simp add: pt_demo_def pt4k_ok)
  have "x \<in> {0x10000..<0x18000}" if "pt_translate pt_demo x \<noteq> None" for x
  proof -
    have al: "pageAlign pt_demo x = 0x11000"
      using that by (simp add: pt_translate_alt pt_demo_def split: if_splits)
    have x: "x = 0x11000 + take_bit 12 x" using al pageAlign_minus [OF ok, of x] by (simp add: algebra_simps)
    have "unat (take_bit 12 x) < 4096" using unat_take_bit [of 12 x] by simp
    then have "unat x < 0x12000" "0x11000 \<le> unat x" by (subst x; simp add: unat_word_ariths)+
    then show ?thesis by (simp add: word_le_nat_alt word_less_nat_alt)
  qed
  then show ?thesis
    using ok vma_demo_wf by (simp add: space_ok_def ms_demo_def MemState_def vmas_ok_simps)
qed

lemma ms_demo_areas: "ms_vmaList ms_demo = [vma_demo]" "covered (ms_vmaList ms_demo) = {0x10000..<0x18000}"
  by (simp_all add: ms_demo_def vma_demo_wf)

lemma threads_ok_Nil [simp]: "threads_ok []"
  by (simp add: threads_ok_def)

section \<open>Restoring a checkpoint\<close>

lemma fst_forget: "fst ` forget_file ` A = fst ` A"
  by (force simp: forget_file_def)

lemma restore_vmas_ok:
  assumes "vmas_ok pb vs" "pb \<noteq> 0"
  shows "\<exists>vs'. restore_vmas h pb (map (\<lambda>v. (v_vmaName v, v_start v, v_end v)) vs) ws = Ok (ws @ vs') \<and>
    vmas_ok pb vs' \<and> areas vs' = forget_file ` areas vs"
  using assms(1)
proof (induction vs arbitrary: ws)
  case (Cons v vs)
  have v: "vma_wf v" "v_pageBytes v = pb" "vma_set v \<inter> covered vs = {}" "vmas_ok pb vs"
    using Cons.prems unfolding vmas_ok_simps by blast+
  have "v_start v < v_end v" "page_aligned pb (v_start v)" "page_aligned pb (v_end v)"
    using v(1,2) by (auto simp: vma_wf_def)
  then obtain w where w: "VMA h (AddrRange (v_start v) (v_end v)) pb (v_vmaName v) (- 1) 0 = Ok w"
    using VMA_anon_ok [of "v_start v" "v_end v" pb h "v_vmaName v" 0] assms(2) by blast
  have "forget_file ` area v = {v_start v..<v_end v} \<times> {(v_vmaName v, None)}"
    by (auto simp: vma_set_def area_def forget_file_def image_iff)
  then have a: "vma_wf w" "v_pageBytes w = pb" "vma_set w = vma_set v" "area w = forget_file ` area v"
    using area_anon [OF w] by (simp_all add: vma_set_def)
  obtain vs' where vs': "restore_vmas h pb (map (\<lambda>v. (v_vmaName v, v_start v, v_end v)) vs) (ws @ [w]) = Ok ((ws @ [w]) @ vs')"
    "vmas_ok pb vs'" "areas vs' = forget_file ` areas vs" using Cons.IH [OF v(4)] by blast
  have "covered vs' = covered vs" unfolding covered_areas vs'(3) by (rule fst_forget)
  then show ?case using w vs' a v(3) by (intro exI [of _ "w # vs'"]) (simp add: vmas_ok_simps image_Un)
qed (simp add: vmas_ok_simps)

lemma unserialize_ok:
  assumes "space_ok k ms pt" "ms_pageBytes fresh = 2 ^ k" "ms_vmaList fresh = []" "ms_ownerProcess fresh = ms_ownerProcess ms"
  shows "\<exists>vs. ms_unserialize h (ms_serialize ms) fresh =
      Ok (ms\<lparr>ms_vmaList := vs, ms_endBrkPoint := ms_endBrkPoint fresh\<rparr>) \<and>
    space_ok k (ms\<lparr>ms_vmaList := vs\<rparr>) pt \<and> areas vs = forget_file ` areas (ms_vmaList ms)"
proof -
  have k: "(2 :: addr) ^ k \<noteq> 0" using space_k [OF assms(1)] by simp
  have sp: "vmas_ok (2 ^ k) (ms_vmaList ms)" "ms_pageBytes ms = 2 ^ k" using assms(1) by (simp_all add: space_ok_def)
  obtain vs where vs: "restore_vmas h (2 ^ k) (map (\<lambda>v. (v_vmaName v, v_start v, v_end v)) (ms_vmaList ms)) [] = Ok vs"
    "vmas_ok (2 ^ k) vs" "areas vs = forget_file ` areas (ms_vmaList ms)"
    using restore_vmas_ok [OF sp(1) k, of h "[]"] by auto
  have "covered vs = covered (ms_vmaList ms)" unfolding covered_areas vs(3) by (rule fst_forget)
  then have "space_ok k (ms\<lparr>ms_vmaList := vs\<rparr>) pt" using assms(1) vs(2) by (simp add: space_ok_def)
  moreover have "ms_unserialize h (ms_serialize ms) fresh = Ok (ms\<lparr>ms_vmaList := vs, ms_endBrkPoint := ms_endBrkPoint fresh\<rparr>)"
    using assms(2-4) sp(2) vs(1) by (simp add: ms_unserialize_def ms_serialize_def)
  ultimately show ?thesis using vs(3) by blast
qed

section \<open>Properties\<close>

text \<open>
  C18. On an address space whose areas are well formed and apart, \<open>unmapRegion\<close> of a region of whole
  pages returns. It takes exactly the addresses of the region away from the areas, by splitting, dropping and
  trimming them; every other address keeps its area and its byte of the file; exactly the translations of the
  region disappear; and the areas stay well formed and apart, and cover every translation.
\<close>

theorem unmap_refines:
  assumes "space_ok k ms pt" "region k s l" "threads_ok ths"
  shows "\<exists>vs pt' ths'. unmapRegion s l (ms, pt, ths) = Done (ms\<lparr>ms_vmaList := vs\<rparr>, pt', ths') \<and>
    space_ok k (ms\<lparr>ms_vmaList := vs\<rparr>) pt' \<and> threads_ok ths' \<and> areas vs = outside {s..<s + l} (areas (ms_vmaList ms)) \<and>
    (\<forall>x. pt_translate pt' x = (if x \<in> {s..<s + l} then None else pt_translate pt x))"
  by (rule unmapRegion_ok [OF assms])

theorem unmap_refines_witness:
  "\<exists>vs pt'. unmapRegion 0x11000 0x2000 (ms_demo, pt_demo, []) = Done (ms_demo\<lparr>ms_vmaList := vs\<rparr>, pt', []) \<and>
     covered vs = {0x10000..<0x18000} - {0x11000..<0x13000} \<and> pt_translate pt' 0x11004 = None"
proof -
  have r: "region 12 0x11000 0x2000" by (simp add: region_def take_bit_eq_mod)
  obtain vs pt' ths' where u: "unmapRegion 0x11000 0x2000 (ms_demo, pt_demo, []) = Done (ms_demo\<lparr>ms_vmaList := vs\<rparr>, pt', ths')"
    "areas vs = outside {0x11000..<0x11000 + 0x2000} (areas (ms_vmaList ms_demo))"
    "\<forall>x. pt_translate pt' x = (if x \<in> {0x11000..<0x11000 + 0x2000} then None else pt_translate pt_demo x)"
    using unmap_refines [OF ms_demo_ok r threads_ok_Nil] by blast
  have "ths' = []" using u(1) by (auto simp: unmapRegion_def bind_run_eq_Done Let_def)
  moreover have "covered vs = covered (ms_vmaList ms_demo) - {0x11000..<0x13000}"
    unfolding covered_areas u(2) by (auto simp: outside_def)
  moreover have "pt_translate pt' 0x11004 = None" using u(3) [rule_format, of "0x11004"] by simp
  ultimately show ?thesis using u(1) unfolding ms_demo_areas(2) by blast
qed

text \<open>
  C19. Moving a region of whole pages to a free region of the same length that does not overlap it returns,
  moves every address of the areas with its name and its byte of the file by the same distance, moves every
  translation with it, and leaves all other addresses alone.
\<close>

theorem remap_refines:
  assumes "space_ok k ms pt" "region k s l" "region k n l" "threads_ok ths"
    and "covered (ms_vmaList ms) \<inter> {n..<n + l} = {}" "{s..<s + l} \<inter> {n..<n + l} = {}"
  shows "\<exists>vs pt' ths'. remapRegion s n l (ms, pt, ths) = Done (ms\<lparr>ms_vmaList := vs\<rparr>, pt', ths') \<and>
    space_ok k (ms\<lparr>ms_vmaList := vs\<rparr>) pt' \<and> threads_ok ths' \<and>
    areas vs = remapped {s..<s + l} (n - s) (areas (ms_vmaList ms)) \<and>
    (\<forall>x. pt_translate pt' x = (if x \<in> {n..<n + l} then pt_translate pt (s + (x - n))
       else if x \<in> {s..<s + l} then None else pt_translate pt x))"
  by (rule remapRegion_ok [OF assms])

theorem remap_refines_witness:
  "\<exists>ms' pt' ths'. remapRegion 0x11000 0x40000 0x2000 (ms_demo, pt_demo, []) = Done (ms', pt', ths') \<and>
     pt_translate pt' 0x40004 = pt_translate pt_demo 0x11004 \<and> pt_translate pt' 0x11004 = None"
proof -
  have r: "region 12 0x11000 0x2000" "region 12 0x40000 0x2000" by (simp_all add: region_def take_bit_eq_mod)
  have "covered (ms_vmaList ms_demo) \<inter> {0x40000..<0x40000 + 0x2000} = {}"
    unfolding ms_demo_areas(2) by simp
  moreover have "{0x11000..<0x11000 + 0x2000} \<inter> {0x40000..<0x40000 + 0x2000 :: addr} = {}" by simp
  ultimately obtain ms' pt' ths' where u: "remapRegion 0x11000 0x40000 0x2000 (ms_demo, pt_demo, []) = Done (ms', pt', ths')"
    "\<forall>x. pt_translate pt' x = (if x \<in> {0x40000..<0x40000 + 0x2000} then pt_translate pt_demo (0x11000 + (x - 0x40000))
       else if x \<in> {0x11000..<0x11000 + 0x2000} then None else pt_translate pt_demo x)"
    using remap_refines [OF ms_demo_ok r threads_ok_Nil] by blast
  then show ?thesis using u(2) [rule_format, of "0x40004"] u(2) [rule_format, of "0x11004"] by auto
qed

text \<open>
  C20. Moving the program break up keeps the address space well formed: within the mapped heap only the
  break moves; past it, the heap is extended to the end of the page by one area when nothing is in the way, and nothing at all
  changes otherwise.
\<close>

theorem brk_grows_heap:
  assumes "space_ok k ms pt" "take_bit k (ms_endBrkPoint ms) = 0" "old \<le> new" "roundUp new (2 ^ k) = Ok r"
  shows "\<exists>vs. updateBrkRegion h pt old new ms =
      Done (if r \<le> ms_endBrkPoint ms then ms\<lparr>ms_brkPoint := new\<rparr>
            else if covered (ms_vmaList ms) \<inter> {ms_endBrkPoint ms..<r} = {}
            then ms\<lparr>ms_vmaList := vs, ms_endBrkPoint := r, ms_brkPoint := new\<rparr>
            else ms) \<and>
    (ms_endBrkPoint ms < r \<and> covered (ms_vmaList ms) \<inter> {ms_endBrkPoint ms..<r} = {} \<longrightarrow>
       space_ok k (ms\<lparr>ms_vmaList := vs\<rparr>) pt \<and>
       areas vs = areas (ms_vmaList ms) \<union> {ms_endBrkPoint ms..<r} \<times> {(''heap'', None)})"
  by (rule updateBrkRegion_ok [OF assms])

theorem brk_grows_heap_witness:
  "\<exists>vs. updateBrkRegion host_none pt_demo 0x20000 0x20010 ms_demo =
      Done (ms_demo\<lparr>ms_vmaList := vs, ms_endBrkPoint := 0x21000, ms_brkPoint := 0x20010\<rparr>)"
proof -
  have e: "ms_endBrkPoint ms_demo = 0x20000" by (simp add: ms_demo_def MemState_def)
  have "roundUp 0x20010 (2 ^ 12) = Ok 0x21000" by (simp add: roundUp_def isPowerOf2_def)
  moreover have "take_bit 12 (ms_endBrkPoint ms_demo) = 0" unfolding e by (simp add: take_bit_eq_mod)
  moreover have "covered (ms_vmaList ms_demo) \<inter> {0x20000..<0x21000} = {}" unfolding ms_demo_areas(2) by simp
  ultimately show ?thesis
    using brk_grows_heap [OF ms_demo_ok, of "0x20000" "0x20010" "0x21000" host_none] unfolding e
    by (simp only: if_True) (simp, blast)
qed

text \<open>
  Looking for room for a mapping ends: if some place on the way is free, \<open>extendMmap\<close> returns a free
  region that it reaches no later, and moves the end of the mapping region there.
\<close>

theorem mmap_region_found:
  assumes "space_ok k ms pt" "\<forall>i\<le>m. region k (place d st (2 ^ k) i) l"
    and "covered (ms_vmaList ms) \<inter> {place d st (2 ^ k) m..<place d st (2 ^ k) m + l} = {}"
    and "st = (if d then ms_mmapEnd ms - l else ms_mmapEnd ms)"
  shows "\<exists>j\<le>m. covered (ms_vmaList ms) \<inter> {place d st (2 ^ k) j..<place d st (2 ^ k) j + l} = {} \<and>
    extendMmap pt d l ms = Done (ms\<lparr>ms_mmapEnd := (if d then place d st (2 ^ k) j else place d st (2 ^ k) j + l)\<rparr>, place d st (2 ^ k) j)"
  by (rule extendMmap_first [OF assms])

theorem mmap_region_found_witness: "\<exists>ms' st. extendMmap pt_demo True 0x4000 ms_demo = Done (ms', st)"
proof -
  have e: "ms_mmapEnd ms_demo = 0x1c000" by (simp add: ms_demo_def MemState_def)
  have "\<forall>i\<le>0. region 12 (place True 0x18000 (2 ^ 12) i) 0x4000" by (simp add: region_def take_bit_eq_mod)
  moreover have "covered (ms_vmaList ms_demo) \<inter> {place True 0x18000 (2 ^ 12) 0..<place True 0x18000 (2 ^ 12) 0 + 0x4000} = {}"
    unfolding ms_demo_areas(2) by simp
  moreover have "0x18000 = (if True then ms_mmapEnd ms_demo - 0x4000 else ms_mmapEnd ms_demo)" using e by simp
  ultimately show ?thesis using mmap_region_found [OF ms_demo_ok] by blast
qed

text \<open>
  The loops over pages are written for a length that is not zero. Called with length zero,
  \<open>unmapRegion\<close> removes no area but every translation of the process.
\<close>

theorem unmap_zero_clears_table:
  assumes "space_ok k ms pt" "take_bit k a = 0" "threads_ok ths"
    and "\<forall>v\<in>set (ms_vmaList ms). \<not> (v_start v < a \<and> a < v_end v)"
  shows "\<exists>pt' ths'. unmapRegion a 0 (ms, pt, ths) = Done (ms, pt', ths') \<and> (\<forall>x. pt_translate pt' x = None)"
proof -
  have sp: "pt_ok k pt" "ms_pageBytes ms = 2 ^ k" "\<forall>v\<in>set (ms_vmaList ms). vma_wf v"
    using assms(1) by (auto simp: space_ok_def vmas_ok_def)
  have "unmap_vmas (AddrRange a a) [] (ms_vmaList ms) = Ok (ms_vmaList ms)"
    using unmap_vmas_empty [of "ms_vmaList ms" a "[]"] assms(4) sp(3) by simp
  moreover obtain pt' where "unmap_pages (2 ^ k) a 0 pt = Done pt'" "\<forall>x. pt_translate pt' x = None"
    using unmap_all [OF sp(1) assms(2)] by blast
  moreover obtain ths' where "flush_threads ths = Ok ths'" using flush_threads_ok [OF assms(3)] by blast
  ultimately show ?thesis by (simp add: unmapRegion_def sp(2))
qed

theorem unmap_zero_clears_table_witness:
  "\<exists>pt' ths'. unmapRegion 0x30000 0 (ms_demo, pt_demo, []) = Done (ms_demo, pt', ths') \<and> pt_translate pt' 0x11004 = None"
proof -
  have "\<forall>v\<in>set (ms_vmaList ms_demo). \<not> (v_start v < 0x30000 \<and> 0x30000 < v_end v)"
    by (simp add: ms_demo_areas vma_demo_def v_start_def v_end_def)
  moreover have "take_bit 12 (0x30000 :: addr) = 0" by (simp add: take_bit_eq_mod)
  ultimately show ?thesis using unmap_zero_clears_table [OF ms_demo_ok _ threads_ok_Nil] by blast
qed


end
