(* ===== verification/Request.thy ===== *)
theory Request
  imports Prelude
begin

text \<open>
  Memory requests: the flag sets of \<open>src/base/flags.hh\<close> and \<open>class Request\<close> of
  \<open>src/mem/request.hh\<close>, with its validity flags, its accessors (which assert that the field they
  read has been set), reuse and splitting. The lemmas show that splitting a request covers it exactly,
  and what reuse and copying keep.
\<close>

unbundle bit_operations_syntax

section \<open>Flag sets\<close>

definition isSet :: "'a::len word \<Rightarrow> 'a word \<Rightarrow> bool" where
  "isSet fs f \<longleftrightarrow> fs AND f \<noteq> 0"

definition allSet :: "'a::len word \<Rightarrow> 'a word \<Rightarrow> bool" where
  "allSet fs f \<longleftrightarrow> fs AND f = f"

definition noneSet :: "'a::len word \<Rightarrow> 'a word \<Rightarrow> bool" where
  "noneSet fs f \<longleftrightarrow> fs AND f = 0"

definition flags_clear :: "'a::len word \<Rightarrow> 'a word \<Rightarrow> 'a word" where
  "flags_clear fs f = (fs AND NOT f)"

definition flags_set :: "'a::len word \<Rightarrow> 'a word \<Rightarrow> 'a word" where
  "flags_set fs f = (fs OR f)"

definition flags_assign :: "'a::len word \<Rightarrow> 'a word \<Rightarrow> bool \<Rightarrow> 'a word" where
  "flags_assign fs f val = ((fs AND NOT f) OR (if val then f else 0))"

definition flags_update :: "'a::len word \<Rightarrow> 'a word \<Rightarrow> 'a word \<Rightarrow> 'a word" where
  "flags_update fs f msk = ((fs AND NOT msk) OR (f AND msk))"

section \<open>The flags of a request\<close>

type_synonym req_flags = "64 word"

definition ARCH_BITS :: req_flags where "ARCH_BITS = 0x000000FF"
definition INST_FETCH :: req_flags where "INST_FETCH = 0x00000100"
definition PHYSICAL :: req_flags where "PHYSICAL = 0x00000200"
definition UNCACHEABLE :: req_flags where "UNCACHEABLE = 0x00000400"
definition STRICT_ORDER :: req_flags where "STRICT_ORDER = 0x00000800"
definition KERNEL :: req_flags where "KERNEL = 0x00001000"
definition PRIVILEGED :: req_flags where "PRIVILEGED = 0x00008000"
definition CACHE_BLOCK_ZERO :: req_flags where "CACHE_BLOCK_ZERO = 0x00010000"
definition ACQUIRE :: req_flags where "ACQUIRE = 0x00020000"
definition RELEASE :: req_flags where "RELEASE = 0x00040000"
definition NO_ACCESS :: req_flags where "NO_ACCESS = 0x00080000"
definition LOCKED_RMW :: req_flags where "LOCKED_RMW = 0x00100000"
definition LLSC :: req_flags where "LLSC = 0x00200000"
definition MEM_SWAP :: req_flags where "MEM_SWAP = 0x00400000"
definition MEM_SWAP_COND :: req_flags where "MEM_SWAP_COND = 0x00800000"
definition PREFETCH :: req_flags where "PREFETCH = 0x01000000"
definition PF_EXCLUSIVE :: req_flags where "PF_EXCLUSIVE = 0x02000000"
definition EVICT_NEXT :: req_flags where "EVICT_NEXT = 0x04000000"
definition SECURE :: req_flags where "SECURE = 0x10000000"
definition PT_WALK :: req_flags where "PT_WALK = 0x20000000"
definition ATOMIC_RETURN_OP :: req_flags where "ATOMIC_RETURN_OP = 0x40000000"
definition ATOMIC_NO_RETURN_OP :: req_flags where "ATOMIC_NO_RETURN_OP = 0x80000000"
definition INVALIDATE :: req_flags where "INVALIDATE = 0x0000000100000000"
definition CLEAN :: req_flags where "CLEAN = 0x0000000200000000"
definition DST_POU :: req_flags where "DST_POU = 0x0000001000000000"
definition DST_POC :: req_flags where "DST_POC = 0x0000002000000000"
definition DST_BITS :: req_flags where "DST_BITS = 0x0000003000000000"
definition HTM_START :: req_flags where "HTM_START = 0x0000010000000000"
definition HTM_COMMIT :: req_flags where "HTM_COMMIT = 0x0000020000000000"
definition HTM_CANCEL :: req_flags where "HTM_CANCEL = 0x0000040000000000"
definition HTM_ABORT :: req_flags where "HTM_ABORT = 0x0000080000000000"
definition STICKY_FLAGS :: req_flags where "STICKY_FLAGS = INST_FETCH"
definition STORE_NO_DATA :: req_flags where "STORE_NO_DATA = (CACHE_BLOCK_ZERO OR CLEAN OR INVALIDATE)"
definition HTM_CMD :: req_flags where "HTM_CMD = (HTM_START OR HTM_COMMIT OR HTM_CANCEL OR HTM_ABORT)"

type_synonym priv_flags = "16 word"

definition VALID_SIZE :: priv_flags where "VALID_SIZE = 0x001"
definition VALID_PADDR :: priv_flags where "VALID_PADDR = 0x002"
definition VALID_VADDR :: priv_flags where "VALID_VADDR = 0x004"
definition VALID_INST_SEQ_NUM :: priv_flags where "VALID_INST_SEQ_NUM = 0x008"
definition VALID_PC :: priv_flags where "VALID_PC = 0x010"
definition VALID_CONTEXT_ID :: priv_flags where "VALID_CONTEXT_ID = 0x020"
definition VALID_EXTRA_DATA :: priv_flags where "VALID_EXTRA_DATA = 0x080"
definition VALID_STREAM_ID :: priv_flags where "VALID_STREAM_ID = 0x100"
definition VALID_SUBSTREAM_ID :: priv_flags where "VALID_SUBSTREAM_ID = 0x200"
definition VALID_HTM_ABORT_CAUSE :: priv_flags where "VALID_HTM_ABORT_CAUSE = 0x400"
definition VALID_INST_COUNT :: priv_flags where "VALID_INST_COUNT = 0x800"
definition STICKY_PRIVATE_FLAGS :: priv_flags where "STICKY_PRIVATE_FLAGS = VALID_CONTEXT_ID"

lemmas private_flag_defs = VALID_SIZE_def VALID_PADDR_def VALID_VADDR_def VALID_INST_SEQ_NUM_def VALID_PC_def
  VALID_CONTEXT_ID_def VALID_EXTRA_DATA_def VALID_STREAM_ID_def VALID_SUBSTREAM_ID_def
  VALID_HTM_ABORT_CAUSE_def VALID_INST_COUNT_def STICKY_PRIVATE_FLAGS_def

section \<open>Requests\<close>

text \<open>
  \<open>rq_local\<close> is the accessor of a local memory-mapped resource: the ARM TLB installs one that runs
  a pseudo instruction, identified by its function number and the access mode. The current time
  is an argument of the operations that read it.
\<close>

datatype tlb_mode = Read | Write | Execute

record request =
  rq_paddr :: addr
  rq_size :: "32 word"
  rq_byteEnable :: "bool list"
  rq_requestorId :: "16 word"
  rq_flags :: req_flags
  rq_coherenceFlags :: "64 word"
  rq_private :: priv_flags
  rq_time :: tick
  rq_taskId :: "32 word"
  rq_streamId :: "32 word"
  rq_substreamId :: "32 word"
  rq_vaddr :: addr
  rq_extraData :: "64 word"
  rq_contextId :: int
  rq_pc :: addr
  rq_instSeqNum :: "64 word"
  rq_atomicOp :: "(8 word list \<Rightarrow> 8 word list) option"
  rq_local :: "(8 word \<times> tlb_mode) option"
  rq_instCount :: "64 word"
  rq_htmAbortCause :: nat
  rq_translateDelta :: tick
  rq_accessDelta :: tick
  rq_depth :: int

definition MaxTick :: tick where "MaxTick = - 1"
definition InvalidContextID :: int where "InvalidContextID = - 1"
definition invldRequestorId :: "16 word" where "invldRequestorId = - 1"

text \<open>The default member initialisers; the task identifier starts at \<open>ContextSwitchTaskId::Unknown\<close>.\<close>

definition Request_empty :: request where
  "Request_empty =
     \<lparr>rq_paddr = 0, rq_size = 0, rq_byteEnable = [], rq_requestorId = invldRequestorId, rq_flags = 0,
      rq_coherenceFlags = 0, rq_private = 0, rq_time = MaxTick, rq_taskId = 1024, rq_streamId = 0,
      rq_substreamId = 0, rq_vaddr = - 1, rq_extraData = 0, rq_contextId = InvalidContextID,
      rq_pc = - 1, rq_instSeqNum = 0, rq_atomicOp = None, rq_local = None, rq_instCount = 0,
      rq_htmAbortCause = 0, rq_translateDelta = 0, rq_accessDelta = 0, rq_depth = 0\<rparr>"

definition Request_phys :: "tick \<Rightarrow> addr \<Rightarrow> 32 word \<Rightarrow> req_flags \<Rightarrow> 16 word \<Rightarrow> request" where
  "Request_phys now paddr sz fs rid =
     Request_empty\<lparr>rq_paddr := paddr, rq_size := sz, rq_requestorId := rid, rq_time := now,
       rq_flags := flags_set 0 fs, rq_private := flags_set 0 (VALID_PADDR OR VALID_SIZE)\<rparr>"

definition setContext :: "int \<Rightarrow> request \<Rightarrow> request" where
  "setContext cid r = r\<lparr>rq_contextId := cid, rq_private := flags_set (rq_private r) VALID_CONTEXT_ID\<rparr>"

definition setVirt ::
    "tick \<Rightarrow> addr \<Rightarrow> 32 word \<Rightarrow> req_flags \<Rightarrow> 16 word \<Rightarrow> addr \<Rightarrow> (8 word list \<Rightarrow> 8 word list) option
       \<Rightarrow> request \<Rightarrow> request" where
  "setVirt now vaddr sz fs rid pc amo_op r =
     r\<lparr>rq_vaddr := vaddr, rq_size := sz, rq_requestorId := rid, rq_pc := pc, rq_time := now,
       rq_flags := flags_set (flags_clear (rq_flags r) (NOT STICKY_FLAGS)) fs,
       rq_private := flags_set (flags_clear (rq_private r) (NOT STICKY_PRIVATE_FLAGS))
                       (VALID_VADDR OR VALID_SIZE OR VALID_PC),
       rq_depth := 0, rq_accessDelta := 0, rq_translateDelta := 0, rq_atomicOp := amo_op,
       rq_local := None\<rparr>"

definition Request_virt ::
    "tick \<Rightarrow> addr \<Rightarrow> 32 word \<Rightarrow> req_flags \<Rightarrow> 16 word \<Rightarrow> addr \<Rightarrow> int
       \<Rightarrow> (8 word list \<Rightarrow> 8 word list) option \<Rightarrow> request" where
  "Request_virt now vaddr sz fs rid pc cid amo_op =
     setContext cid (setVirt now vaddr sz fs rid pc amo_op Request_empty)"

text \<open>The copy constructor names the members it copies; the others keep their initial values.\<close>

definition Request_copy :: "request \<Rightarrow> request" where
  "Request_copy r =
     Request_empty\<lparr>rq_paddr := rq_paddr r, rq_size := rq_size r, rq_byteEnable := rq_byteEnable r,
       rq_requestorId := rq_requestorId r, rq_flags := rq_flags r,
       rq_coherenceFlags := rq_coherenceFlags r, rq_private := rq_private r, rq_time := rq_time r,
       rq_taskId := rq_taskId r, rq_vaddr := rq_vaddr r, rq_extraData := rq_extraData r,
       rq_contextId := rq_contextId r, rq_pc := rq_pc r, rq_instSeqNum := rq_instSeqNum r,
       rq_local := rq_local r, rq_translateDelta := rq_translateDelta r,
       rq_accessDelta := rq_accessDelta r, rq_depth := rq_depth r, rq_atomicOp := rq_atomicOp r\<rparr>"

definition setStreamId :: "32 word \<Rightarrow> request \<Rightarrow> request" where
  "setStreamId sid r = r\<lparr>rq_streamId := sid, rq_private := flags_set (rq_private r) VALID_STREAM_ID\<rparr>"

definition setSubStreamId :: "32 word \<Rightarrow> request \<Rightarrow> request res" where
  "setSubStreamId ssid r =
     assert_that (isSet (rq_private r) VALID_STREAM_ID)
       (Ok (r\<lparr>rq_substreamId := ssid, rq_private := flags_set (rq_private r) VALID_SUBSTREAM_ID\<rparr>))"

definition setPaddr :: "addr \<Rightarrow> request \<Rightarrow> request" where
  "setPaddr paddr r = r\<lparr>rq_paddr := paddr, rq_private := flags_set (rq_private r) VALID_PADDR\<rparr>"

definition splitOnVaddr :: "addr \<Rightarrow> request \<Rightarrow> (request \<times> request) res" where
  "splitOnVaddr split_addr r =
     assert_that (isSet (rq_private r) VALID_VADDR)
       (assert_that (noneSet (rq_private r) VALID_PADDR)
         (assert_that (split_addr > rq_vaddr r \<and> split_addr < rq_vaddr r + ucast (rq_size r))
           (let req1 = Request_copy r;
                req2 = Request_copy r;
                req1 = req1\<lparr>rq_size := ucast (split_addr - rq_vaddr r)\<rparr>;
                req2 = req2\<lparr>rq_vaddr := split_addr, rq_size := rq_size r - rq_size req1\<rparr>
            in if rq_byteEnable r \<noteq> []
               then if length (rq_byteEnable r) < unat (rq_size req1) then Err Undefined
                    else Ok (req1\<lparr>rq_byteEnable := take (unat (rq_size req1)) (rq_byteEnable r)\<rparr>,
                             req2\<lparr>rq_byteEnable := drop (unat (rq_size req1)) (rq_byteEnable r)\<rparr>)
               else Ok (req1, req2))))"

section \<open>Accessors\<close>

definition hasPaddr :: "request \<Rightarrow> bool" where
  "hasPaddr r = isSet (rq_private r) VALID_PADDR"

definition getPaddr :: "request \<Rightarrow> addr res" where
  "getPaddr r = assert_that (isSet (rq_private r) VALID_PADDR) (Ok (rq_paddr r))"

definition getInstCount :: "request \<Rightarrow> 64 word res" where
  "getInstCount r = assert_that (isSet (rq_private r) VALID_INST_COUNT) (Ok (rq_instCount r))"

definition setInstCount :: "64 word \<Rightarrow> request \<Rightarrow> request" where
  "setInstCount v r = r\<lparr>rq_private := flags_set (rq_private r) VALID_INST_COUNT, rq_instCount := v\<rparr>"

definition hasSize :: "request \<Rightarrow> bool" where
  "hasSize r = isSet (rq_private r) VALID_SIZE"

definition getSize :: "request \<Rightarrow> 32 word res" where
  "getSize r = assert_that (isSet (rq_private r) VALID_SIZE) (Ok (rq_size r))"

definition setByteEnable :: "bool list \<Rightarrow> request \<Rightarrow> request res" where
  "setByteEnable be r = assert_that (be = [] \<or> length be = unat (rq_size r)) (Ok (r\<lparr>rq_byteEnable := be\<rparr>))"

definition isMasked :: "request \<Rightarrow> bool" where
  "isMasked r \<longleftrightarrow> False \<in> set (rq_byteEnable r)"

definition getTime :: "request \<Rightarrow> tick res" where
  "getTime r = assert_that (isSet (rq_private r) (VALID_PADDR OR VALID_VADDR)) (Ok (rq_time r))"

definition isLocalAccess :: "request \<Rightarrow> bool" where
  "isLocalAccess r \<longleftrightarrow> rq_local r \<noteq> None"

definition setLocalAccessor :: "8 word \<times> tlb_mode \<Rightarrow> request \<Rightarrow> request" where
  "setLocalAccessor acc r = r\<lparr>rq_local := Some acc\<rparr>"

definition hasAtomicOpFunctor :: "request \<Rightarrow> bool" where
  "hasAtomicOpFunctor r \<longleftrightarrow> rq_atomicOp r \<noteq> None"

definition getAtomicOpFunctor :: "request \<Rightarrow> (8 word list \<Rightarrow> 8 word list) res" where
  "getAtomicOpFunctor r = (case rq_atomicOp r of None \<Rightarrow> Err Assert_Failed | Some f \<Rightarrow> Ok f)"

definition getFlags :: "request \<Rightarrow> req_flags res" where
  "getFlags r = assert_that (isSet (rq_private r) (VALID_PADDR OR VALID_VADDR)) (Ok (rq_flags r))"

definition setFlags :: "req_flags \<Rightarrow> request \<Rightarrow> request res" where
  "setFlags fs r =
     assert_that (isSet (rq_private r) (VALID_PADDR OR VALID_VADDR)) (Ok (r\<lparr>rq_flags := flags_set (rq_flags r) fs\<rparr>))"

definition setCacheCoherenceFlags :: "64 word \<Rightarrow> request \<Rightarrow> request res" where
  "setCacheCoherenceFlags fs r =
     assert_that (isSet (rq_private r) (VALID_PADDR OR VALID_VADDR))
       (Ok (r\<lparr>rq_coherenceFlags := flags_set (rq_coherenceFlags r) fs\<rparr>))"

definition hasVaddr :: "request \<Rightarrow> bool" where
  "hasVaddr r = isSet (rq_private r) VALID_VADDR"

definition getVaddr :: "request \<Rightarrow> addr res" where
  "getVaddr r = assert_that (isSet (rq_private r) VALID_VADDR) (Ok (rq_vaddr r))"

definition setTaskId :: "32 word \<Rightarrow> request \<Rightarrow> request" where
  "setTaskId i r = r\<lparr>rq_taskId := i\<rparr>"

definition getArchFlags :: "request \<Rightarrow> 8 word res" where
  "getArchFlags r =
     assert_that (isSet (rq_private r) (VALID_PADDR OR VALID_VADDR)) (Ok (ucast (rq_flags r AND ARCH_BITS)))"

definition extraDataValid :: "request \<Rightarrow> bool" where
  "extraDataValid r = isSet (rq_private r) VALID_EXTRA_DATA"

definition getExtraData :: "request \<Rightarrow> 64 word res" where
  "getExtraData r = assert_that (isSet (rq_private r) VALID_EXTRA_DATA) (Ok (rq_extraData r))"

definition setExtraData :: "64 word \<Rightarrow> request \<Rightarrow> request" where
  "setExtraData d r = r\<lparr>rq_extraData := d, rq_private := flags_set (rq_private r) VALID_EXTRA_DATA\<rparr>"

definition hasContextId :: "request \<Rightarrow> bool" where
  "hasContextId r = isSet (rq_private r) VALID_CONTEXT_ID"

definition req_contextId :: "request \<Rightarrow> int res" where
  "req_contextId r = assert_that (isSet (rq_private r) VALID_CONTEXT_ID) (Ok (rq_contextId r))"

definition streamId :: "request \<Rightarrow> 32 word res" where
  "streamId r = assert_that (isSet (rq_private r) VALID_STREAM_ID) (Ok (rq_streamId r))"

definition hasSubstreamId :: "request \<Rightarrow> bool" where
  "hasSubstreamId r = isSet (rq_private r) VALID_SUBSTREAM_ID"

definition substreamId :: "request \<Rightarrow> 32 word res" where
  "substreamId r = assert_that (isSet (rq_private r) VALID_SUBSTREAM_ID) (Ok (rq_substreamId r))"

definition setPC :: "addr \<Rightarrow> request \<Rightarrow> request" where
  "setPC pc r = r\<lparr>rq_private := flags_set (rq_private r) VALID_PC, rq_pc := pc\<rparr>"

definition hasPC :: "request \<Rightarrow> bool" where
  "hasPC r = isSet (rq_private r) VALID_PC"

definition getPC :: "request \<Rightarrow> addr res" where
  "getPC r = assert_that (isSet (rq_private r) VALID_PC) (Ok (rq_pc r))"

definition incAccessDepth :: "request \<Rightarrow> request" where
  "incAccessDepth r = r\<lparr>rq_depth := rq_depth r + 1\<rparr>"

definition setTranslateLatency :: "tick \<Rightarrow> request \<Rightarrow> request" where
  "setTranslateLatency now r = r\<lparr>rq_translateDelta := now - rq_time r\<rparr>"

definition setAccessLatency :: "tick \<Rightarrow> request \<Rightarrow> request" where
  "setAccessLatency now r = r\<lparr>rq_accessDelta := now - rq_time r - rq_translateDelta r\<rparr>"

definition hasInstSeqNum :: "request \<Rightarrow> bool" where
  "hasInstSeqNum r = isSet (rq_private r) VALID_INST_SEQ_NUM"

definition getReqInstSeqNum :: "request \<Rightarrow> 64 word res" where
  "getReqInstSeqNum r = assert_that (isSet (rq_private r) VALID_INST_SEQ_NUM) (Ok (rq_instSeqNum r))"

definition setReqInstSeqNum :: "64 word \<Rightarrow> request \<Rightarrow> request" where
  "setReqInstSeqNum n r = r\<lparr>rq_private := flags_set (rq_private r) VALID_INST_SEQ_NUM, rq_instSeqNum := n\<rparr>"

definition isHTMAbort :: "request \<Rightarrow> bool" where "isHTMAbort r = isSet (rq_flags r) HTM_ABORT"

definition getHtmAbortCause :: "request \<Rightarrow> nat res" where
  "getHtmAbortCause r = assert_that (isSet (rq_private r) VALID_HTM_ABORT_CAUSE) (Ok (rq_htmAbortCause r))"

definition setHtmAbortCause :: "nat \<Rightarrow> request \<Rightarrow> request res" where
  "setHtmAbortCause v r =
     assert_that (isHTMAbort r)
       (Ok (r\<lparr>rq_private := flags_set (rq_private r) VALID_HTM_ABORT_CAUSE, rq_htmAbortCause := v\<rparr>))"

definition isUncacheable :: "request \<Rightarrow> bool" where "isUncacheable r = isSet (rq_flags r) UNCACHEABLE"
definition isStrictlyOrdered :: "request \<Rightarrow> bool" where "isStrictlyOrdered r = isSet (rq_flags r) STRICT_ORDER"
definition isInstFetch :: "request \<Rightarrow> bool" where "isInstFetch r = isSet (rq_flags r) INST_FETCH"
definition isPrefetch :: "request \<Rightarrow> bool" where
  "isPrefetch r \<longleftrightarrow> isSet (rq_flags r) PREFETCH \<or> isSet (rq_flags r) PF_EXCLUSIVE"
definition isPrefetchEx :: "request \<Rightarrow> bool" where "isPrefetchEx r = isSet (rq_flags r) PF_EXCLUSIVE"
definition isLLSC :: "request \<Rightarrow> bool" where "isLLSC r = isSet (rq_flags r) LLSC"
definition req_isPriv :: "request \<Rightarrow> bool" where "req_isPriv r = isSet (rq_flags r) PRIVILEGED"
definition isLockedRMW :: "request \<Rightarrow> bool" where "isLockedRMW r = isSet (rq_flags r) LOCKED_RMW"
definition isSwap :: "request \<Rightarrow> bool" where "isSwap r = isSet (rq_flags r) (MEM_SWAP OR MEM_SWAP_COND)"
definition isCondSwap :: "request \<Rightarrow> bool" where "isCondSwap r = isSet (rq_flags r) MEM_SWAP_COND"
definition req_isSecure :: "request \<Rightarrow> bool" where "req_isSecure r = isSet (rq_flags r) SECURE"
definition isPTWalk :: "request \<Rightarrow> bool" where "isPTWalk r = isSet (rq_flags r) PT_WALK"
definition isAtomic :: "request \<Rightarrow> bool" where
  "isAtomic r \<longleftrightarrow> isSet (rq_flags r) ATOMIC_RETURN_OP \<or> isSet (rq_flags r) ATOMIC_NO_RETURN_OP"
definition isHTMCmd :: "request \<Rightarrow> bool" where
  "isHTMCmd r \<longleftrightarrow> isSet (rq_flags r) HTM_START \<or> isSet (rq_flags r) HTM_COMMIT \<or>
     isSet (rq_flags r) HTM_CANCEL \<or> isHTMAbort r"
definition isCacheClean :: "request \<Rightarrow> bool" where "isCacheClean r = isSet (rq_flags r) CLEAN"
definition isCacheInvalidate :: "request \<Rightarrow> bool" where "isCacheInvalidate r = isSet (rq_flags r) INVALIDATE"
definition isCacheMaintenance :: "request \<Rightarrow> bool" where
  "isCacheMaintenance r = isSet (rq_flags r) (CLEAN OR INVALIDATE)"

text \<open>The invariant of the byte mask: it is absent or has one entry per byte.\<close>

definition req_ok :: "request \<Rightarrow> bool" where
  "req_ok r \<longleftrightarrow> rq_byteEnable r = [] \<or> length (rq_byteEnable r) = unat (rq_size r)"

section \<open>Flag sets are sets\<close>

lemma isSet_flags_set: "isSet (flags_set fs f) g \<longleftrightarrow> isSet fs g \<or> isSet f g"
  by (auto simp: isSet_def flags_set_def bit_eq_iff bit_and_iff bit_or_iff)

lemma noneSet_isSet: "noneSet fs f \<longleftrightarrow> \<not> isSet fs f"
  by (simp add: noneSet_def isSet_def)

lemma setByteEnable_ok: "setByteEnable be r = Ok r' \<Longrightarrow> req_ok r'"
  by (auto simp: setByteEnable_def req_ok_def res_simps)

lemma split_bounds:
  assumes "s > v" "s < v + (ucast (sz :: 32 word) :: addr)"
  shows "unat v < unat s \<and> unat s < unat v + unat sz \<and> unat (v + ucast sz) = unat v + unat sz"
proof -
  have u: "unat (ucast sz :: addr) = unat sz" by (rule unat_ucast_up) simp
  have lt: "unat v < unat s" "unat s < unat (v + ucast sz)" using assms by (simp_all add: word_less_nat_alt)
  have "unat (v + ucast sz) = unat v + unat sz"
  proof (rule ccontr)
    assume "\<not> ?thesis"
    then have "unat (v + ucast sz) = unat v + unat sz - 18446744073709551616"
      using u by (simp add: unat_plus_if_size word_size split: if_splits)
    moreover have "unat sz < 4294967296" using unsigned_less [of sz] by simp
    moreover have "unat v < 18446744073709551616" using unsigned_less [of v] by simp
    ultimately show False using lt by linarith
  qed
  then show ?thesis using lt by simp
qed

section \<open>Properties\<close>

text \<open>
  C40. Splitting an untranslated request at an address strictly inside
  it always succeeds, and the two pieces are adjacent and non-empty, cover the request exactly,
  carry its flags, and divide its byte mask between them.
\<close>

theorem split_covers_request:
  assumes "req_ok r" "hasVaddr r" "\<not> hasPaddr r" "rq_vaddr r < s" "s < rq_vaddr r + ucast (rq_size r)"
  shows "\<exists>r1 r2. splitOnVaddr s r = Ok (r1, r2) \<and>
    rq_vaddr r1 = rq_vaddr r \<and> rq_vaddr r2 = s \<and>
    unat (rq_vaddr r2) = unat (rq_vaddr r1) + unat (rq_size r1) \<and>
    0 < unat (rq_size r1) \<and> 0 < unat (rq_size r2) \<and> unat (rq_size r1) + unat (rq_size r2) = unat (rq_size r) \<and>
    rq_byteEnable r1 @ rq_byteEnable r2 = rq_byteEnable r \<and> req_ok r1 \<and> req_ok r2 \<and>
    rq_flags r1 = rq_flags r \<and> rq_flags r2 = rq_flags r"
proof -
  note b = split_bounds [OF assms(4,5)]
  have d: "unat (s - rq_vaddr r) = unat s - unat (rq_vaddr r)" using assms(4) by (intro unat_sub) simp
  have "unat (rq_size r) < 4294967296" using unsigned_less [of "rq_size r"] by simp
  then have "unat (s - rq_vaddr r) < 4294967296" using b d by linarith
  then have n1: "unat (ucast (s - rq_vaddr r) :: 32 word) = unat s - unat (rq_vaddr r)"
    using d by (subst unat_ucast_small) simp_all
  have n2: "unat (rq_size r - ucast (s - rq_vaddr r)) = unat (rq_size r) - (unat s - unat (rq_vaddr r))"
    using b n1 by (subst unat_sub) (auto simp: word_le_nat_alt)
  show ?thesis
    using assms b n1 n2
    by (auto simp: splitOnVaddr_def hasVaddr_def hasPaddr_def noneSet_isSet Let_def req_ok_def Request_copy_def)
qed

theorem split_covers_request_witness:
  "\<exists>r1 r2. splitOnVaddr 0x1040 (Request_virt 0 0x103c 8 0 1 0 0 None) = Ok (r1, r2) \<and>
     rq_vaddr r2 = 0x1040 \<and> unat (rq_size r1) + unat (rq_size r2) = 8"
proof -
  let ?r = "Request_virt 0 0x103c 8 0 1 0 0 None"
  have "req_ok ?r" "hasVaddr ?r" "\<not> hasPaddr ?r" "rq_vaddr ?r < 0x1040" "0x1040 < rq_vaddr ?r + ucast (rq_size ?r)"
    "rq_size ?r = 8"
    by (simp_all add: req_ok_def hasVaddr_def hasPaddr_def Request_virt_def setContext_def setVirt_def isSet_def
        flags_set_def flags_clear_def private_flag_defs Request_empty_def)
  then show ?thesis using split_covers_request [of ?r "0x1040"] by fastforce
qed

text \<open>
  Copying a request copies the flags that say which members are valid, but
  not the stream identifier: a piece of a split request claims a valid stream and reports stream 0.
\<close>

theorem copy_forgets_stream:
  "bind_res (splitOnVaddr 0x1040 (setStreamId 7 (Request_virt 0 0x103c 8 0 1 0 0 None)))
     (\<lambda>(r1, r2). streamId r1) = Ok 0 \<and>
   streamId (setStreamId 7 (Request_virt 0 0x103c 8 0 1 0 0 None)) = Ok 7"
  by (simp add: splitOnVaddr_def streamId_def setStreamId_def Request_virt_def setContext_def setVirt_def isSet_def
      noneSet_def flags_set_def flags_clear_def private_flag_defs Request_empty_def Request_copy_def Let_def)

text \<open>
  Reusing a request object for a new access clears every flag that is not
  sticky and invalidates the physical address, but it keeps the old byte mask: the mask of an eight-byte access then has the
  wrong length for a four-byte one.
\<close>

theorem reuse_keeps_byte_mask:
  "hasPaddr (setVirt now v sz fs rid pc op r) = False \<and>
   hasContextId (setVirt now v sz fs rid pc op r) = hasContextId r \<and>
   rq_flags (setVirt now v sz fs rid pc op r) = ((rq_flags r AND INST_FETCH) OR fs) \<and>
   req_ok (Request_empty\<lparr>rq_size := 8, rq_byteEnable := replicate 8 True\<rparr>) \<and>
   \<not> req_ok (setVirt now v 4 fs rid pc op (Request_empty\<lparr>rq_size := 8, rq_byteEnable := replicate 8 True\<rparr>))"
proof -
  have "hasContextId (setVirt now v sz fs rid pc op r) = hasContextId r"
    "hasPaddr (setVirt now v sz fs rid pc op r) = False"
    by (auto simp: hasContextId_def hasPaddr_def setVirt_def isSet_flags_set)
      (simp_all add: isSet_def flags_clear_def private_flag_defs and.assoc)
  then show ?thesis
    by (simp add: setVirt_def flags_set_def flags_clear_def STICKY_FLAGS_def INST_FETCH_def req_ok_def)
qed

end
