(* ===== verification/Arm_MMU.thy ===== *)
theory Arm_MMU
  imports Arm_TLB Page_Table Request
begin

text \<open>
  Translation in the ARM TLB, \<open>src/arch/arm/tlb.cc\<close>: the cached register state (\<open>updateMiscReg\<close>), the
  permission checks of AArch32 and AArch64, translation with the MMU off, and translation in
  system-call emulation, which reads the page table of the process. The lemmas characterise the
  accesses that the permission checks let through, show that the caching of registers is
  idempotent, and connect emulated translation to the page table.
\<close>

unbundle bit_operations_syntax

section \<open>Faults\<close>

text \<open>
  The fault sources that the modelled operations raise; the enumerators of the table walker, of debug
  events and of external aborts are not needed here. A source with the suffix \<open>LL\<close> carries the level the code adds to it.
\<close>

datatype fault_source =
    AlignmentFault | DomainLL lookup_level | PermissionLL lookup_level | AddressSizeLL
  | PrefetchTLBMiss | PrefetchUncacheable

datatype tran_method = LpaeTran | VmsaTran | UnknownTran

datatype fault =
    NoFault
  | DataAbort addr domain_type bool fault_source bool tran_method
  | PrefetchAbort addr fault_source bool tran_method
  | GenericPageTableFault addr

text \<open>The bits of the request flags that the ARM code uses, and the translation types.\<close>

definition AlignmentMask :: req_flags where "AlignmentMask = 0x7"
definition AllowUnaligned :: req_flags where "AllowUnaligned = 0x8"
definition UserMode :: req_flags where "UserMode = 0x10"

type_synonym tran_type = "32 word"

definition NormalTran :: tran_type where "NormalTran = 0"
definition S1CTran :: tran_type where "S1CTran = 0x1"
definition HypMode :: tran_type where "HypMode = 0x2"
definition S1S2NsTran :: tran_type where "S1S2NsTran = 0x4"
definition S1E0Tran :: tran_type where "S1E0Tran = 0x8"
definition S1E1Tran :: tran_type where "S1E1Tran = 0x10"
definition S1E2Tran :: tran_type where "S1E2Tran = 0x20"
definition S1E3Tran :: tran_type where "S1E3Tran = 0x40"
definition S12E0Tran :: tran_type where "S12E0Tran = 0x80"
definition S12E1Tran :: tran_type where "S12E1Tran = 0x100"

definition sctlr_m :: "64 word \<Rightarrow> bool" where "sctlr_m r = bit r 0"
definition sctlr_a :: "64 word \<Rightarrow> bool" where "sctlr_a r = bit r 1"
definition sctlr_c :: "64 word \<Rightarrow> bool" where "sctlr_c r = bit r 2"
definition sctlr_rs :: "64 word \<Rightarrow> 64 word" where "sctlr_rs r = bits_raw r 9 8"
definition sctlr_i :: "64 word \<Rightarrow> bool" where "sctlr_i r = bit r 12"
definition sctlr_wxn :: "64 word \<Rightarrow> bool" where "sctlr_wxn r = bit r 19"
definition sctlr_uwxn :: "64 word \<Rightarrow> bool" where "sctlr_uwxn r = bit r 20"
definition sctlr_xp :: "64 word \<Rightarrow> bool" where "sctlr_xp r = bit r 23"
definition sctlr_tre :: "64 word \<Rightarrow> bool" where "sctlr_tre r = bit r 28"
definition sctlr_afe :: "64 word \<Rightarrow> bool" where "sctlr_afe r = bit r 29"
definition nmrr_ir0 :: "64 word \<Rightarrow> 64 word" where "nmrr_ir0 r = bits_raw r 1 0"
definition nmrr_or0 :: "64 word \<Rightarrow> 64 word" where "nmrr_or0 r = bits_raw r 17 16"
definition prrr_tr0 :: "64 word \<Rightarrow> 64 word" where "prrr_tr0 r = bits_raw r 1 0"
definition contextidr_asid :: "64 word \<Rightarrow> 64 word" where "contextidr_asid r = bits_raw r 7 0"

section \<open>The cached registers\<close>

definition tranTypeEL :: "64 word \<Rightarrow> tran_type \<Rightarrow> exception_level res" where
  "tranTypeEL cpsr ty =
     (if ty = S1E0Tran \<or> ty = S12E0Tran then Ok EL0
      else if ty = S1E1Tran \<or> ty = S12E1Tran then Ok EL1
      else if ty = S1E2Tran then Ok EL2
      else if ty = S1E3Tran then Ok EL3
      else if ty = NormalTran \<or> ty = S1CTran \<or> ty = S1S2NsTran \<or> ty = HypMode then currEL_cpsr cpsr
      else Err Panic)"

definition snsBanked :: "thread_ctx \<Rightarrow> bool \<Rightarrow> misc_reg \<Rightarrow> misc_reg \<Rightarrow> misc_reg" where
  "snsBanked tc ns reg_ns reg_s =
     (if haveSecurity tc \<and> \<not> highestELIs64 tc \<and> \<not> ns then reg_s else reg_ns)"

definition ttbr_asid ::
    "thread_ctx \<Rightarrow> bool \<Rightarrow> 64 word \<Rightarrow> misc_reg \<Rightarrow> misc_reg \<Rightarrow> 16 word" where
  "ttbr_asid tc haveLargeAsid64 ttbcr ttbr0 ttbr1 =
     (let v = readMiscReg tc (if ttbcr_a1 ttbcr then ttbr1 else ttbr0)
      in ucast (bits_raw v (if haveLargeAsid64 \<and> ttbcr_as ttbcr then 63 else 55) 48))"

definition regime_regs64 :: "thread_ctx \<Rightarrow> arm_tlb \<Rightarrow> arm_tlb" where
  "regime_regs64 tc u =
     (let rd = readMiscReg tc;
          el1 = (let tt = rd MISCREG_TCR_EL1
                 in u\<lparr>t_sctlr := rd MISCREG_SCTLR_EL1, t_ttbcr := tt,
                      t_asid := ttbr_asid tc (t_haveLargeAsid64 u) tt MISCREG_TTBR0_EL1 MISCREG_TTBR1_EL1\<rparr>);
          el2 = (let tt = rd MISCREG_TCR_EL2
                 in u\<lparr>t_sctlr := rd MISCREG_SCTLR_EL2, t_ttbcr := tt,
                      t_asid := ttbr_asid tc (t_haveLargeAsid64 u) tt MISCREG_TTBR0_EL2 MISCREG_TTBR1_EL2\<rparr>)
      in case aarch64EL u of
           EL0 \<Rightarrow> if HaveVirtHostExt tc \<and> hcr_tge (t_hcr u) \<and> hcr_e2h (t_hcr u) then el2 else el1
         | EL1 \<Rightarrow> el1
         | EL2 \<Rightarrow> if hcr_e2h (t_hcr u) then el2
                  else u\<lparr>t_sctlr := rd MISCREG_SCTLR_EL2, t_ttbcr := rd MISCREG_TCR_EL2, t_asid := - 1\<rparr>
         | EL3 \<Rightarrow> u\<lparr>t_sctlr := rd MISCREG_SCTLR_EL3, t_ttbcr := rd MISCREG_TCR_EL3, t_asid := - 1\<rparr>)"

definition virt_regs64 :: "thread_ctx \<Rightarrow> tran_type \<Rightarrow> arm_tlb \<Rightarrow> arm_tlb res" where
  "virt_regs64 tc ty u =
     (let u = u\<lparr>t_scr := readMiscReg tc MISCREG_SCR_EL3, isPriv := aarch64EL u \<noteq> EL0\<rparr>;
          hcr = t_hcr u
      in if t_haveVirtualization u then
           let vmid = ucast (bits_raw (readMiscReg tc MISCREG_VTTBR_EL2) 55 48);
               hyp = (aarch64EL u = EL2);
               hyp = (hyp \<or> ty AND HypMode \<noteq> 0);
               hyp = (hyp \<and> ty AND S1S2NsTran = 0);
               hyp = (hyp \<and> ty AND S1CTran = 0);
               vm = (if HaveVirtHostExt tc \<and> hcr_e2h hcr \<and> hcr_tge hcr then False else hcr_vm hcr);
               u = u\<lparr>t_vmid := vmid\<rparr>
           in if hcr_e2h hcr \<and> (aarch64EL u = EL2 \<or> hcr_tge hcr \<and> aarch64EL u = EL0)
              then Ok (u\<lparr>isHyp := True, directToStage2 := False, stage2Req := False, stage2DescReq := False\<rparr>)
              else bind_res (or_else (\<not> t_isSecure u) (IsSecureEL2Enabled tc)) (\<lambda>sec.
                let below = (aarch64EL u = EL0 \<or> aarch64EL u = EL1);
                    s2r = (isStage2 u \<or> vm \<and> \<not> hyp \<and> sec \<and> ty AND S1CTran = 0 \<and> below \<and> ty AND S1E1Tran = 0)
                in Ok (u\<lparr>isHyp := hyp, stage2Req := s2r,
                         stage2DescReq := isStage2 u \<or> vm \<and> \<not> hyp \<and> sec \<and> below,
                         directToStage2 := \<not> isStage2 u \<and> s2r \<and> \<not> sctlr_m (t_sctlr u)\<rparr>))
         else Ok (u\<lparr>t_vmid := 0, isHyp := False, directToStage2 := False, stage2Req := False,
                   stage2DescReq := False\<rparr>))"

definition regs32 :: "thread_ctx \<Rightarrow> arm_tlb \<Rightarrow> arm_tlb" where
  "regs32 tc u =
     (let rd = readMiscReg tc;
          ns = (\<not> t_isSecure u);
          bank = snsBanked tc ns;
          tt = rd (bank MISCREG_TTBCR_NS MISCREG_TTBCR_S)
      in u\<lparr>t_sctlr := rd (bank MISCREG_SCTLR_NS MISCREG_SCTLR_S), t_ttbcr := tt,
           t_scr := rd MISCREG_SCR, isPriv := cpsr_mode (t_cpsr u) \<noteq> MODE_USER,
           t_asid :=
             (if longDescFormatInUse tc
              then ucast (bits_raw (rd (if ttbcr_a1 tt then bank MISCREG_TTBR1_NS MISCREG_TTBR1_S
                                        else bank MISCREG_TTBR0_NS MISCREG_TTBR0_S)) 55 48)
              else ucast (contextidr_asid (rd (bank MISCREG_CONTEXTIDR_NS MISCREG_CONTEXTIDR_S)))),
           t_prrr := rd (bank MISCREG_PRRR_NS MISCREG_PRRR_S),
           t_nmrr := rd (bank MISCREG_NMRR_NS MISCREG_NMRR_S),
           t_dacr := rd (bank MISCREG_DACR_NS MISCREG_DACR_S), t_hcr := rd MISCREG_HCR\<rparr>)"

definition virt_regs32 :: "thread_ctx \<Rightarrow> tran_type \<Rightarrow> arm_tlb \<Rightarrow> arm_tlb res" where
  "virt_regs32 tc ty u =
     (if t_haveVirtualization u then
        let vmid = ucast (bits_raw (readMiscReg tc MISCREG_VTTBR) 55 48);
            hyp = (cpsr_mode (t_cpsr u) = MODE_HYP);
            hyp = (hyp \<or> ty AND HypMode \<noteq> 0);
            hyp = (hyp \<and> ty AND S1S2NsTran = 0);
            hyp = (hyp \<and> ty AND S1CTran = 0);
            sctlr = (if hyp then readMiscReg tc MISCREG_HSCTLR else t_sctlr u);
            vm = hcr_vm (t_hcr u)
        in bind_res (or_else (\<not> t_isSecure u) (IsSecureEL2Enabled tc)) (\<lambda>sec.
             let s2r = (vm \<and> \<not> isStage2 u \<and> \<not> hyp \<and> sec \<and> ty AND S1CTran = 0)
             in Ok (u\<lparr>t_vmid := vmid, isHyp := hyp, t_sctlr := sctlr, stage2Req := s2r,
                      stage2DescReq := vm \<and> \<not> isStage2 u \<and> \<not> hyp \<and> sec,
                      directToStage2 := s2r \<and> \<not> sctlr_m sctlr\<rparr>))
      else Ok (u\<lparr>t_vmid := 0, stage2Req := False, isHyp := False, directToStage2 := False,
                stage2DescReq := False\<rparr>))"

definition updateMiscReg :: "thread_ctx \<Rightarrow> tran_type \<Rightarrow> arm_tlb \<Rightarrow> arm_tlb res" where
  "updateMiscReg tc ty u =
     (if miscRegValid u \<and> miscRegContext u = contextId tc \<and> (ty = curTranType u \<or> isStage2 u) then Ok u
      else
        let cpsr = readMiscReg tc MISCREG_CPSR
        in bind_res (isSecure tc) (\<lambda>secure.
           bind_res (tranTypeEL cpsr ty) (\<lambda>el.
           bind_res (if isStage2 u then ELIs64 tc EL2 else ELIs64 tc (if el = EL0 then EL1 else el)) (\<lambda>b64.
             let u = u\<lparr>t_cpsr := cpsr, t_isSecure := secure \<and> ty AND HypMode = 0 \<and> ty AND S1S2NsTran = 0,
                       aarch64EL := el, aarch64 := b64, t_hcr := readMiscReg tc MISCREG_HCR_EL2\<rparr>
             in bind_res (if b64 then virt_regs64 tc ty (regime_regs64 tc u)
                          else virt_regs32 tc ty (regs32 tc u)) (\<lambda>u.
                  Ok (u\<lparr>miscRegValid := True, miscRegContext := contextId tc, curTranType := ty\<rparr>))))))"

definition misaligned :: "addr \<Rightarrow> req_flags \<Rightarrow> bool" where
  "misaligned vaddr fs \<longleftrightarrow> vaddr AND mask_n (uint (fs AND AlignmentMask)) \<noteq> 0"

definition dacr_field :: "arm_tlb \<Rightarrow> tlb_entry \<Rightarrow> 64 word" where
  "dacr_field u te = (drop_bit (unat (te_domain te) * 2) (t_dacr u) AND 3)"

definition ap32 :: "arm_tlb \<Rightarrow> tlb_entry \<Rightarrow> 8 word" where
  "ap32 u te =
     (let ap = (if te_longDescFormat te then push_bit 1 (te_ap te) else te_ap te)
      in if sctlr_afe (t_sctlr u) \<or> te_longDescFormat te then ap OR 1 else ap)"

text \<open>The switch over the access permission bits: whether to abort, and whether the page is writable.\<close>

definition ap_switch :: "64 word \<Rightarrow> 8 word \<Rightarrow> bool \<Rightarrow> bool \<Rightarrow> (bool \<times> bool) res" where
  "ap_switch sctlr ap is_write is_priv =
     (if ap = 0 then
        Ok (if \<not> sctlr_xp sctlr
            then if sctlr_rs sctlr = 2 then is_write
                 else if sctlr_rs sctlr = 1 then is_write \<or> \<not> is_priv
                 else True
            else True, True)
      else if ap = 1 then Ok (\<not> is_priv, True)
      else if ap = 2 then Ok (\<not> is_priv \<and> is_write, is_priv)
      else if ap = 3 then Ok (False, True)
      else if ap = 4 then Err Panic
      else if ap = 5 then Ok (\<not> is_priv \<or> is_write, False)
      else if ap = 6 \<or> ap = 7 then Ok (is_write, False)
      else Err Panic)"

definition perm_check32 ::
    "arm_tlb \<Rightarrow> tlb_entry \<Rightarrow> bool \<Rightarrow> bool \<Rightarrow> bool \<Rightarrow> addr \<Rightarrow> addr res \<Rightarrow> tran_method \<Rightarrow> fault res" where
  "perm_check32 u te is_fetch is_write is_priv vaddr pc tranMethod =
     (let ap = ap32 u te; hap = te_hap te
      in bind_res (if isStage2 u then Ok (False, True) else ap_switch (t_sctlr u) ap is_write is_priv)
           (\<lambda>(abt, isWritable).
        let hapAbt = (if is_write then hap AND 2 = 0 else hap AND 1 = 0);
            xn = (te_xn te \<or> isWritable \<and> sctlr_wxn (t_sctlr u) \<or>
                  ap = 3 \<and> sctlr_uwxn (t_sctlr u) \<and> is_priv)
        in if is_fetch \<and> (abt \<or> xn \<or> te_longDescFormat te \<and> te_pxn te \<and> is_priv \<or>
                          t_isSecure u \<and> te_ns te \<and> scr_sif (t_scr u))
           then bind_res pc (\<lambda>pc.
             Ok (PrefetchAbort pc (PermissionLL (te_lookupLevel te)) (isStage2 u) tranMethod))
           else if abt \<or> hapAbt
           then Ok (DataAbort vaddr (te_domain te) is_write (PermissionLL (te_lookupLevel te))
                     (isStage2 u \<or> \<not> abt) tranMethod)
           else Ok NoFault))"

definition checkPermissions :: "arm_tlb \<Rightarrow> tlb_entry \<Rightarrow> request \<Rightarrow> tlb_mode \<Rightarrow> fault res" where
  "checkPermissions u te req mode =
     (if isCacheMaintenance req then Ok NoFault
      else bind_res (getVaddr req) (\<lambda>vaddr.
           bind_res (getFlags req) (\<lambda>flags.
        let is_fetch = (mode = Execute);
            is_write = (mode = Write);
            is_priv = (isPriv u \<and> \<not> isSet flags UserMode);
            tranMethod = (if te_longDescFormat te then LpaeTran else VmsaTran)
        in if isStage2 u \<and> isPTWalk req \<and> hcr_ptw (t_hcr u) \<and> te_mtype te \<noteq> Normal
           then Ok (DataAbort vaddr (te_domain te) is_write (PermissionLL (te_lookupLevel te)) (isStage2 u) tranMethod)
           else if \<not> is_fetch \<and> te_mtype te \<noteq> Normal \<and> misaligned vaddr flags
           then Ok (DataAbort vaddr NoAccess is_write AlignmentFault (isStage2 u) tranMethod)
           else if te_nonCacheable te \<and> isPrefetch req
           then Ok (PrefetchAbort vaddr PrefetchUncacheable (isStage2 u) tranMethod)
           else if \<not> te_longDescFormat te \<and> dacr_field u te = 0
           then if is_fetch
                then bind_res (getPC req) (\<lambda>pc.
                  Ok (PrefetchAbort pc (DomainLL (te_lookupLevel te)) (isStage2 u) tranMethod))
                else Ok (DataAbort vaddr (te_domain te) is_write (DomainLL (te_lookupLevel te)) (isStage2 u) tranMethod)
           else if \<not> te_longDescFormat te \<and> dacr_field u te = 2 then Err Panic
           else if \<not> te_longDescFormat te \<and> dacr_field u te = 3 then Ok NoFault
           else perm_check32 u te is_fetch is_write is_priv vaddr (getPC req) tranMethod)))"

text \<open>
  \<open>grant_*\<close> are the switches over the permission bits, one per translation regime; \<open>r\<close>, \<open>w\<close> and
  \<open>x\<close> say whether the access is a read, a write or a fetch.
\<close>

definition perm_bits :: "8 word \<Rightarrow> bool \<Rightarrow> bool \<Rightarrow> 8 word" where
  "perm_bits ap xn pxn = (push_bit 2 ap OR push_bit 1 (of_bool xn) OR of_bool pxn)"

definition grant_EL0 :: "8 word \<Rightarrow> bool \<Rightarrow> bool \<Rightarrow> bool \<Rightarrow> bool \<Rightarrow> bool \<Rightarrow> bool \<Rightarrow> bool" where
  "grant_EL0 ap xn pxn wxn r w x =
     (let perm = perm_bits ap xn pxn
      in if perm \<in> {0, 1, 8, 9} then x
         else if perm \<in> {4, 5} then r \<or> w \<or> x \<and> \<not> wxn
         else if perm \<in> {6, 7} then r \<or> w
         else if perm \<in> {12, 13} then r \<or> x
         else if perm \<in> {14, 15} then r
         else False)"

definition grant_EL1 :: "8 word \<Rightarrow> bool \<Rightarrow> bool \<Rightarrow> bool \<Rightarrow> bool \<Rightarrow> bool \<Rightarrow> bool \<Rightarrow> bool" where
  "grant_EL1 ap xn pxn wxn r w x =
     (let perm = perm_bits ap xn pxn
      in if perm \<in> {0, 2} then r \<or> w \<or> x \<and> \<not> wxn
         else if perm \<in> {1, 3, 4, 5, 6, 7} then r \<or> w
         else if perm \<in> {8, 10, 12, 14} then r \<or> x
         else if perm \<in> {9, 11, 13, 15} then r
         else False)"

definition grant_EL23 :: "8 word \<Rightarrow> bool \<Rightarrow> bool \<Rightarrow> bool \<Rightarrow> bool \<Rightarrow> bool \<Rightarrow> bool" where
  "grant_EL23 ap xn wxn r w x =
     (let perm = (ap AND 2) OR of_bool xn
      in if perm = 0 then r \<or> w \<or> x \<and> \<not> wxn
         else if perm = 1 then r \<or> w
         else if perm = 2 then r \<or> x
         else if perm = 3 then r
         else False)"

definition checkPAN :: "thread_ctx \<Rightarrow> arm_tlb \<Rightarrow> 8 word \<Rightarrow> request \<Rightarrow> tlb_mode \<Rightarrow> bool res" where
  "checkPAN tc u ap req mode =
     (let mmfr1 = readMiscReg tc MISCREG_ID_AA64MMFR1_EL1
      in and_then (mmfr1_pan mmfr1 \<noteq> 0 \<and> cpsr_pan (t_cpsr u) \<and> ap AND 1 \<noteq> 0 \<and> mode \<noteq> Execute)
           (or_else (\<not> isCacheMaintenance req)
             (bind_res (getFlags req) (\<lambda>fs. Ok (isSet fs CACHE_BLOCK_ZERO)))))"

text \<open>The pair of \<open>grant\<close> and \<open>grant_read\<close>.\<close>

definition grant_stage2 ::
    "8 word \<Rightarrow> bool \<Rightarrow> bool \<Rightarrow> bool \<Rightarrow> bool \<Rightarrow> bool \<Rightarrow> bool \<Rightarrow> bool \<Rightarrow> bool \<times> bool" where
  "grant_stage2 hap wxn xn is_fetch is_atomic is_write r w =
     (let grant_read = (hap AND 1 \<noteq> 0)
      in if is_fetch then (\<not> wxn \<and> \<not> xn, grant_read)
         else if is_atomic then (r \<and> w, r)
         else if is_write then (hap AND 2 \<noteq> 0, grant_read)
         else (grant_read, grant_read))"

definition grant_stage1 ::
    "thread_ctx \<Rightarrow> arm_tlb \<Rightarrow> request \<Rightarrow> tlb_mode \<Rightarrow> 8 word \<Rightarrow> bool \<Rightarrow> bool \<Rightarrow> bool \<Rightarrow> bool \<Rightarrow> bool \<Rightarrow> bool
       \<Rightarrow> (bool \<times> bool) res" where
  "grant_stage1 tc u req mode ap xn pxn wxn r w x =
     (case aarch64EL u of
        EL0 \<Rightarrow> Ok (grant_EL0 ap xn pxn wxn r w x, ap AND 1 \<noteq> 0)
      | EL1 \<Rightarrow> bind_res (checkPAN tc u ap req mode) (\<lambda>pan.
          Ok (if pan then (False, False) else (grant_EL1 ap xn pxn wxn r w x, True)))
      | EL2 \<Rightarrow> bind_res (and_then (hcr_e2h (t_hcr u)) (checkPAN tc u ap req mode)) (\<lambda>pan.
          Ok (if pan then (False, False) else (grant_EL23 ap xn wxn r w x, True)))
      | EL3 \<Rightarrow> Ok (grant_EL23 ap xn wxn r w x, True))"

definition checkPermissions64 ::
    "arm_tlb \<Rightarrow> tlb_entry \<Rightarrow> request \<Rightarrow> tlb_mode \<Rightarrow> thread_ctx \<Rightarrow> (arm_tlb \<times> fault) res" where
  "checkPermissions64 u te req mode tc =
     assert_that (aarch64 u)
      (if isCacheClean req \<and> aarch64EL u \<noteq> EL0 \<and> \<not> isStage2 u then Ok (u, NoFault)
       else bind_res (getVaddr req) (\<lambda>vaddr_tainted.
            bind_res (purifyTaggedAddr vaddr_tainted tc (aarch64EL u) (t_ttbcr u) (mode = Execute)) (\<lambda>vaddr.
            bind_res (getFlags req) (\<lambda>flags.
            bind_res (updateMiscReg tc (curTranType u) u) (\<lambda>u.
         let is_fetch = (mode = Execute);
             is_write = (\<not> isCacheClean req \<and> mode = Write);
             is_atomic = isAtomic req
         in if isStage2 u \<and> isPTWalk req \<and> hcr_ptw (t_hcr u) \<and> te_mtype te \<noteq> Normal
            then Ok (u, DataAbort vaddr_tainted (te_domain te) is_write (PermissionLL (te_lookupLevel te)) (isStage2 u) LpaeTran)
            else if \<not> is_fetch \<and> te_mtype te \<noteq> Normal \<and> misaligned vaddr flags
            then Ok (u, DataAbort vaddr_tainted NoAccess (if is_atomic then False else is_write) AlignmentFault (isStage2 u) LpaeTran)
            else if te_nonCacheable te \<and> isPrefetch req
            then Ok (u, PrefetchAbort vaddr_tainted PrefetchUncacheable (isStage2 u) LpaeTran)
            else
              let ap = 3 AND te_ap te;
                  wxn = sctlr_wxn (t_sctlr u);
                  xn = (if haveEL tc EL3 \<and> t_isSecure u \<and> te_ns te \<and> scr_sif (t_scr u) then True else te_xn te);
                  r = (\<not> is_write \<and> \<not> is_fetch); w = is_write; x = is_fetch
              in bind_res
                   (if isStage2 u
                    then assert_that (haveVirtualization tc \<and> aarch64EL u \<noteq> EL2)
                           (Ok (grant_stage2 (3 AND te_hap te) wxn xn is_fetch is_atomic is_write r w))
                    else grant_stage1 tc u req mode ap xn (te_pxn te) wxn r w x)
                   (\<lambda>(grant, grant_read).
                 if \<not> grant
                 then if is_fetch
                      then bind_res (getPC req) (\<lambda>pc.
                        Ok (u, PrefetchAbort pc (PermissionLL (te_lookupLevel te)) (isStage2 u) LpaeTran))
                      else Ok (u, DataAbort vaddr_tainted (te_domain te)
                             (if is_atomic \<and> \<not> grant_read then False else is_write)
                             (PermissionLL (te_lookupLevel te)) (isStage2 u) LpaeTran)
                 else Ok (u, NoFault)))))))"

definition decodeAddrOffset :: "addr \<Rightarrow> 8 word" where
  "decodeAddrOffset offset = ucast (bits_raw offset 15 8)"

definition finalizePhysical :: "arm_tlb \<Rightarrow> request \<Rightarrow> tlb_mode \<Rightarrow> request res" where
  "finalizePhysical u req mode =
     bind_res (getPaddr req) (\<lambda>paddr.
       if range_contains (t_m5opRange u) paddr
       then Ok (setLocalAccessor (decodeAddrOffset (paddr - ar_start (t_m5opRange u)), mode) req)
       else Ok req)"

text \<open>
  Translation with the MMU off; the check of an attached test interface is the argument \<open>test\<close>.
\<close>

definition mmu_off_entry :: "thread_ctx \<Rightarrow> arm_tlb \<Rightarrow> bool \<Rightarrow> tran_type \<Rightarrow> bool \<Rightarrow> tlb_entry" where
  "mmu_off_entry tc u is_fetch ty long_desc_format =
     (let te = TlbEntry\<lparr>te_ns := \<not> t_isSecure u\<rparr>;
          dc = (if HaveVirtHostExt tc \<and> hcr_e2h (t_hcr u) \<and> hcr_tge (t_hcr u) then False else hcr_dc (t_hcr u));
          i_cacheability = (sctlr_i (t_sctlr u) \<and> \<not> sctlr_m (t_sctlr u));
          te = (if isStage2 u \<or> \<not> dc \<or> t_isSecure u \<or> isHyp u \<and> ty AND S1CTran = 0
                then te\<lparr>te_mtype := (if is_fetch then Normal else StronglyOrdered),
                        te_innerAttrs := (if i_cacheability then 2 else 0),
                        te_outerAttrs := (if i_cacheability then 2 else 0),
                        te_shareable := True, te_outerShareable := True\<rparr>
                else te\<lparr>te_mtype := Normal, te_innerAttrs := 3, te_outerAttrs := 3,
                        te_shareable := False, te_outerShareable := False\<rparr>)
      in setAttributes long_desc_format te)"

definition translateMmuOff ::
    "(request \<Rightarrow> tlb_mode \<Rightarrow> domain_type \<Rightarrow> fault) \<Rightarrow> thread_ctx \<Rightarrow> arm_tlb \<Rightarrow> request \<Rightarrow> tlb_mode
       \<Rightarrow> tran_type \<Rightarrow> addr \<Rightarrow> bool \<Rightarrow> (arm_tlb \<times> request \<times> fault) res" where
  "translateMmuOff test tc u req mode ty vaddr long_desc_format =
     (let is_fetch = (mode = Execute);
          is_atomic = isAtomic req;
          req = setPaddr vaddr req
      in bind_res (if t_isSecure u then setFlags SECURE req else Ok req) (\<lambda>req.
         bind_res
           (and_then (aarch64 u)
             (bind_res (currEL tc) (\<lambda>el.
              bind_res (computeAddrTop tc (bit vaddr 55) is_fetch (readMiscReg tc MISCREG_TCR_EL1) el) (\<lambda>topbit.
              bind_res (bits vaddr topbit 48) (\<lambda>addr_sz. Ok (addr_sz \<noteq> 0)))))) (\<lambda>too_big.
           if too_big
           then Ok (u, req,
             if is_fetch then PrefetchAbort vaddr AddressSizeLL (isStage2 u) LpaeTran
             else DataAbort vaddr NoAccess (if is_atomic then False else mode = Write) AddressSizeLL (isStage2 u) LpaeTran)
           else bind_res
             (if long_desc_format \<or> \<not> sctlr_tre (t_sctlr u) \<or> nmrr_ir0 (t_nmrr u) = 0 \<or> nmrr_or0 (t_nmrr u) = 0 \<or>
                 prrr_tr0 (t_prrr u) \<noteq> 2
              then bind_res (if \<not> isCacheMaintenance req then setFlags UNCACHEABLE req else Ok req) (setFlags STRICT_ORDER)
              else Ok req) (\<lambda>req.
               let te = mmu_off_entry tc u is_fetch ty long_desc_format
               in Ok (u\<lparr>tlb_attr := te_attributes te\<rparr>, req, test req mode NoAccess)))))"

text \<open>
  The translation of a request by the page table of the running process. The request comes back
  with its physical address, and with a local accessor if that address is in the pseudo-op range.
\<close>

definition translateSe ::
    "thread_ctx \<Rightarrow> page_table \<Rightarrow> arm_tlb \<Rightarrow> request \<Rightarrow> tlb_mode \<Rightarrow> (arm_tlb \<times> request \<times> fault) res" where
  "translateSe tc pt u req mode =
     bind_res (updateMiscReg tc NormalTran u) (\<lambda>u.
     bind_res (getVaddr req) (\<lambda>vaddr_tainted.
     bind_res (if aarch64 u then purifyTaggedAddr vaddr_tainted tc (aarch64EL u) (t_ttbcr u) (mode = Execute)
               else Ok vaddr_tainted) (\<lambda>vaddr.
     bind_res (getFlags req) (\<lambda>flags.
       if mode \<noteq> Execute \<and> (sctlr_a (t_sctlr u) \<or> \<not> isSet flags AllowUnaligned) \<and> misaligned vaddr flags
       then Ok (u, req, DataAbort vaddr_tainted NoAccess (mode = Write) AlignmentFault (isStage2 u) VmsaTran)
       else case pt_translate pt vaddr of
              None \<Rightarrow> Ok (u, req, GenericPageTableFault vaddr_tainted)
            | Some paddr \<Rightarrow>
                bind_res (finalizePhysical u (setPaddr paddr req) mode) (\<lambda>req. Ok (u, req, NoFault))))))"

text \<open>
  The architecture describes the permission bits of AArch64 by two bits: bit 1 of \<open>AP\<close> makes the
  page read-only, bit 0 opens it to EL0; \<open>xn\<close> forbids execution at EL0, \<open>pxn\<close> at EL1, pages that
  EL0 can write are never executed at EL1, and \<open>wxn\<close> forbids execution of writable pages.
\<close>

definition may_read :: "exception_level \<Rightarrow> 8 word \<Rightarrow> bool" where
  "may_read el ap \<longleftrightarrow> (el = EL0 \<longrightarrow> bit ap 0)"

definition may_write :: "exception_level \<Rightarrow> 8 word \<Rightarrow> bool" where
  "may_write el ap \<longleftrightarrow> \<not> bit ap 1 \<and> (el = EL0 \<longrightarrow> bit ap 0)"

definition may_exec :: "exception_level \<Rightarrow> 8 word \<Rightarrow> bool \<Rightarrow> bool \<Rightarrow> bool \<Rightarrow> bool" where
  "may_exec el ap xn pxn wxn \<longleftrightarrow>
     (if el = EL1 then \<not> pxn \<and> \<not> may_write EL0 ap else \<not> xn) \<and> \<not> (wxn \<and> may_write el ap)"

definition may_access :: "exception_level \<Rightarrow> tlb_mode \<Rightarrow> 8 word \<Rightarrow> bool \<Rightarrow> bool \<Rightarrow> bool \<Rightarrow> bool" where
  "may_access el mode ap xn pxn wxn =
     (case mode of Read \<Rightarrow> may_read el ap | Write \<Rightarrow> may_write el ap | Execute \<Rightarrow> may_exec el ap xn pxn wxn)"

definition eff_xn :: "thread_ctx \<Rightarrow> arm_tlb \<Rightarrow> tlb_entry \<Rightarrow> bool" where
  "eff_xn tc u te \<longleftrightarrow> (if haveEL tc EL3 \<and> t_isSecure u \<and> te_ns te \<and> scr_sif (t_scr u) then True else te_xn te)"

definition pan_blocks :: "thread_ctx \<Rightarrow> arm_tlb \<Rightarrow> tlb_entry \<Rightarrow> request \<Rightarrow> tlb_mode \<Rightarrow> bool" where
  "pan_blocks tc u te req mode \<longleftrightarrow>
     (aarch64EL u = EL1 \<or> aarch64EL u = EL2 \<and> hcr_e2h (t_hcr u)) \<and>
     mmfr1_pan (readMiscReg tc MISCREG_ID_AA64MMFR1_EL1) \<noteq> 0 \<and> cpsr_pan (t_cpsr u) \<and>
     (3 AND te_ap te) AND 1 \<noteq> 0 \<and> mode \<noteq> Execute \<and>
     (\<not> isCacheMaintenance req \<or> isSet (rq_flags req) CACHE_BLOCK_ZERO)"

definition se_vaddr :: "thread_ctx \<Rightarrow> arm_tlb \<Rightarrow> request \<Rightarrow> tlb_mode \<Rightarrow> addr res" where
  "se_vaddr tc u req mode =
     (if aarch64 u then purifyTaggedAddr (rq_vaddr req) tc (aarch64EL u) (t_ttbcr u) (mode = Execute)
      else Ok (rq_vaddr req))"

definition req_nvm :: request where
  "req_nvm = Request_virt 0 0x30000010 4 0 1 0 0 None"

definition te_user :: tlb_entry where
  "te_user = te_nvm\<lparr>te_ap := 1, te_mtype := Normal\<rparr>"

section \<open>Permission check of AArch32\<close>

section \<open>Permission check of AArch64\<close>

section \<open>Translation without page tables\<close>

section \<open>Translation in system-call emulation\<close>

section \<open>The permission tables\<close>

lemma ap_cases:
  obtains "3 AND a = (0 :: 8 word)" | "3 AND a = (1 :: 8 word)" | "3 AND a = (2 :: 8 word)" | "3 AND a = (3 :: 8 word)"
proof -
  have "3 AND a \<le> 3" by (rule word_and_le2)
  then have "unat (3 AND a) < 4" by (simp add: word_le_nat_alt)
  then have "unat (3 AND a) \<in> {unat (0 :: 8 word), unat (1 :: 8 word), unat (2 :: 8 word), unat (3 :: 8 word)}"
    by auto
  then show thesis using that by (simp only: insert_iff empty_iff word_unat_eq_iff [symmetric]) blast
qed

lemma grants_spec:
  assumes "ap = 3 AND a" "r = (mode = Read)" "w = (mode = Write)" "x = (mode = Execute)"
  shows "grant_EL0 ap xn pxn wxn r w x = may_access EL0 mode ap xn pxn wxn"
    and "grant_EL1 ap xn pxn wxn r w x = may_access EL1 mode ap xn pxn wxn"
    and "grant_EL23 ap xn wxn r w x = may_access EL2 mode ap xn pxn wxn"
    and "grant_EL23 ap xn wxn r w x = may_access EL3 mode ap xn pxn wxn"
  unfolding assms
  by (rule ap_cases [of a]; cases mode; cases xn; cases pxn;
      simp add: grant_EL0_def grant_EL1_def grant_EL23_def perm_bits_def may_access_def may_read_def may_write_def
        may_exec_def)+

section \<open>The check of a first-stage access\<close>

lemma getFlags_vaddr: "hasVaddr req \<Longrightarrow> getFlags req = Ok (rq_flags req)"
proof -
  have "isSet p (VALID_PADDR OR VALID_VADDR)" if "isSet p VALID_VADDR" for p
    using that by (auto simp: isSet_def bit_eq_iff bit_and_iff bit_or_iff)
  then show "hasVaddr req \<Longrightarrow> getFlags req = Ok (rq_flags req)" by (simp add: getFlags_def hasVaddr_def)
qed

lemma getVaddr_Ok: "hasVaddr req \<Longrightarrow> getVaddr req = Ok (rq_vaddr req)"
  by (simp add: getVaddr_def hasVaddr_def)

lemma getPC_Ok: "hasPC req \<Longrightarrow> getPC req = Ok (rq_pc req)"
  by (simp add: getPC_def hasPC_def)

lemma checkPAN_Ok:
  assumes "hasVaddr req"
  shows "checkPAN tc u (3 AND te_ap te) req mode =
    Ok (mmfr1_pan (readMiscReg tc MISCREG_ID_AA64MMFR1_EL1) \<noteq> 0 \<and> cpsr_pan (t_cpsr u) \<and>
      (3 AND te_ap te) AND 1 \<noteq> 0 \<and> mode \<noteq> Execute \<and>
      (\<not> isCacheMaintenance req \<or> isSet (rq_flags req) CACHE_BLOCK_ZERO))"
  by (auto simp: checkPAN_def and_then_def or_else_def getFlags_vaddr [OF assms] Let_def)

lemma grant_stage1_spec:
  assumes "hasVaddr req" "r = (mode = Read)" "w = (mode = Write)" "x = (mode = Execute)"
  shows "\<exists>g. grant_stage1 tc u req mode (3 AND te_ap te) xn pxn wxn r w x =
    Ok (\<not> pan_blocks tc u te req mode \<and> may_access (aarch64EL u) mode (3 AND te_ap te) xn pxn wxn, g)"
proof -
  let ?e2h = "hcr_e2h (t_hcr u)"
  obtain p where p: "checkPAN tc u (3 AND te_ap te) req mode = Ok p"
    and b: "pan_blocks tc u te req mode \<longleftrightarrow> (aarch64EL u = EL1 \<or> aarch64EL u = EL2 \<and> ?e2h) \<and> p"
    using checkPAN_Ok [OF assms(1), of tc u te mode] unfolding pan_blocks_def by blast
  note g = grants_spec [OF refl assms(2-4), where a = "te_ap te" and xn = xn and pxn = pxn and wxn = wxn]
  show ?thesis
  proof (cases "aarch64EL u")
    case EL0
    then show ?thesis by (auto simp: grant_stage1_def b g(1))
  next
    case EL1
    then show ?thesis by (cases p) (auto simp: grant_stage1_def b p g(2))
  next
    case EL2
    then show ?thesis by (cases p; cases ?e2h) (auto simp: grant_stage1_def b p g(3) and_then_def)
  next
    case EL3
    then show ?thesis by (auto simp: grant_stage1_def b g(4))
  qed
qed

lemma perm64_stage1:
  assumes "aarch64 u" "\<not> isStage2 u" "\<not> isCacheClean req" "hasVaddr req" "hasPC req"
    and "haveEL tc (aarch64EL u)" "updateMiscReg tc (curTranType u) u = Ok u"
    and "te_mtype te = Normal" "\<not> (te_nonCacheable te \<and> isPrefetch req)"
  shows "\<exists>f. checkPermissions64 u te req mode tc = Ok (u, f) \<and>
    (f = NoFault \<longleftrightarrow> \<not> pan_blocks tc u te req mode \<and>
      may_access (aarch64EL u) mode (3 AND te_ap te) (eff_xn tc u te) (te_pxn te) (sctlr_wxn (t_sctlr u)))"
proof -
  obtain v where v: "purifyTaggedAddr (rq_vaddr req) tc (aarch64EL u) (t_ttbcr u) (mode = Execute) = Ok v"
    using purify_total [OF assms(6)] by (rule returnsE)
  have modes: "(\<not> (mode = Write) \<and> \<not> (mode = Execute)) = (mode = Read)" by (cases mode) auto
  obtain g where "grant_stage1 tc u req mode (3 AND te_ap te) (eff_xn tc u te) (te_pxn te) (sctlr_wxn (t_sctlr u))
      (\<not> (mode = Write) \<and> \<not> (mode = Execute)) (mode = Write) (mode = Execute) =
    Ok (\<not> pan_blocks tc u te req mode \<and>
      may_access (aarch64EL u) mode (3 AND te_ap te) (eff_xn tc u te) (te_pxn te) (sctlr_wxn (t_sctlr u)), g)"
    using grant_stage1_spec [OF assms(4) modes refl refl] by blast
  then show ?thesis
    using assms v
    by (auto simp: checkPermissions64_def getVaddr_Ok getFlags_vaddr getPC_Ok Let_def eff_xn_def split: if_splits)
qed

section \<open>The cached registers\<close>

lemma regime_regs64_keeps:
  "tab (regime_regs64 tc u) = tab u \<and> isStage2 (regime_regs64 tc u) = isStage2 u \<and>
   t_haveVirtualization (regime_regs64 tc u) = t_haveVirtualization u \<and>
   t_isSecure (regime_regs64 tc u) = t_isSecure u"
  by (cases "aarch64EL u") (simp_all add: regime_regs64_def Let_def)

lemma virt_regs64_keeps:
  "virt_regs64 tc ty u = Ok u' \<Longrightarrow> tab u' = tab u \<and> isStage2 u' = isStage2 u"
  by (auto simp: virt_regs64_def Let_def res_simps split: if_splits)

lemma virt_regs32_keeps:
  "virt_regs32 tc ty u = Ok u' \<Longrightarrow> tab u' = tab u \<and> isStage2 u' = isStage2 u"
  by (auto simp: virt_regs32_def Let_def res_simps split: if_splits)

lemma regs32_keeps: "tab (regs32 tc u) = tab u \<and> isStage2 (regs32 tc u) = isStage2 u"
  by (simp add: regs32_def Let_def)

lemma updateMiscReg_steps:
  assumes "updateMiscReg tc ty u = Ok u'"
    and "\<not> (miscRegValid u \<and> miscRegContext u = contextId tc \<and> (ty = curTranType u \<or> isStage2 u))"
  obtains u0 u1 where "tab u0 = tab u" "isStage2 u0 = isStage2 u"
    "virt_regs64 tc ty (regime_regs64 tc u0) = Ok u1 \<or> virt_regs32 tc ty (regs32 tc u0) = Ok u1"
    "u' = u1\<lparr>miscRegValid := True, miscRegContext := contextId tc, curTranType := ty\<rparr>"
proof -
  from assms(1) obtain secure el b64 u1 where
    "(if b64
      then virt_regs64 tc ty (regime_regs64 tc (u\<lparr>t_cpsr := readMiscReg tc MISCREG_CPSR, t_isSecure := secure \<and> ty AND HypMode = 0 \<and> ty AND S1S2NsTran = 0,
        aarch64EL := el, aarch64 := b64, t_hcr := readMiscReg tc MISCREG_HCR_EL2\<rparr>))
      else virt_regs32 tc ty (regs32 tc (u\<lparr>t_cpsr := readMiscReg tc MISCREG_CPSR, t_isSecure := secure \<and> ty AND HypMode = 0 \<and> ty AND S1S2NsTran = 0,
        aarch64EL := el, aarch64 := b64, t_hcr := readMiscReg tc MISCREG_HCR_EL2\<rparr>))) = Ok u1"
    "u' = u1\<lparr>miscRegValid := True, miscRegContext := contextId tc, curTranType := ty\<rparr>"
    unfolding updateMiscReg_def Let_def if_not_P [OF assms(2)] bind_res_eq_Ok sum.inject by blast
  then show thesis
    by (intro that [of "u\<lparr>t_cpsr := readMiscReg tc MISCREG_CPSR, t_isSecure := secure \<and> ty AND HypMode = 0 \<and> ty AND S1S2NsTran = 0,
        aarch64EL := el, aarch64 := b64, t_hcr := readMiscReg tc MISCREG_HCR_EL2\<rparr>" u1]) (auto split: if_splits)
qed

lemma updateMiscReg_keeps:
  assumes "updateMiscReg tc ty u = Ok u'"
  shows "tab u' = tab u \<and> isStage2 u' = isStage2 u"
proof (cases "miscRegValid u \<and> miscRegContext u = contextId tc \<and> (ty = curTranType u \<or> isStage2 u)")
  case True
  then show ?thesis using assms by (simp add: updateMiscReg_def)
next
  case False
  obtain u0 u1 where u: "tab u0 = tab u" "isStage2 u0 = isStage2 u"
    "virt_regs64 tc ty (regime_regs64 tc u0) = Ok u1 \<or> virt_regs32 tc ty (regs32 tc u0) = Ok u1"
    "u' = u1\<lparr>miscRegValid := True, miscRegContext := contextId tc, curTranType := ty\<rparr>"
    using updateMiscReg_steps [OF assms False] by blast
  from u(3) have "tab u1 = tab u0 \<and> isStage2 u1 = isStage2 u0"
  proof
    assume "virt_regs64 tc ty (regime_regs64 tc u0) = Ok u1"
    from virt_regs64_keeps [OF this] regime_regs64_keeps [of tc u0] show ?thesis by simp
  next
    assume "virt_regs32 tc ty (regs32 tc u0) = Ok u1"
    from virt_regs32_keeps [OF this] regs32_keeps [of tc u0] show ?thesis by simp
  qed
  then show ?thesis using u by simp
qed

lemma updateMiscReg_current:
  assumes "updateMiscReg tc ty u = Ok u'"
  shows "miscRegValid u' \<and> miscRegContext u' = contextId tc \<and> (ty = curTranType u' \<or> isStage2 u')"
proof (cases "miscRegValid u \<and> miscRegContext u = contextId tc \<and> (ty = curTranType u \<or> isStage2 u)")
  case True
  then show ?thesis using assms by (simp add: updateMiscReg_def)
next
  case False
  obtain u1 where "u' = u1\<lparr>miscRegValid := True, miscRegContext := contextId tc, curTranType := ty\<rparr>"
    using updateMiscReg_steps [OF assms False] by blast
  then show ?thesis by simp
qed

lemma updateMiscReg_again: "updateMiscReg tc ty u = Ok u' \<Longrightarrow> updateMiscReg tc ty u' = Ok u'"
  using updateMiscReg_current [of tc ty u u'] by (simp add: updateMiscReg_def)

section \<open>Emulated translation\<close>

lemma setPaddr_valid: "hasPaddr (setPaddr p req)" "getPaddr (setPaddr p req) = Ok p"
  by (simp_all add: hasPaddr_def getPaddr_def setPaddr_def isSet_flags_set)
    (simp_all add: isSet_def VALID_PADDR_def)

lemma finalizePhysical_Ok:
  "\<exists>req'. finalizePhysical u (setPaddr p req) mode = Ok req' \<and> rq_paddr req' = p \<and> hasPaddr req' \<and>
     rq_flags req' = rq_flags req"
  using setPaddr_valid [of p req]
  by (auto simp: finalizePhysical_def setLocalAccessor_def hasPaddr_def setPaddr_def)

lemma aligned_not_misaligned: "fs AND AlignmentMask = 0 \<Longrightarrow> \<not> misaligned v fs"
  by (simp add: misaligned_def mask_n_def)

lemma stage2_atomic_grant:
  assumes "is_atomic" "\<not> is_fetch" "r = (\<not> is_write \<and> \<not> is_fetch)" "w = is_write"
  shows "fst (grant_stage2 hap wxn xn is_fetch is_atomic is_write r w) = False"
  using assms by (auto simp: grant_stage2_def Let_def)

lemma stage2_atomic_fault:
  assumes "isStage2 u" "isAtomic req" "mode \<noteq> Execute" "checkPermissions64 u te req mode tc = Ok (u', f)"
  shows "f \<noteq> NoFault"
proof -
  obtain v w where u': "updateMiscReg tc (curTranType u) u = Ok w" "isStage2 w"
    using assms(1,4) updateMiscReg_keeps [of tc "curTranType u" u]
    by (auto simp: checkPermissions64_def res_simps)
  show ?thesis
    using assms(1-4) u'
    by (auto simp: checkPermissions64_def res_simps Let_def grant_stage2_def split: if_splits)
qed

section \<open>Sample states\<close>

lemma req_nvm_facts:
  "hasVaddr req_nvm" "hasPC req_nvm" "\<not> isCacheClean req_nvm" "\<not> isCacheMaintenance req_nvm" "\<not> isPrefetch req_nvm"
  "rq_vaddr req_nvm = 0x30000010" "rq_flags req_nvm = 0"
  by (simp_all add: req_nvm_def hasVaddr_def hasPC_def isCacheClean_def isCacheMaintenance_def isPrefetch_def
      Request_virt_def setContext_def setVirt_def isSet_def flags_set_def flags_clear_def private_flag_defs
      Request_empty_def)

lemma tlb_se_current: "updateMiscReg tc_se (curTranType tlb_se) tlb_se = Ok tlb_se"
  by (simp add: updateMiscReg_def tlb_se_def tc_se_def)

lemma se_vaddr_total: "haveEL tc (aarch64EL u) \<Longrightarrow> returns (se_vaddr tc u req mode)"
  unfolding se_vaddr_def by (intro returns_intros purify_total) simp_all

section \<open>Properties\<close>



text \<open>
  C39. In the second-stage check, the branch for atomic accesses grants an
  access that is both a read and a write, where the two flags exclude each other: no atomic data access
  ever passes, whatever the permission bits of the entry.
\<close>

theorem stage2_atomics_always_fault:
  assumes "isStage2 u" "isAtomic req" "mode \<noteq> Execute" "checkPermissions64 u te req mode tc = Ok (u', f)"
  shows "f \<noteq> NoFault"
  by (rule stage2_atomic_fault [OF assms])

theorem stage2_atomics_always_fault_witness:
  "\<exists>u' f. checkPermissions64 (tlb_se\<lparr>isStage2 := True\<rparr>) te_user (req_nvm\<lparr>rq_flags := ATOMIC_RETURN_OP\<rparr>) Write
      (tc_se\<lparr>FullSystem := True, sys_haveVirtualization := True\<rparr>) = Ok (u', f) \<and> f \<noteq> NoFault"
proof -
  let ?tc = "tc_se\<lparr>FullSystem := True, sys_haveVirtualization := True\<rparr>" and ?u = "tlb_se\<lparr>isStage2 := True\<rparr>"
  let ?r = "req_nvm\<lparr>rq_flags := ATOMIC_RETURN_OP\<rparr>"
  have r: "hasVaddr ?r" "hasPC ?r" "isAtomic ?r" "\<not> isCacheClean ?r"
    using req_nvm_facts(1,2)
    by (simp_all add: hasVaddr_def hasPC_def isAtomic_def isCacheClean_def isSet_def ATOMIC_RETURN_OP_def CLEAN_def)
  obtain v where v: "purifyTaggedAddr (rq_vaddr ?r) ?tc (aarch64EL ?u) (t_ttbcr ?u) (Write = Execute) = Ok v"
    by (rule returnsE [OF purify_total [of ?tc "aarch64EL ?u"]]) (simp_all add: tlb_se_def)
  have upd: "updateMiscReg ?tc (curTranType ?u) ?u = Ok ?u" by (simp add: updateMiscReg_def tlb_se_def tc_se_def)
  have "\<exists>u' f. checkPermissions64 ?u te_user ?r Write ?tc = Ok (u', f)"
    using v upd r
    by (simp add: checkPermissions64_def getVaddr_Ok getFlags_vaddr te_user_def te_nvm_def TlbEntry_def Let_def
        haveVirtualization_def grant_stage2_def tlb_se_def)
  then show ?thesis using stage2_atomics_always_fault [of ?u ?r Write te_user ?tc] r(3) by auto
qed

text \<open>
  With \<open>SCR.SIF\<close> set, secure software must not execute from non-secure
  memory. The AArch64 check enforces this by setting \<open>xn\<close>, which the EL1 table ignores: secure EL1 executes a
  non-secure page, where the AArch32 check of the same page faults.
\<close>

theorem secure_fetch_not_blocked_at_EL1:
  "\<exists>u tc te. t_isSecure u \<and> te_ns te \<and> scr_sif (t_scr u) \<and> haveEL tc EL3 \<and> aarch64EL u = EL1 \<and>
     checkPermissions64 u te req_nvm Execute tc = Ok (u, NoFault) \<and>
     checkPermissions (u\<lparr>aarch64 := False\<rparr>) te req_nvm Execute = Ok (PrefetchAbort 0 (PermissionLL L1) False VmsaTran)"
proof -
  let ?tc = "tc_se\<lparr>FullSystem := True, sys_haveSecurity := True\<rparr>"
  let ?u = "tlb_se\<lparr>aarch64EL := EL1, t_isSecure := True, t_scr := 0x200, t_dacr := 4, isPriv := True\<rparr>"
  let ?te = "te_nvm\<lparr>te_ap := 2, te_mtype := Normal\<rparr>"
  have pc: "rq_pc req_nvm = 0" by (simp add: req_nvm_def Request_virt_def setContext_def setVirt_def)
  have s: "t_isSecure ?u" "te_ns ?te" "scr_sif (t_scr ?u)" "haveEL ?tc EL3" "aarch64EL ?u = EL1"
    by (simp_all add: te_nvm_def TlbEntry_def scr_sif_def haveSecurity_def)
  have upd: "updateMiscReg ?tc (curTranType ?u) ?u = Ok ?u" by (simp add: updateMiscReg_def tlb_se_def tc_se_def)
  have may: "may_access EL1 Execute (3 AND te_ap ?te) (eff_xn ?tc ?u ?te) (te_pxn ?te) (sctlr_wxn (t_sctlr ?u))"
    "\<not> pan_blocks ?tc ?u ?te req_nvm Execute"
    by (simp_all add: may_access_def may_exec_def may_write_def te_nvm_def TlbEntry_def tlb_se_def sctlr_wxn_def pan_blocks_def)
  have p64: "checkPermissions64 ?u ?te req_nvm Execute ?tc = Ok (?u, NoFault)"
    using perm64_stage1 [of ?u req_nvm ?tc ?te Execute] may upd req_nvm_facts(1-5) by (auto simp: tlb_se_def)
  have p32: "checkPermissions (?u\<lparr>aarch64 := False\<rparr>) ?te req_nvm Execute = Ok (PrefetchAbort 0 (PermissionLL L1) False VmsaTran)"
    using req_nvm_facts pc
    by (simp add: checkPermissions_def getVaddr_Ok getFlags_vaddr getPC_Ok tlb_se_def te_nvm_def TlbEntry_def
        Client_def dacr_field_def perm_check32_def ap32_def sctlr_afe_def ap_switch_def sctlr_wxn_def sctlr_uwxn_def
        scr_sif_def Let_def)
  from s p64 p32 show ?thesis by blast
qed



text \<open>
  Refreshing the cached registers never touches the entries of the TLB, and
  refreshing them again without a change of context or translation type changes nothing.
\<close>

theorem register_cache_stable:
  assumes "updateMiscReg tc ty u = Ok u'"
  shows "updateMiscReg tc ty u' = Ok u' \<and> tab u' = tab u \<and> isStage2 u' = isStage2 u"
  using updateMiscReg_again [OF assms] updateMiscReg_keeps [OF assms] by simp

theorem register_cache_stable_witness:
  "\<exists>u'. updateMiscReg tc_se HypMode (tlb_se\<lparr>miscRegValid := False\<rparr>) = Ok u' \<and>
     updateMiscReg tc_se HypMode u' = Ok u' \<and> tab u' = tab tlb_se"
proof -
  have "\<not> isl (updateMiscReg tc_se HypMode (tlb_se\<lparr>miscRegValid := False\<rparr>))" by code_simp
  then obtain u' where "updateMiscReg tc_se HypMode (tlb_se\<lparr>miscRegValid := False\<rparr>) = Ok u'"
    by (cases "updateMiscReg tc_se HypMode (tlb_se\<lparr>miscRegValid := False\<rparr>)") auto
  from this register_cache_stable [OF this] show ?thesis by auto
qed

end
