(* ===== verification/Chunk_Gen.thy ===== *)
theory Chunk_Gen
  imports IntMath
begin

text \<open>
  \<open>ChunkGenerator\<close>, \<open>src/base/chunk_generator.hh\<close>: it cuts a region of memory into pieces that do
  not cross a block boundary. The lemmas show that the loop over a generator visits every byte of
  the region once and in order, and that each piece stays inside one block, also when the region
  ends at the top of the address space. \<open>PortProxy\<close>, \<open>src/mem/port_proxy.cc\<close>, uses it to split
  accesses to physical memory into packets, and the lemmas show that the split accesses have the
  effect of one access.
\<close>

unbundle bit_operations_syntax

section \<open>The generator\<close>

record chunk_gen =
  curAddr :: addr
  nextAddr :: addr
  curSize :: "32 word"
  sizeLeft :: "32 word"
  startAddr :: addr
  chunkSize :: "32 word"

definition ChunkGenerator :: "addr \<Rightarrow> 32 word \<Rightarrow> 32 word \<Rightarrow> chunk_gen res" where
  "ChunkGenerator start totalSize csize =
     assert_that (csize = 0 \<or> isPowerOf2 (ucast csize))
       (bind_res
         (if csize = 0 then Ok (start + ucast totalSize)
          else bind_res (roundUp start (ucast csize)) (\<lambda>next.
            Ok (if start = next then next + ucast csize else next)))
         (\<lambda>next.
           let left_in_chunk = ucast (next - start);
               cur = min totalSize left_in_chunk
           in Ok \<lparr>curAddr = start, nextAddr = next, curSize = cur, sizeLeft = totalSize - cur,
                  startAddr = start, chunkSize = csize\<rparr>))"

definition gen_complete :: "chunk_gen \<Rightarrow> 32 word" where
  "gen_complete g = ucast (curAddr g - startAddr g)"

definition gen_done :: "chunk_gen \<Rightarrow> bool" where
  "gen_done g \<longleftrightarrow> curSize g = 0"

definition gen_last :: "chunk_gen \<Rightarrow> bool" where
  "gen_last g \<longleftrightarrow> sizeLeft g = 0"

definition gen_next :: "chunk_gen \<Rightarrow> chunk_gen \<times> bool" where
  "gen_next g =
     (if sizeLeft g = 0 then (g\<lparr>curSize := 0\<rparr>, False)
      else let cur = min (sizeLeft g) (chunkSize g)
           in (g\<lparr>curAddr := nextAddr g, curSize := cur, sizeLeft := sizeLeft g - cur,
                 nextAddr := nextAddr g + ucast cur\<rparr>, True))"

text \<open>The loop \<open>for (ChunkGenerator gen(...); !gen.done(); gen.next())\<close> of its users.\<close>

definition gen_measure :: "chunk_gen \<Rightarrow> nat" where
  "gen_measure g = unat (sizeLeft g) + (if gen_done g then 0 else 1)"

lemma gen_next_measure:
  assumes "\<not> gen_done g"
  shows "gen_measure (fst (gen_next g)) < gen_measure g"
proof (cases "sizeLeft g = 0")
  case True
  then show ?thesis using assms by (simp add: gen_measure_def gen_next_def gen_done_def)
next
  case False
  define cur where "cur = min (sizeLeft g) (chunkSize g)"
  have le: "cur \<le> sizeLeft g" by (simp add: cur_def)
  then have "unat (sizeLeft g - cur) = unat (sizeLeft g) - unat cur" by (rule unat_sub)
  moreover have "unat cur \<le> unat (sizeLeft g)" using le by (simp add: word_le_nat_alt)
  moreover have "cur = 0 \<or> 0 < unat cur" by (auto simp: unat_gt_0)
  moreover have "0 < unat (sizeLeft g)" using False by (simp add: unat_gt_0)
  ultimately show ?thesis
    using False assms by (auto simp: gen_measure_def gen_next_def gen_done_def Let_def cur_def [symmetric])
qed

function chunk_loop :: "chunk_gen \<Rightarrow> (addr \<Rightarrow> nat \<Rightarrow> 's \<Rightarrow> 's res) \<Rightarrow> 's \<Rightarrow> 's res" where
  "chunk_loop g body s =
     (if gen_done g then Ok s
      else bind_res (body (curAddr g) (unat (curSize g)) s) (\<lambda>s. chunk_loop (fst (gen_next g)) body s))"
  by pat_completeness auto

termination chunk_loop
  by (relation "measure (\<lambda>(g, _). gen_measure g)")
    (simp_all only: wf_measure in_measure prod.case gen_next_measure not_False_eq_True)

declare chunk_loop.simps [simp del]

definition for_chunks ::
    "addr \<Rightarrow> 32 word \<Rightarrow> 32 word \<Rightarrow> (addr \<Rightarrow> nat \<Rightarrow> 's \<Rightarrow> 's res) \<Rightarrow> 's \<Rightarrow> 's res" where
  "for_chunks a sz csize body s = bind_res (ChunkGenerator a sz csize) (\<lambda>g. chunk_loop g body s)"

section \<open>Split accesses to physical memory\<close>

text \<open>
  A functional packet reads or writes its bytes in the flat physical memory; \<open>p\<close> is the part of the
  caller's buffer that the loop has not reached yet. Sizes are C++ \<open>int\<close>s, converted to
  \<open>unsigned\<close> by the generator.
\<close>

type_synonym phys_mem = "addr \<Rightarrow> 8 word"

definition mem_write :: "phys_mem \<Rightarrow> addr \<Rightarrow> 8 word list \<Rightarrow> phys_mem" where
  "mem_write m a bs = (\<lambda>x. if unat (x - a) < length bs then bs ! unat (x - a) else m x)"

definition mem_read :: "phys_mem \<Rightarrow> addr \<Rightarrow> nat \<Rightarrow> 8 word list" where
  "mem_read m a n = map (\<lambda>i. m (a + of_nat i)) [0..<n]"

definition writeBlobPhys :: "32 word \<Rightarrow> phys_mem \<Rightarrow> addr \<Rightarrow> 8 word list \<Rightarrow> phys_mem res" where
  "writeBlobPhys cacheLineSize m a bs =
     bind_res
       (for_chunks a (of_nat (length bs)) cacheLineSize
         (\<lambda>ga gs (m, p). Ok (mem_write m ga (take gs p), drop gs p)) (m, bs))
       (\<lambda>(m, p). Ok m)"

definition readBlobPhys :: "32 word \<Rightarrow> phys_mem \<Rightarrow> addr \<Rightarrow> nat \<Rightarrow> 8 word list res" where
  "readBlobPhys cacheLineSize m a n =
     for_chunks a (of_nat n) cacheLineSize (\<lambda>ga gs p. Ok (p @ mem_read m ga gs)) []"

definition memsetBlobPhys :: "32 word \<Rightarrow> phys_mem \<Rightarrow> addr \<Rightarrow> 8 word \<Rightarrow> nat \<Rightarrow> phys_mem res" where
  "memsetBlobPhys cacheLineSize m a v n = writeBlobPhys cacheLineSize m a (replicate n v)"

definition byte_addrs :: "addr \<Rightarrow> nat \<Rightarrow> addr list" where
  "byte_addrs a n = map (\<lambda>i. a + of_nat i) [0..<n]"

fun fold_res :: "(addr \<Rightarrow> nat \<Rightarrow> 's \<Rightarrow> 's res) \<Rightarrow> (addr \<times> nat) list \<Rightarrow> 's \<Rightarrow> 's res" where
  "fold_res body [] s = Ok s"
| "fold_res body ((a, n) # cs) s = bind_res (body a n s) (fold_res body cs)"

text \<open>
  While bytes are left, the next piece starts where the current one ends, at a block boundary.
\<close>

definition gen_inv :: "nat \<Rightarrow> chunk_gen \<Rightarrow> bool" where
  "gen_inv k g \<longleftrightarrow> k < 32 \<and> chunkSize g = 2 ^ k \<and>
     (sizeLeft g \<noteq> 0 \<longrightarrow> nextAddr g = curAddr g + ucast (curSize g) \<and> take_bit k (nextAddr g) = 0) \<and>
     (gen_done g \<longrightarrow> sizeLeft g = 0) \<and>
     unat (take_bit k (curAddr g)) + unat (curSize g) \<le> 2 ^ k \<and>
     unat (curSize g) + unat (sizeLeft g) < 2 ^ 32"

fun consec :: "addr \<Rightarrow> (addr \<times> nat) list \<Rightarrow> bool" where
  "consec a [] \<longleftrightarrow> True"
| "consec a ((b, n) # cs) \<longleftrightarrow> b = a \<and> consec (a + of_nat n) cs"

section \<open>What the loop visits\<close>

text \<open>The pieces of a generator as a list, and the addresses of the bytes of a region.\<close>

function chunks :: "chunk_gen \<Rightarrow> (addr \<times> nat) list" where
  "chunks g = (if gen_done g then [] else (curAddr g, unat (curSize g)) # chunks (fst (gen_next g)))"
  by pat_completeness auto

termination chunks
  by (relation "measure gen_measure") (simp_all only: wf_measure in_measure gen_next_measure not_False_eq_True)

declare chunks.simps [simp del]

lemma chunk_loop_fold: "chunk_loop g body s = fold_res body (chunks g) s"
proof (induction g body s rule: chunk_loop.induct)
  case (1 g body s)
  show ?case
  proof (cases "gen_done g")
    case True
    then show ?thesis by (simp add: chunk_loop.simps chunks.simps)
  next
    case False
    have "fold_res body (chunks g) s =
        bind_res (body (curAddr g) (unat (curSize g)) s) (fold_res body (chunks (fst (gen_next g))))"
      using False by (simp add: chunks.simps [of g])
    moreover have "chunk_loop g body s =
        bind_res (body (curAddr g) (unat (curSize g)) s) (\<lambda>s. chunk_loop (fst (gen_next g)) body s)"
      using False by (simp add: chunk_loop.simps [of g])
    ultimately show ?thesis using 1 [OF False] by (cases "body (curAddr g) (unat (curSize g)) s") auto
  qed
qed

lemma byte_addrs_append: "byte_addrs a m @ byte_addrs (a + of_nat m) n = byte_addrs a (m + n)"
  by (induction n) (simp_all add: byte_addrs_def algebra_simps)

lemma byte_addrs_0 [simp]: "byte_addrs a 0 = []"
  by (simp add: byte_addrs_def)

lemma length_byte_addrs [simp]: "length (byte_addrs a n) = n"
  by (simp add: byte_addrs_def)

lemma gen_next_left:
  assumes "sizeLeft g \<noteq> 0"
  shows "fst (gen_next g) = g\<lparr>curAddr := nextAddr g, curSize := min (sizeLeft g) (chunkSize g),
    sizeLeft := sizeLeft g - min (sizeLeft g) (chunkSize g),
    nextAddr := nextAddr g + ucast (min (sizeLeft g) (chunkSize g))\<rparr>"
  using assms by (simp add: gen_next_def Let_def)

lemma gen_next_inv:
  assumes inv: "gen_inv k g"
  shows "gen_inv k (fst (gen_next g))"
proof (cases "sizeLeft g = 0")
  case True
  then show ?thesis using inv unsigned_less [of "take_bit k (curAddr g)"]
    by (auto simp: gen_inv_def gen_next_def gen_done_def)
next
  case False
  define cur where "cur = min (sizeLeft g) (chunkSize g)"
  have k: "k < 32" and cs: "unat (chunkSize g) = 2 ^ k" and al: "take_bit k (nextAddr g) = 0"
    and bd: "unat (sizeLeft g) < 2 ^ 32"
    using inv False unat_exp_lower [of k, where 'a = 32] by (auto simp: gen_inv_def)
  have le: "unat cur \<le> unat (sizeLeft g)" "unat cur \<le> 2 ^ k"
    using cs by (auto simp: cur_def min_def word_le_nat_alt)
  have sub: "unat (sizeLeft g - cur) = unat (sizeLeft g) - unat cur"
    by (rule unat_sub) (simp add: cur_def)
  have pos: "cur \<noteq> 0" using False cs by (auto simp: cur_def min_def)
  have full: "cur = 2 ^ k" if "sizeLeft g - cur \<noteq> 0"
    using that inv by (auto simp: cur_def min_def gen_inv_def split: if_split_asm)
  have "take_bit k (nextAddr g + ucast cur) = 0" if "sizeLeft g - cur \<noteq> 0"
  proof -
    have "(ucast cur :: addr) = 2 ^ k"
      unfolding full [OF that] using k by (intro bit_word_eqI) (auto simp: bit_ucast_iff bit_exp_iff)
    moreover have "take_bit k ((2 :: addr) ^ k) = 0" using unat_take_bit [of k "2 ^ k"] k
      by (simp add: unat_exp_lower) (simp add: unat_eq_zero)
    ultimately show ?thesis using take_bit_page_add [OF al, of "2 ^ k"] k by simp
  qed
  then show ?thesis
    unfolding gen_next_left [OF False] cur_def [symmetric]
    using k al pos le sub bd inv by (auto simp: gen_inv_def gen_done_def)
qed

lemma chunks_consec:
  assumes "gen_inv k g"
  shows "consec (curAddr g) (chunks g) \<and>
    sum_list (map snd (chunks g)) = unat (curSize g) + unat (sizeLeft g)"
  using assms
proof (induction g rule: chunks.induct)
  case (1 g)
  show ?case
  proof (cases "gen_done g")
    case True
    then show ?thesis using "1.prems" by (simp add: chunks.simps gen_inv_def gen_done_def)
  next
    case False
    note IH = "1.IH" [OF False gen_next_inv [OF "1.prems"]]
    show ?thesis
    proof (cases "sizeLeft g = 0")
      case True
      then have "chunks (fst (gen_next g)) = []" by (simp add: chunks.simps gen_next_def gen_done_def)
      then show ?thesis using True False by (simp add: chunks.simps [of g])
    next
      case left: False
      define cur where "cur = min (sizeLeft g) (chunkSize g)"
      have sub: "unat (sizeLeft g - cur) = unat (sizeLeft g) - unat cur"
        by (rule unat_sub) (simp add: cur_def)
      have le: "unat cur \<le> unat (sizeLeft g)" by (simp add: cur_def word_le_nat_alt [symmetric])
      have nxt: "nextAddr g = curAddr g + of_nat (unat (curSize g))"
        using left "1.prems" by (simp add: gen_inv_def)
      show ?thesis
        using IH False sub le unfolding gen_next_left [OF left] cur_def [symmetric]
        by (simp add: chunks.simps [of g] gen_next_left [OF left] cur_def [symmetric] nxt)
    qed
  qed
qed

lemma consec_cover:
  "consec a cs \<Longrightarrow> concat (map (\<lambda>(a, n). byte_addrs a n) cs) = byte_addrs a (sum_list (map snd cs))"
  by (induction a cs rule: consec.induct) (auto simp: byte_addrs_append)

lemma chunks_in_block:
  assumes "gen_inv k g" "(a, n) \<in> set (chunks g)"
  shows "0 < n \<and> unat (take_bit k a) + n \<le> 2 ^ k"
  using assms
proof (induction g rule: chunks.induct)
  case (1 g)
  then have nd: "\<not> gen_done g" by (auto simp: chunks.simps)
  then consider "a = curAddr g" "n = unat (curSize g)" | "(a, n) \<in> set (chunks (fst (gen_next g)))"
    using "1.prems"(2) by (auto simp: chunks.simps [of g])
  then show ?case
  proof cases
    case 1
    then show ?thesis using "1.prems"(1) nd by (simp add: gen_inv_def gen_done_def unat_gt_0)
  next
    case 2
    then show ?thesis using "1.IH" [OF nd gen_next_inv [OF "1.prems"(1)]] by blast
  qed
qed

section \<open>The first piece\<close>

lemma round_up_block:
  assumes k: "k < 64"
  shows "(a + mask k) AND NOT (mask k) =
    (if take_bit k a = 0 then a else a - take_bit k a + (2 :: addr) ^ k)"
proof (cases "take_bit k a = 0")
  case True
  then have "take_bit k (a + mask k) = mask k" using take_bit_page_add [OF True k, of "mask k"] by simp
  then show ?thesis using True by (simp add: and_not_mask_minus)
next
  case False
  define b t where "b = a - take_bit k a" and "t = take_bit k a"
  have t: "unat t < 2 ^ k" "t \<noteq> 0" using False unat_take_bit [of k a] by (simp_all add: t_def)
  have "take_bit k b = 0" unfolding b_def by (rule take_bit_aligned)
  then have al: "take_bit k (b + 2 ^ k) = 0"
    using take_bit_page_add [of k b "2 ^ k"] take_bit_exp_0 [OF k] k by simp
  have "unat (t - 1) = unat t - 1" using t(2) by (rule unat_minus_one)
  then have "take_bit k (t - 1) = t - 1"
    using t unat_take_bit [of k "t - 1"] by (intro unat_eqI) simp
  moreover have sum: "a + mask k = (b + 2 ^ k) + (t - 1)"
    by (simp add: b_def t_def exp_minus_1_mask [symmetric])
  ultimately have "take_bit k (a + mask k) = t - 1" using take_bit_page_add [OF al k] by simp
  then show ?thesis using False unfolding and_not_mask_minus
    by (simp only: if_False) (simp add: sum b_def)
qed

lemma ChunkGenerator_ok:
  assumes k: "k < 32"
  obtains g where "ChunkGenerator a sz (2 ^ k) = Ok g" "gen_inv k g" "curAddr g = a"
    "unat (curSize g) + unat (sizeLeft g) = unat sz"
proof -
  have uc: "(ucast ((2 :: 32 word) ^ k) :: addr) = 2 ^ k"
    using k by (intro bit_word_eqI) (auto simp: bit_ucast_iff bit_exp_iff)
  define t where "t = take_bit k a"
  define nxt where "nxt = a - t + 2 ^ k"
  have ut: "unat t < 2 ^ k" unfolding t_def unat_take_bit by simp
  have p: "(2 :: nat) ^ k \<le> 2 ^ 31" using k by (intro power_increasing) simp_all
  have uk: "unat ((2 :: addr) ^ k) = 2 ^ k" using k by (intro unat_exp_lower) simp
  have tk: "t \<le> 2 ^ k" using ut uk by (simp add: word_le_nat_alt)
  have d: "unat (nxt - a) = 2 ^ k - unat t"
  proof -
    have "nxt - a = 2 ^ k - t" by (simp add: nxt_def)
    then show ?thesis using unat_sub [OF tk] uk by simp
  qed
  have anz: "a \<noteq> nxt" using d ut by auto
  have ru: "roundUp a (2 ^ k) = Ok (if t = 0 then a else nxt)"
    using round_up_block [of k a] k isPowerOf2_exp [of k]
    by (simp add: roundUp_def exp_minus_1_mask t_def nxt_def)
  have nxt: "bind_res (roundUp a (ucast ((2 :: 32 word) ^ k)))
      (\<lambda>next. Ok (if a = next then next + ucast ((2 :: 32 word) ^ k) else next)) = Ok nxt"
    using anz by (auto simp: uc ru nxt_def)
  define left where "left = (ucast (nxt - a) :: 32 word)"
  have ul: "unat left = 2 ^ k - unat t"
    using d p ut by (simp add: left_def unsigned_ucast_eq take_bit_nat_eq_self)
  define cur where "cur = min sz left"
  define g where "g = \<lparr>curAddr = a, nextAddr = nxt, curSize = cur, sizeLeft = sz - cur, startAddr = a, chunkSize = 2 ^ k\<rparr>"
  have csz: "(2 :: 32 word) ^ k \<noteq> 0" using k by simp
  have "ChunkGenerator a sz (2 ^ k) = Ok g"
    using csz nxt isPowerOf2_exp [of k] k
    by (simp add: ChunkGenerator_def uc Let_def g_def cur_def left_def)
  moreover have le: "cur \<le> sz" by (simp add: cur_def)
  then have sub: "unat (sz - cur) = unat sz - unat cur" by (rule unat_sub)
  have le': "unat cur \<le> unat sz" using le by (simp add: word_le_nat_alt)
  have "unat (curSize g) + unat (sizeLeft g) = unat sz" using sub le' by (simp add: g_def)
  moreover have "gen_inv k g"
  proof -
    have cl: "cur = left" if "sz - cur \<noteq> 0" using that by (auto simp: cur_def min_def)
    have "nxt = a + ucast cur" if "sz - cur \<noteq> 0"
    proof -
      have "(ucast left :: addr) = nxt - a"
        using ul d p unsigned_less [of left] by (intro unat_eqI) (simp add: unsigned_ucast_eq take_bit_nat_eq_self)
      then show ?thesis using cl [OF that] by simp
    qed
    moreover have "take_bit k nxt = 0"
      using take_bit_page_add [OF take_bit_aligned, of k a "2 ^ k"] k take_bit_exp_0 [of k] by (simp add: nxt_def t_def)
    moreover have "sz - cur = 0" if "cur = 0" using that ul ut by (auto simp: cur_def min_def split: if_split_asm)
    moreover have "unat cur \<le> 2 ^ k - unat t" using ul by (simp add: cur_def min_def word_le_nat_alt)
    then have "unat t + unat cur \<le> 2 ^ k" using ut by linarith
    moreover have "unat cur + unat (sz - cur) < 2 ^ 32" using sub le' unsigned_less [of sz] by simp
    ultimately show ?thesis using k by (auto simp: gen_inv_def g_def gen_done_def t_def [symmetric])
  qed
  moreover have "curAddr g = a" by (simp add: g_def)
  ultimately show thesis by (intro that)
qed

lemma for_chunks_consec:
  assumes "k < 32" "n < 2 ^ 32"
  obtains cs where "for_chunks a (of_nat n) (2 ^ k) = (\<lambda>body. fold_res body cs)"
    "consec a cs" "sum_list (map snd cs) = n"
    "\<And>b m. (b, m) \<in> set cs \<Longrightarrow> 0 < m \<and> unat (take_bit k b) + m \<le> 2 ^ k"
proof -
  obtain g where g: "ChunkGenerator a (of_nat n) (2 ^ k) = Ok g" "gen_inv k g" "curAddr g = a"
    "unat (curSize g) + unat (sizeLeft g) = unat (of_nat n :: 32 word)"
    by (rule ChunkGenerator_ok [OF assms(1)])
  have n: "unat (of_nat n :: 32 word) = n" using assms(2) by (intro unat_of_nat_small) simp
  show thesis
  proof (rule that)
    show "for_chunks a (of_nat n) (2 ^ k) = (\<lambda>body. fold_res body (chunks g))"
      by (simp add: for_chunks_def g(1) chunk_loop_fold fun_eq_iff)
    show "consec a (chunks g)" "sum_list (map snd (chunks g)) = n"
      using chunks_consec [OF g(2)] g(3,4) n by auto
    show "0 < m \<and> unat (take_bit k b) + m \<le> 2 ^ k" if "(b, m) \<in> set (chunks g)" for b m
      by (rule chunks_in_block [OF g(2) that])
  qed
qed

section \<open>Split accesses are one access\<close>

lemma mem_write_append:
  assumes "length xs + length ys \<le> 2 ^ 64"
  shows "mem_write (mem_write m a xs) (a + of_nat (length xs)) ys = mem_write m a (xs @ ys)"
proof
  fix x
  define d where "d = x - a"
  have dx: "x - (a + of_nat (length xs)) = d - of_nat (length xs)" by (simp add: d_def)
  show "mem_write (mem_write m a xs) (a + of_nat (length xs)) ys x = mem_write m a (xs @ ys) x"
  proof (cases "length xs \<le> unat d")
    case True
    have u: "unat (of_nat (length xs) :: addr) = length xs"
      using True unsigned_less [of d] by (intro unat_of_nat_small) (rule le_less_trans)
    then have "(of_nat (length xs) :: addr) \<le> d" using True by (simp add: word_le_nat_alt)
    then have s: "unat (d - of_nat (length xs)) = unat d - length xs" using u unat_sub by metis
    show ?thesis using True unfolding mem_write_def dx s d_def [symmetric] by (auto simp: nth_append)
  next
    case False
    show ?thesis
    proof (cases "ys = []")
      case True
      then show ?thesis by (simp add: mem_write_def)
    next
      case ne: False
      then have "length xs < 2 ^ 64" using assms by (cases ys) auto
      then have u: "unat (of_nat (length xs) :: addr) = length xs" by (intro unat_of_nat_small) simp
      have "unat (d - of_nat (length xs)) = unat d + 2 ^ 64 - length xs"
        using False u by (simp add: unat_sub_if')
      then have s: "\<not> unat (d - of_nat (length xs)) < length ys" using assms by linarith
      show ?thesis using False s unfolding mem_write_def dx d_def [symmetric] by (simp add: nth_append)
    qed
  qed
qed

lemma fold_write:
  assumes "consec a cs" "sum_list (map snd cs) = length p" "length bs + length p \<le> 2 ^ 64" "a = b + of_nat (length bs)"
  shows "fold_res (\<lambda>ga gs (m, p). Ok (mem_write m ga (take gs p), drop gs p)) cs (mem_write m b bs, p) =
    Ok (mem_write m b (bs @ p), [])"
  using assms
proof (induction cs arbitrary: a bs p)
  case (Cons c cs)
  obtain n where c: "c = (a, n)" using Cons.prems(1) by (cases c) auto
  have n: "n \<le> length p" using Cons.prems(2) c by simp
  have w: "mem_write (mem_write m b bs) a (take n p) = mem_write m b (bs @ take n p)"
    unfolding Cons.prems(4) using Cons.prems(3) by (intro mem_write_append) simp
  have "fold_res (\<lambda>ga gs (m, p). Ok (mem_write m ga (take gs p), drop gs p)) cs
      (mem_write m b (bs @ take n p), drop n p) = Ok (mem_write m b ((bs @ take n p) @ drop n p), [])"
    by (rule Cons.IH [of "a + of_nat n"]) (use Cons.prems n c in auto)
  then show ?case unfolding c by (simp add: w)
qed simp

lemma writeBlobPhys_eq:
  assumes "k < 32" "length bs < 2 ^ 32"
  shows "writeBlobPhys (2 ^ k) m a bs = Ok (mem_write m a bs)"
proof -
  obtain cs where cs: "for_chunks a (of_nat (length bs)) (2 ^ k) =
      (\<lambda>body. fold_res body cs :: phys_mem \<times> 8 word list \<Rightarrow> (phys_mem \<times> 8 word list) res)"
    "consec a cs" "sum_list (map snd cs) = length bs"
    by (rule for_chunks_consec [OF assms]) blast
  have "m = mem_write m a []" by (simp add: mem_write_def)
  then show ?thesis
    using fold_write [OF cs(2,3), of "[]" a m] assms(2) by (simp add: writeBlobPhys_def cs(1))
qed

lemma mem_read_addrs: "mem_read m a n = map m (byte_addrs a n)"
  by (simp add: mem_read_def byte_addrs_def)

lemma fold_read:
  "fold_res (\<lambda>ga gs p. Ok (p @ mem_read m ga gs)) cs p =
     Ok (p @ map m (concat (map (\<lambda>(a, n). byte_addrs a n) cs)))"
  by (induction cs arbitrary: p) (auto simp: mem_read_addrs)

lemma readBlobPhys_eq:
  assumes "k < 32" "n < 2 ^ 32"
  shows "readBlobPhys (2 ^ k) m a n = Ok (mem_read m a n)"
proof -
  obtain cs where cs: "for_chunks a (of_nat n) (2 ^ k) =
      (\<lambda>body. fold_res body cs :: 8 word list \<Rightarrow> 8 word list res)"
    "consec a cs" "sum_list (map snd cs) = n"
    by (rule for_chunks_consec [OF assms]) blast
  show ?thesis
    unfolding readBlobPhys_def cs(1) fold_read consec_cover [OF cs(2)] cs(3) by (simp add: mem_read_addrs)
qed

lemma read_after_write:
  assumes "length bs \<le> 2 ^ 64"
  shows "mem_read (mem_write m a bs) a (length bs) = bs"
proof (rule nth_equalityI)
  fix i assume "i < length (mem_read (mem_write m a bs) a (length bs))"
  then have i: "i < length bs" by (simp add: mem_read_def)
  have "unat (of_nat i :: addr) = i" using i assms by (intro unat_of_nat_small) simp
  then show "mem_read (mem_write m a bs) a (length bs) ! i = bs ! i"
    using i by (simp add: mem_read_def mem_write_def)
qed (simp add: mem_read_def)

section \<open>Properties\<close>

text \<open>
  C32. Cutting a region of fewer than \<open>2^32\<close> bytes at the boundaries of
  blocks of \<open>2^k\<close> bytes always succeeds and ends: the loop runs its body on a list of pieces that, put
  side by side, are the bytes of the region in ascending order, each exactly once (also where the
  region wraps at the top of the address space), and no piece is empty or crosses a block boundary.
\<close>

theorem chunks_cover_region:
  assumes "k < 32" "n < 2 ^ 32"
  shows "\<exists>cs. (\<forall>body (s :: 's). for_chunks a (of_nat n) (2 ^ k) body s = fold_res body cs s) \<and>
    concat (map (\<lambda>(b, m). byte_addrs b m) cs) = byte_addrs a n \<and>
    list_all (\<lambda>(b, m). 0 < m \<and> unat (take_bit k b) + m \<le> 2 ^ k) cs"
proof -
  obtain cs where cs: "for_chunks a (of_nat n) (2 ^ k) = (\<lambda>body. fold_res body cs :: 's \<Rightarrow> 's res)"
    "consec a cs" "sum_list (map snd cs) = n"
    "\<And>b m. (b, m) \<in> set cs \<Longrightarrow> 0 < m \<and> unat (take_bit k b) + m \<le> 2 ^ k"
    by (rule for_chunks_consec [OF assms]) blast
  show ?thesis
    using consec_cover [OF cs(2)] cs(3,4) by (intro exI [of _ cs]) (auto simp: cs(1) list_all_iff)
qed

theorem chunks_cover_region_witness:
  "\<exists>cs. (\<forall>body (s :: nat). for_chunks 0xfffffffffffffffa (of_nat 10) (2 ^ 2) body s = fold_res body cs s) \<and>
    concat (map (\<lambda>(b, m). byte_addrs b m) cs) = byte_addrs 0xfffffffffffffffa 10 \<and>
    list_all (\<lambda>(b, m). 0 < m \<and> unat (take_bit 2 b) + m \<le> 2 ^ 2) cs"
  by (rule chunks_cover_region) simp_all

text \<open>
  C33. Splitting an access to physical memory into one packet per cache
  line does not change its effect: with a power-of-two line size, \<open>writeBlobPhys\<close> leaves exactly the memory one
  write of the whole buffer leaves, \<open>memsetBlobPhys\<close> that of a buffer of equal bytes, and
  \<open>readBlobPhys\<close> fills the buffer with the bytes of the region; reading back what was written returns it.
\<close>

theorem blob_access_exact:
  assumes "k < 32" "length bs < 2 ^ 32" "n < 2 ^ 32"
  shows "writeBlobPhys (2 ^ k) m a bs = Ok (mem_write m a bs) \<and>
    memsetBlobPhys (2 ^ k) m a v n = Ok (mem_write m a (replicate n v)) \<and>
    readBlobPhys (2 ^ k) m a n = Ok (mem_read m a n) \<and>
    bind_res (writeBlobPhys (2 ^ k) m a bs) (\<lambda>m. readBlobPhys (2 ^ k) m a (length bs)) = Ok bs"
  using assms read_after_write [of bs m a]
  by (simp_all add: writeBlobPhys_eq memsetBlobPhys_def readBlobPhys_eq)

theorem blob_access_exact_witness:
  "bind_res (writeBlobPhys (2 ^ 6) (\<lambda>_. 0) 0x103e [1, 2, 3, 4]) (\<lambda>m. readBlobPhys (2 ^ 6) m 0x103e (length [1, 2, 3, 4 :: 8 word]))
     = Ok [1, 2, 3, 4] \<and>
   readBlobPhys (2 ^ 6) (\<lambda>_. 0) 0x103e (Suc (Suc 0)) = Ok [0, 0]"
proof -
  note w = blob_access_exact [of 6 "[1, 2, 3, 4]" "Suc (Suc 0)" "\<lambda>_. 0" "0x103e" 0]
  have "readBlobPhys (2 ^ 6) (\<lambda>_. 0) 0x103e (Suc (Suc 0)) = Ok [0, 0]"
    using w by (simp add: mem_read_def)
  moreover have "length [1, 2, 3, 4 :: 8 word] < 2 ^ 32" "(6 :: nat) < 32" "Suc (Suc 0) < 2 ^ 32" by simp_all
  ultimately show ?thesis using w by blast
qed

end
