(* ===== verification/Process.thy ===== *)
theory Process
  imports Mem_Ops Arm_MMU Chunk_Gen Sys_Alloc
begin

text \<open>
  Processes in system-call emulation: \<open>src/sim/process.cc\<close>, page faults of \<open>src/sim/mem_state.cc\<close>, and the proxies
  through which the simulator reads and writes the memory of a process
  (\<open>src/mem/translating_port_proxy.cc\<close>, \<open>src/mem/se_translating_port_proxy.cc\<close>).

  The state is an explicit store. Processes, page tables and memory states are objects with addresses, since several
  processes can share them; following a pointer to an object that is gone is undefined behaviour.
\<close>

unbundle bit_operations_syntax

section \<open>The store\<close>

record process =
  p_pTable :: nat
  p_memState :: nat
  p_contextIds :: "nat list"

record se =
  se_sys :: sys_alloc
  se_mem :: phys_mem
  se_threads :: "thread list"
  se_procs :: "nat \<rightharpoonup> process"
  se_pts :: "nat \<rightharpoonup> page_table"
  se_mss :: "nat \<rightharpoonup> mem_state"

text \<open>What does not change: the size of memory, the range of the simulator operations, the cache line, the time.\<close>

record sys_params =
  sp_memSize :: addr
  sp_m5op :: addr_range
  sp_cacheLine :: "32 word"
  sp_now :: tick

definition deref :: "'a option \<Rightarrow> 'a res" where
  "deref x = (case x of None \<Rightarrow> Err Undefined | Some y \<Rightarrow> Ok y)"

definition thread_at :: "nat \<Rightarrow> se \<Rightarrow> thread res" where
  "thread_at cid s = (if cid < length (se_threads s) then Ok (se_threads s ! cid) else Err Undefined)"

definition pt_of :: "nat \<Rightarrow> se \<Rightarrow> page_table res" where
  "pt_of p s = bind_res (deref (se_procs s p)) (\<lambda>pr. deref (se_pts s (p_pTable pr)))"

section \<open>Physical pages for a process\<close>

definition assignThreadContext :: "nat \<Rightarrow> process \<Rightarrow> process" where
  "assignThreadContext cid pr = pr\<lparr>p_contextIds := p_contextIds pr @ [cid]\<rparr>"

definition revokeThreadContext :: "nat \<Rightarrow> process \<Rightarrow> process" where
  "revokeThreadContext cid pr = pr\<lparr>p_contextIds := remove1 cid (p_contextIds pr)\<rparr>"

definition alloc_frames :: "sys_params \<Rightarrow> addr \<Rightarrow> int \<Rightarrow> sys_alloc \<Rightarrow> (sys_alloc \<times> addr) res" where
  "alloc_frames P vaddr np sys =
     (if in_nvm vaddr then Ok (allocNVMPhysPages sys np)
      else allocPhysPages (sp_memSize P) (sp_m5op P) sys np)"

definition allocateMem :: "sys_params \<Rightarrow> nat \<Rightarrow> addr \<Rightarrow> int \<Rightarrow> bool \<Rightarrow> se \<Rightarrow> se res" where
  "allocateMem P p vaddr sz clobber s =
     bind_res (deref (se_procs s p)) (\<lambda>pr.
     bind_res (alloc_frames P vaddr (signed_take_bit 31 (divCeil sz (sint PageBytes))) (se_sys s)) (\<lambda>(sys, paddr).
     bind_res (deref (se_pts s (p_pTable pr))) (\<lambda>pt.
     bind_res (pt_map pt vaddr paddr sz (if clobber then Clobber else 0)) (\<lambda>pt.
       Ok (s\<lparr>se_sys := sys, se_pts := (se_pts s)(p_pTable pr \<mapsto> pt)\<rparr>)))))"

definition process_map :: "nat \<Rightarrow> addr \<Rightarrow> addr \<Rightarrow> int \<Rightarrow> bool \<Rightarrow> se \<Rightarrow> se res" where
  "process_map p vaddr paddr sz cacheable s =
     bind_res (deref (se_procs s p)) (\<lambda>pr.
     bind_res (deref (se_pts s (p_pTable pr))) (\<lambda>pt.
     bind_res (pt_map pt vaddr paddr sz (if cacheable then 0 else Uncacheable)) (\<lambda>pt.
       Ok (s\<lparr>se_pts := (se_pts s)(p_pTable pr \<mapsto> pt)\<rparr>))))"

section \<open>Translation for a proxy\<close>

text \<open>
  Functional translation of a TLB outside of full-system mode. The page table is that of the process of the thread.
\<close>

fun translateFunctional :: "thread_ctx \<Rightarrow> page_table \<Rightarrow> tlb \<Rightarrow> request \<Rightarrow> tlb_mode \<Rightarrow> (tlb \<times> request \<times> fault) res" where
  "translateFunctional tc pt (Tlb u s2) req mode =
     bind_res (updateMiscReg tc NormalTran u) (\<lambda>u.
       if directToStage2 u then
         case s2 of
           None \<Rightarrow> Err Assert_Failed
         | Some t2 \<Rightarrow> bind_res (translateFunctional tc pt t2 req mode) (\<lambda>(t2, req, f). Ok (Tlb u (Some t2), req, f))
       else bind_res (translateSe tc pt u req mode) (\<lambda>(u, req, f). Ok (Tlb u s2, req, f)))"

text \<open>
  The second attempt of \<open>tryTLBsOnce\<close> was meant for the instruction TLB; the code asks the data TLB again.
\<close>

definition tryTLBsOnce :: "nat \<Rightarrow> request \<Rightarrow> tlb_mode \<Rightarrow> se \<Rightarrow> (se \<times> request \<times> bool) res" where
  "tryTLBsOnce cid req mode s =
     bind_res (thread_at cid s) (\<lambda>th.
     bind_res (pt_of (th_process th) s) (\<lambda>pt.
     bind_res (translateFunctional (th_tc th) pt (th_dtb th) req mode) (\<lambda>(dtb, req, f).
       if f = NoFault then Ok (s\<lparr>se_threads := (se_threads s)[cid := th\<lparr>th_dtb := dtb\<rparr>]\<rparr>, req, True)
       else bind_res (translateFunctional (th_tc th) pt dtb req Read) (\<lambda>(dtb, req, f).
         Ok (s\<lparr>se_threads := (se_threads s)[cid := th\<lparr>th_dtb := dtb\<rparr>]\<rparr>, req, f = NoFault)))))"

text \<open>
  What a proxy does about an address that does not translate is the argument \<open>fixup\<close>.
\<close>

type_synonym fixup = "nat \<Rightarrow> addr \<Rightarrow> tlb_mode \<Rightarrow> se \<Rightarrow> (se \<times> bool) run"

definition tryTLBs :: "fixup \<Rightarrow> nat \<Rightarrow> request \<Rightarrow> tlb_mode \<Rightarrow> se \<Rightarrow> (se \<times> request \<times> bool) run" where
  "tryTLBs fixup cid req mode s =
     bind_run (Some (tryTLBsOnce cid req mode s)) (\<lambda>(s, req, ok).
       if ok then Done (s, req, True)
       else bind_run (Some (getVaddr req)) (\<lambda>va.
            bind_run (fixup cid va mode s) (\<lambda>(s, fixed).
              if fixed then Some (tryTLBsOnce cid req mode s) else Done (s, req, False))))"

section \<open>Blobs in virtual memory\<close>

text \<open>The loop over the pages of a blob returns \<open>False\<close> at the first page that does not translate.\<close>

fun try_pieces :: "(addr \<Rightarrow> nat \<Rightarrow> 's \<Rightarrow> ('s \<times> bool) run) \<Rightarrow> (addr \<times> nat) list \<Rightarrow> 's \<Rightarrow> ('s \<times> bool) run" where
  "try_pieces body [] s = Done (s, True)"
| "try_pieces body ((a, n) # cs) s =
     bind_run (body a n s) (\<lambda>(s, ok). if ok then try_pieces body cs s else Done (s, False))"

definition try_chunks ::
    "addr \<Rightarrow> nat \<Rightarrow> (addr \<Rightarrow> nat \<Rightarrow> 's \<Rightarrow> ('s \<times> bool) run) \<Rightarrow> 's \<Rightarrow> ('s \<times> bool) run" where
  "try_chunks a n body s =
     bind_run (Some (ChunkGenerator a (of_nat n) (ucast PageBytes))) (\<lambda>g. try_pieces body (chunks g) s)"

definition funcRequestorId :: "16 word" where "funcRequestorId = 1"

definition proxy_req :: "sys_params \<Rightarrow> nat \<Rightarrow> addr \<Rightarrow> nat \<Rightarrow> se \<Rightarrow> request res" where
  "proxy_req P cid a n s =
     bind_res (thread_at cid s) (\<lambda>th.
       Ok (Request_virt (sp_now P) a (of_nat n) 0 funcRequestorId 0 (contextId (th_tc th)) None))"

definition read_piece ::
    "sys_params \<Rightarrow> fixup \<Rightarrow> nat \<Rightarrow> addr \<Rightarrow> nat \<Rightarrow> se \<times> 8 word list \<Rightarrow> ((se \<times> 8 word list) \<times> bool) run" where
  "read_piece P fixup cid ga gs = (\<lambda>(s, p).
     bind_run (Some (proxy_req P cid ga gs s)) (\<lambda>req.
     bind_run (tryTLBs fixup cid req Read s) (\<lambda>(s, req, ok).
       if \<not> ok then Done ((s, p), False)
       else bind_run (Some (getPaddr req)) (\<lambda>paddr.
            bind_run (Some (readBlobPhys (sp_cacheLine P) (se_mem s) paddr gs)) (\<lambda>bs.
              Done ((s, p @ bs), True))))))"

definition tryReadBlob :: "sys_params \<Rightarrow> fixup \<Rightarrow> nat \<Rightarrow> addr \<Rightarrow> nat \<Rightarrow> se \<Rightarrow> ((se \<times> 8 word list) \<times> bool) run" where
  "tryReadBlob P fixup cid a n s = try_chunks a n (read_piece P fixup cid) (s, [])"

definition write_piece ::
    "sys_params \<Rightarrow> fixup \<Rightarrow> nat \<Rightarrow> addr \<Rightarrow> nat \<Rightarrow> se \<times> 8 word list \<Rightarrow> ((se \<times> 8 word list) \<times> bool) run" where
  "write_piece P fixup cid ga gs = (\<lambda>(s, p).
     bind_run (Some (proxy_req P cid ga gs s)) (\<lambda>req.
     bind_run (tryTLBs fixup cid req Write s) (\<lambda>(s, req, ok).
       if \<not> ok then Done ((s, p), False)
       else bind_run (Some (getPaddr req)) (\<lambda>paddr.
            bind_run (Some (writeBlobPhys (sp_cacheLine P) (se_mem s) paddr (take gs p))) (\<lambda>m.
              Done ((s\<lparr>se_mem := m\<rparr>, drop gs p), True))))))"

definition tryWriteBlob :: "sys_params \<Rightarrow> fixup \<Rightarrow> nat \<Rightarrow> addr \<Rightarrow> 8 word list \<Rightarrow> se \<Rightarrow> (se \<times> bool) run" where
  "tryWriteBlob P fixup cid a bs s =
     bind_run (try_chunks a (length bs) (write_piece P fixup cid) (s, bs)) (\<lambda>((s, _), ok). Done (s, ok))"

definition memset_piece :: "sys_params \<Rightarrow> fixup \<Rightarrow> nat \<Rightarrow> 8 word \<Rightarrow> addr \<Rightarrow> nat \<Rightarrow> se \<Rightarrow> (se \<times> bool) run" where
  "memset_piece P fixup cid v ga gs s =
     bind_run (Some (proxy_req P cid ga gs s)) (\<lambda>req.
     bind_run (tryTLBs fixup cid req Write s) (\<lambda>(s, req, ok).
       if \<not> ok then Done (s, False)
       else bind_run (Some (getPaddr req)) (\<lambda>paddr.
            bind_run (Some (memsetBlobPhys (sp_cacheLine P) (se_mem s) paddr v gs)) (\<lambda>m.
              Done (s\<lparr>se_mem := m\<rparr>, True)))))"

definition tryMemsetBlob :: "sys_params \<Rightarrow> fixup \<Rightarrow> nat \<Rightarrow> addr \<Rightarrow> 8 word \<Rightarrow> nat \<Rightarrow> se \<Rightarrow> (se \<times> bool) run" where
  "tryMemsetBlob P fixup cid a v n s = try_chunks a n (memset_piece P fixup cid v) s"

definition readBlob :: "sys_params \<Rightarrow> fixup \<Rightarrow> nat \<Rightarrow> addr \<Rightarrow> nat \<Rightarrow> se \<Rightarrow> (se \<times> 8 word list) run" where
  "readBlob P fixup cid a n s =
     bind_run (tryReadBlob P fixup cid a n s) (\<lambda>(r, ok). if ok then Done r else Some (Err Fatal))"

definition writeBlob :: "sys_params \<Rightarrow> fixup \<Rightarrow> nat \<Rightarrow> addr \<Rightarrow> 8 word list \<Rightarrow> se \<Rightarrow> se run" where
  "writeBlob P fixup cid a bs s =
     bind_run (tryWriteBlob P fixup cid a bs s) (\<lambda>(s, ok). if ok then Done s else Some (Err Fatal))"

definition memsetBlob :: "sys_params \<Rightarrow> fixup \<Rightarrow> nat \<Rightarrow> addr \<Rightarrow> 8 word \<Rightarrow> nat \<Rightarrow> se \<Rightarrow> se run" where
  "memsetBlob P fixup cid a v n s =
     bind_run (tryMemsetBlob P fixup cid a v n s) (\<lambda>(s, ok). if ok then Done s else Some (Err Fatal))"

text \<open>
  Strings: bytes up to and including the terminating zero. \<open>tryReadString\<close> ends only when it finds a zero or a page that does
  not translate.
\<close>

fun tryWriteString :: "sys_params \<Rightarrow> fixup \<Rightarrow> nat \<Rightarrow> addr \<Rightarrow> 8 word list \<Rightarrow> se \<Rightarrow> (se \<times> bool) run" where
  "tryWriteString P fixup cid a [] s = tryWriteBlob P fixup cid a [0] s"
| "tryWriteString P fixup cid a (c # cs) s =
     bind_run (tryWriteBlob P fixup cid a [c] s) (\<lambda>(s, ok).
       if \<not> ok then Done (s, False)
       else if c = 0 then Done (s, True)
       else tryWriteString P fixup cid (a + 1) cs s)"

partial_function (option) tryReadString ::
    "sys_params \<Rightarrow> fixup \<Rightarrow> nat \<Rightarrow> 8 word list \<Rightarrow> addr \<Rightarrow> se \<Rightarrow> ((se \<times> 8 word list) \<times> bool) run" where
  "tryReadString P fixup cid str a s =
     bind_run (tryReadBlob P fixup cid a 1 s) (\<lambda>((s, bs), ok).
       if \<not> ok then Done ((s, str), False)
       else if bs = [0] then Done ((s, str), True)
       else tryReadString P fixup cid (str @ bs) (a + 1) s)"

text \<open>The form with a bound: the last character that fits is replaced by the terminator.\<close>

fun read_chars ::
    "sys_params \<Rightarrow> fixup \<Rightarrow> nat \<Rightarrow> 8 word list \<Rightarrow> addr \<Rightarrow> nat \<Rightarrow> se \<Rightarrow> ((se \<times> 8 word list) \<times> bool) run" where
  "read_chars P fixup cid str a 0 s = Done ((s, butlast str @ [0]), True)"
| "read_chars P fixup cid str a (Suc maxlen) s =
     bind_run (tryReadBlob P fixup cid a 1 s) (\<lambda>((s, bs), ok).
       if \<not> ok then Done ((s, str), False)
       else if bs = [0] then Done ((s, str @ bs), True)
       else read_chars P fixup cid (str @ bs) (a + 1) maxlen s)"

definition tryReadStringMax :: "sys_params \<Rightarrow> fixup \<Rightarrow> nat \<Rightarrow> addr \<Rightarrow> nat \<Rightarrow> se \<Rightarrow> ((se \<times> 8 word list) \<times> bool) run" where
  "tryReadStringMax P fixup cid a maxlen s =
     (if maxlen = 0 then Some (Err Assert_Failed) else read_chars P fixup cid [] a maxlen s)"

definition writeString :: "sys_params \<Rightarrow> fixup \<Rightarrow> nat \<Rightarrow> addr \<Rightarrow> 8 word list \<Rightarrow> se \<Rightarrow> se run" where
  "writeString P fixup cid a str s =
     bind_run (tryWriteString P fixup cid a str s) (\<lambda>(s, ok). if ok then Done s else Some (Err Fatal))"

definition readString :: "sys_params \<Rightarrow> fixup \<Rightarrow> nat \<Rightarrow> addr \<Rightarrow> se \<Rightarrow> (se \<times> 8 word list) run" where
  "readString P fixup cid a s =
     bind_run (tryReadString P fixup cid [] a s) (\<lambda>(r, ok). if ok then Done r else Some (Err Fatal))"

definition readStringMax :: "sys_params \<Rightarrow> fixup \<Rightarrow> nat \<Rightarrow> addr \<Rightarrow> nat \<Rightarrow> se \<Rightarrow> (se \<times> 8 word list) run" where
  "readStringMax P fixup cid a maxlen s =
     bind_run (tryReadStringMax P fixup cid a maxlen s) (\<lambda>(r, ok). if ok then Done r else Some (Err Fatal))"

section \<open>Page faults\<close>

definition fixup_never :: fixup where
  "fixup_never cid a mode s = Done (s, False)"

definition fixup_always :: "sys_params \<Rightarrow> fixup" where
  "fixup_always P cid a mode s =
     (if mode = Write then
        bind_run (Some (thread_at cid s)) (\<lambda>th.
        bind_run (Some (roundDown a PageBytes)) (\<lambda>page.
        bind_run (Some (allocateMem P (th_process th) page (sint PageBytes) False s)) (\<lambda>s. Done (s, True))))
      else Done (s, False))"

text \<open>The pages of a file are written once for every thread of the process.\<close>

fun fill_threads :: "sys_params \<Rightarrow> vma \<Rightarrow> addr \<Rightarrow> nat list \<Rightarrow> se \<Rightarrow> se run" where
  "fill_threads P v page [] s = Done s"
| "fill_threads P v page (cid # cids) s =
     bind_run (fillMemPages (writeBlob P (fixup_always P) cid) page (v_pageBytes v) v s) (fill_threads P v page cids)"

partial_function (option) grow_stack :: "sys_params \<Rightarrow> nat \<Rightarrow> addr \<Rightarrow> se \<Rightarrow> se run" where
  "grow_stack P mid vaddr s =
     bind_run (Some (deref (se_mss s mid))) (\<lambda>ms.
       if vaddr < ms_stackMin ms then
         if ms_stackBase ms - (ms_stackMin ms - ms_pageBytes ms) > ms_maxStackSize ms then Some (Err Fatal)
         else
           bind_run (Some (allocateMem P (ms_ownerProcess ms) (ms_stackMin ms - ms_pageBytes ms) (sint (ms_pageBytes ms)) False
             (s\<lparr>se_mss := (se_mss s)(mid \<mapsto> ms\<lparr>ms_stackMin := ms_stackMin ms - ms_pageBytes ms\<rparr>)\<rparr>)))
             (\<lambda>s. grow_stack P mid vaddr s)
       else Done s)"

definition ms_fixupFault :: "sys_params \<Rightarrow> nat \<Rightarrow> addr \<Rightarrow> se \<Rightarrow> (se \<times> bool) run" where
  "ms_fixupFault P mid vaddr s =
     bind_run (Some (deref (se_mss s mid))) (\<lambda>ms.
       case find (\<lambda>v. v_contains v vaddr) (ms_vmaList ms) of
         Some v \<Rightarrow>
           bind_run (Some (roundDown vaddr (ms_pageBytes ms))) (\<lambda>vpage_start.
           bind_run (Some (allocateMem P (ms_ownerProcess ms) vpage_start (sint (ms_pageBytes ms)) False s)) (\<lambda>s.
             if hasHostBuf v then
               bind_run (Some (deref (se_procs s (ms_ownerProcess ms)))) (\<lambda>pr.
               bind_run (fill_threads P v vpage_start (p_contextIds pr) s) (\<lambda>s. Done (s, True)))
             else Done (s, True)))
       | None \<Rightarrow>
           if vaddr \<ge> ms_stackMin ms \<and> vaddr < ms_stackBase ms then
             bind_run (Some (roundDown vaddr (ms_pageBytes ms))) (\<lambda>page.
             bind_run (Some (allocateMem P (ms_ownerProcess ms) page (sint (ms_pageBytes ms)) False s)) (\<lambda>s. Done (s, True)))
           else if vaddr < ms_stackMin ms \<and> vaddr \<ge> ms_stackBase ms - ms_maxStackSize ms then
             bind_run (grow_stack P mid vaddr s) (\<lambda>s. Done (s, True))
           else Done (s, False))"

definition fixupFault :: "sys_params \<Rightarrow> nat \<Rightarrow> addr \<Rightarrow> se \<Rightarrow> (se \<times> bool) run" where
  "fixupFault P p vaddr s = bind_run (Some (deref (se_procs s p))) (\<lambda>pr. ms_fixupFault P (p_memState pr) vaddr s)"

datatype alloc_type = Always | Never | NextPage

definition fixupAddr :: "sys_params \<Rightarrow> alloc_type \<Rightarrow> fixup" where
  "fixupAddr P allocating cid a mode s =
     (if mode = Write \<and> allocating = Always then fixup_always P cid a mode s
      else if mode = Write \<and> allocating = NextPage then
        bind_run (Some (thread_at cid s)) (\<lambda>th. fixupFault P (th_process th) a s)
      else Done (s, False))"


section \<open>Cloning an address space\<close>

text \<open>The proxy of a thread outside of full-system mode.\<close>

definition virtProxy :: "sys_params \<Rightarrow> fixup" where
  "virtProxy P = fixupAddr P NextPage"

definition replicatePage :: "sys_params \<Rightarrow> nat \<Rightarrow> addr \<Rightarrow> addr \<Rightarrow> nat \<Rightarrow> nat \<Rightarrow> bool \<Rightarrow> se \<Rightarrow> se run" where
  "replicatePage P p vaddr new_paddr old_tc new_tc allocate_page s =
     bind_run (Some (deref (se_procs s p))) (\<lambda>pr.
     bind_run (Some (if allocate_page then alloc_frames P vaddr 1 (se_sys s) else Ok (se_sys s, new_paddr))) (\<lambda>(sys, new_paddr).
     bind_run (readBlob P (virtProxy P) old_tc vaddr (unat PageBytes) (s\<lparr>se_sys := sys\<rparr>)) (\<lambda>(s, buf_p).
     bind_run (Some (deref (se_pts s (p_pTable pr)))) (\<lambda>pt.
     bind_run (Some (pt_map pt vaddr new_paddr (sint PageBytes) Clobber)) (\<lambda>pt.
       writeBlob P (virtProxy P) new_tc vaddr buf_p (s\<lparr>se_pts := (se_pts s)(p_pTable pr \<mapsto> pt)\<rparr>))))))"

fun clone_pages :: "sys_params \<Rightarrow> nat \<Rightarrow> nat \<Rightarrow> nat \<Rightarrow> (addr \<times> addr) list \<Rightarrow> se \<Rightarrow> se run" where
  "clone_pages P np otc ntc [] s = Done s"
| "clone_pages P np otc ntc ((vaddr, _) # ms) s =
     bind_run (Some (pt_of np s)) (\<lambda>pt.
     bind_run (case pt_translate pt vaddr of
         None \<Rightarrow> replicatePage P np vaddr 0 otc ntc True s
       | Some paddr \<Rightarrow> replicatePage P np vaddr paddr otc ntc False s)
       (clone_pages P np otc ntc ms))"

text \<open>
  The address space in \<open>clone\<close>: shared, or copied page by page in the order \<open>order\<close> of the hash table.
\<close>

definition clone_memory :: "sys_params \<Rightarrow> nat \<Rightarrow> nat \<Rightarrow> nat \<Rightarrow> nat \<Rightarrow> bool \<Rightarrow> addr list \<Rightarrow> se \<Rightarrow> se run" where
  "clone_memory P p np otc ntc clone_vm order s =
     bind_run (Some (deref (se_procs s p))) (\<lambda>pr.
     bind_run (Some (deref (se_procs s np))) (\<lambda>npr.
       if clone_vm then
         Done (s\<lparr>se_pts := (se_pts s)(p_pTable npr := None),
                 se_procs := (se_procs s)(np \<mapsto> npr\<lparr>p_pTable := p_pTable pr, p_memState := p_memState pr\<rparr>)\<rparr>)
       else
         bind_run (Some (deref (se_pts s (p_pTable pr)))) (\<lambda>pt.
         bind_run (clone_pages P np otc ntc (pt_getMappings pt order) s) (\<lambda>s.
         bind_run (Some (deref (se_mss s (p_memState npr)))) (\<lambda>nms.
         bind_run (Some (deref (se_mss s (p_memState pr)))) (\<lambda>ms.
           Done (s\<lparr>se_mss := (se_mss s)(p_memState npr \<mapsto> ms_assign nms ms)\<rparr>)))))))"

text \<open>
  A thread is ready when refreshing the registers cached in its data TLB succeeds and translation needs no second stage.
  The proxies leave the TLB with refreshed registers. An address is plain when it carries no tag.
\<close>

definition warm :: "thread \<Rightarrow> thread" where
  "warm th = (case th_dtb th of Tlb u s2 \<Rightarrow>
     case updateMiscReg (th_tc th) NormalTran u of Inl _ \<Rightarrow> th | Inr u' \<Rightarrow> th\<lparr>th_dtb := Tlb u' s2\<rparr>)"

definition th_ready :: "thread \<Rightarrow> bool" where
  "th_ready th = (case th_dtb th of Tlb u s2 \<Rightarrow>
     case updateMiscReg (th_tc th) NormalTran u of Inl _ \<Rightarrow> False
     | Inr u' \<Rightarrow> \<not> directToStage2 u' \<and> haveEL (th_tc th) (aarch64EL u'))"

definition plain_addr :: "thread \<Rightarrow> addr \<Rightarrow> bool" where
  "plain_addr th a = (case th_dtb (warm th) of Tlb u _ \<Rightarrow>
     aarch64 u \<longrightarrow> purifyTaggedAddr a (th_tc th) (aarch64EL u) (t_ttbcr u) False = Ok a)"

definition warm_at :: "nat \<Rightarrow> se \<Rightarrow> se" where
  "warm_at cid s = s\<lparr>se_threads := (se_threads s)[cid := warm (se_threads s ! cid)]\<rparr>"

text \<open>A thread that runs a process with a page table.\<close>

definition running :: "se \<Rightarrow> nat \<Rightarrow> nat \<Rightarrow> process \<Rightarrow> page_table \<Rightarrow> bool" where
  "running s cid p pr pt \<longleftrightarrow> cid < length (se_threads s) \<and> th_process (se_threads s ! cid) = p \<and> th_ready (se_threads s ! cid) \<and>
     se_procs s p = Some pr \<and> se_pts s (p_pTable pr) = Some pt"

abbreviation plain_at :: "se \<Rightarrow> nat \<Rightarrow> addr \<Rightarrow> bool" where
  "plain_at s cid a \<equiv> plain_addr (se_threads s ! cid) a"

text \<open>What an access to virtual memory means: every byte is translated on its own.\<close>

definition vread :: "page_table \<Rightarrow> phys_mem \<Rightarrow> addr \<Rightarrow> nat \<Rightarrow> 8 word list" where
  "vread pt m a n = map (\<lambda>x. m (the (pt_translate pt x))) (byte_addrs a n)"

fun vwrite :: "page_table \<Rightarrow> phys_mem \<Rightarrow> addr \<Rightarrow> 8 word list \<Rightarrow> phys_mem" where
  "vwrite pt m a [] = m"
| "vwrite pt m a (b # bs) = vwrite pt (m(the (pt_translate pt a) := b)) (a + 1) bs"

definition in_pages :: "(addr \<times> nat) list \<Rightarrow> bool" where
  "in_pages cs \<longleftrightarrow> (\<forall>(b, n)\<in>set cs. 0 < n \<and> unat (take_bit 12 b) + n \<le> 2 ^ 12)"

section \<open>Threads whose TLB translates\<close>

lemma warm_fields [simp]:
  "th_process (warm th) = th_process th" "th_tc (warm th) = th_tc th" "th_itb (warm th) = th_itb th"
  by (simp_all add: warm_def split: tlb.split sum.split)

lemma warm_ready:
  assumes "th_ready th"
  obtains u u' s2 where "th_dtb th = Tlb u s2" "updateMiscReg (th_tc th) NormalTran u = Ok u'"
    "\<not> directToStage2 u'" "haveEL (th_tc th) (aarch64EL u')" "th_dtb (warm th) = Tlb u' s2"
    "updateMiscReg (th_tc th) NormalTran u' = Ok u'"
proof -
  obtain u s2 where u: "th_dtb th = Tlb u s2" by (cases "th_dtb th")
  obtain u' where u': "updateMiscReg (th_tc th) NormalTran u = Ok u'"
    using assms u by (auto simp: th_ready_def split: sum.splits)
  show thesis
    using that [OF u u' _ _ _ updateMiscReg_again [OF u']] assms u u' by (simp add: th_ready_def warm_def)
qed

lemma warm_warm [simp]: "warm (warm th) = warm th"
proof (cases "th_dtb th")
  case (Tlb u s2)
  then show ?thesis
    by (cases "updateMiscReg (th_tc th) NormalTran u") (simp_all add: warm_def updateMiscReg_again)
qed

lemma ready_warm [simp]: "th_ready (warm th) = th_ready th"
proof (cases "th_dtb th")
  case (Tlb u s2)
  then show ?thesis
    by (cases "updateMiscReg (th_tc th) NormalTran u") (simp_all add: warm_def th_ready_def updateMiscReg_again)
qed

lemma plain_warm [simp]: "plain_addr (warm th) a = plain_addr th a"
  by (simp add: plain_addr_def split: tlb.split)

lemma purify_low:
  assumes "haveEL tc el" "a < 2 ^ 31"
  shows "purifyTaggedAddr a tc el tcr isInstr = Ok a"
proof -
  have "unat a < 2 ^ 31" using assms(2) by (simp add: word_less_nat_alt)
  then have t: "take_bit n a = a" if "31 \<le> n" for n
    using that less_le_trans [OF _ power_increasing [OF that, of "2 :: nat"]] by (intro unat_eqI) (simp add: unat_take_bit)
  have "\<not> bit a 55" using bit_take_bit_iff [of 31 a 55] t [of 31] by simp
  obtain j where j: "computeAddrTop tc False isInstr tcr el = Ok j"
    by (rule returnsE [OF computeAddrTop_total [OF assms(1)]])
  have "bits a j 0 = Ok a" if "j = 31 \<or> j = 55"
    using that t [of 32] t [of 56]
    by (auto simp: bits_def bits_raw_def mask_n_def take_bit_eq_mask mask_eq_exp_minus_1)
  then show ?thesis
    using \<open>\<not> bit a 55\<close> j computeAddrTop_range [OF j] by (auto simp: purifyTaggedAddr_def and_then_def)
qed

lemma plain_low: "th_ready th \<Longrightarrow> a < 2 ^ 31 \<Longrightarrow> plain_addr th a"
  by (erule warm_ready) (simp add: plain_addr_def purify_low)

lemma translateFunctional_ready:
  assumes "th_ready th" "hasVaddr req" "rq_flags req AND AlignmentMask = 0" "plain_addr th (rq_vaddr req)" "mode \<noteq> Execute"
  shows "\<exists>req' f. translateFunctional (th_tc th) pt (th_dtb th) req mode = Ok (th_dtb (warm th), req', f) \<and>
    (case pt_translate pt (rq_vaddr req) of
       None \<Rightarrow> f \<noteq> NoFault \<and> req' = req
     | Some p \<Rightarrow> f = NoFault \<and> getPaddr req' = Ok p)"
proof -
  obtain u u' s2 where u: "th_dtb th = Tlb u s2" "updateMiscReg (th_tc th) NormalTran u = Ok u'" "\<not> directToStage2 u'"
    "th_dtb (warm th) = Tlb u' s2" "updateMiscReg (th_tc th) NormalTran u' = Ok u'"
    by (rule warm_ready [OF assms(1)])
  have v: "(if aarch64 u' then purifyTaggedAddr (rq_vaddr req) (th_tc th) (aarch64EL u') (t_ttbcr u') (mode = Execute)
      else Ok (rq_vaddr req)) = Ok (rq_vaddr req)"
    using assms(4,5) u(4) by (simp add: plain_addr_def)
  have m: "\<not> misaligned (rq_vaddr req) (rq_flags req)" by (rule aligned_not_misaligned [OF assms(3)])
  note sm = u v m assms(2) translateSe_def getVaddr_Ok getFlags_vaddr
  show ?thesis
  proof (cases "pt_translate pt (rq_vaddr req)")
    case None
    then show ?thesis by (simp add: sm)
  next
    case (Some p)
    obtain req' where "finalizePhysical u' (setPaddr p req) mode = Ok req'" "rq_paddr req' = p" "hasPaddr req'"
      using finalizePhysical_Ok [of u' p req mode] by blast
    then show ?thesis using Some by (simp add: sm getPaddr_def hasPaddr_def)
  qed
qed

section \<open>One page of a blob\<close>

lemma warm_at_simps [simp]:
  "se_sys (warm_at cid s) = se_sys s" "se_mem (warm_at cid s) = se_mem s" "se_procs (warm_at cid s) = se_procs s"
  "se_pts (warm_at cid s) = se_pts s" "se_mss (warm_at cid s) = se_mss s"
  "length (se_threads (warm_at cid s)) = length (se_threads s)"
  "(warm_at cid s)\<lparr>se_mem := m\<rparr> = warm_at cid (s\<lparr>se_mem := m\<rparr>)"
  by (simp_all add: warm_at_def)

lemma warm_at_again [simp]: "warm_at cid (warm_at cid s) = warm_at cid s"
  by (cases "cid < length (se_threads s)") (simp_all add: warm_at_def list_update_beyond)

lemma running_warm [simp]: "running (warm_at cid s) cid' p pr pt = running s cid' p pr pt"
  by (cases "cid < length (se_threads s)") (auto simp: running_def warm_at_def nth_list_update list_update_beyond)

lemma running_mem [simp]: "running (s\<lparr>se_mem := m\<rparr>) cid p pr pt = running s cid p pr pt"
  by (simp add: running_def)

lemma plain_at_warm [simp]: "plain_at (warm_at cid s) cid' a = plain_at s cid' a"
  by (cases "cid < length (se_threads s)") (simp_all add: warm_at_def nth_list_update list_update_beyond)

lemma proxy_req_ok:
  assumes "running s cid p pr pt"
  shows "\<exists>req. proxy_req P cid a n s = Ok req \<and> hasVaddr req \<and> rq_vaddr req = a \<and> rq_flags req = 0"
  using assms
  by (simp add: proxy_req_def thread_at_def running_def Request_virt_def setContext_def setVirt_def hasVaddr_def isSet_def
      flags_set_def flags_clear_def private_flag_defs Request_empty_def)

lemma tryTLBsOnce_eq:
  assumes "running s cid p pr pt" "plain_at s cid (rq_vaddr req)" "hasVaddr req" "rq_flags req = 0" "mode \<noteq> Execute"
  shows "\<exists>req'. tryTLBsOnce cid req mode s = Ok (warm_at cid s, req', pt_translate pt (rq_vaddr req) \<noteq> None) \<and>
    (case pt_translate pt (rq_vaddr req) of None \<Rightarrow> req' = req | Some a \<Rightarrow> getPaddr req' = Ok a)"
proof -
  let ?th = "se_threads s ! cid"
  have r: "th_ready ?th" "thread_at cid s = Ok ?th" "pt_of (th_process ?th) s = Ok pt"
    using assms(1) by (simp_all add: running_def thread_at_def pt_of_def deref_def)
  have f: "rq_flags req AND AlignmentMask = 0" using assms(4) by simp
  obtain req1 f1 where t1: "translateFunctional (th_tc ?th) pt (th_dtb ?th) req mode = Ok (th_dtb (warm ?th), req1, f1)"
    "case pt_translate pt (rq_vaddr req) of None \<Rightarrow> f1 \<noteq> NoFault \<and> req1 = req | Some p \<Rightarrow> f1 = NoFault \<and> getPaddr req1 = Ok p"
    using translateFunctional_ready [OF r(1) assms(3) f assms(2,5)] by blast
  have w: "?th\<lparr>th_dtb := th_dtb (warm ?th)\<rparr> = warm ?th"
    by (simp add: warm_def split: tlb.split sum.split)
  show ?thesis
  proof (cases "pt_translate pt (rq_vaddr req)")
    case None
    have w2: "th_ready (warm ?th)" "plain_addr (warm ?th) (rq_vaddr req)" using r(1) assms(2) by simp_all
    obtain req2 f2 where t2: "translateFunctional (th_tc ?th) pt (th_dtb (warm ?th)) req Read = Ok (th_dtb (warm ?th), req2, f2)"
      "f2 \<noteq> NoFault" "req2 = req"
      using translateFunctional_ready [OF w2(1) assms(3) f w2(2), of Read pt] None by auto
    show ?thesis using r t1 t2 None by (simp add: tryTLBsOnce_def warm_at_def w)
  next
    case (Some y)
    then show ?thesis using r t1 by (simp add: tryTLBsOnce_def warm_at_def w)
  qed
qed

lemma tryTLBs_mapped:
  assumes "running s cid p pr pt" "plain_at s cid (rq_vaddr req)" "hasVaddr req" "rq_flags req = 0" "mode \<noteq> Execute"
    and "pt_translate pt (rq_vaddr req) = Some y"
  shows "\<exists>req'. tryTLBs fixup cid req mode s = Done (warm_at cid s, req', True) \<and> getPaddr req' = Ok y"
  using tryTLBsOnce_eq [OF assms(1-5)] assms(6) by (auto simp: tryTLBs_def)

section \<open>Blobs, byte by byte\<close>

lemma byte_addrs_Suc: "byte_addrs a (Suc n) = a # byte_addrs (a + 1) n"
  using byte_addrs_append [of a 1 n] by (simp add: byte_addrs_def)

lemma vread_append: "vread pt m a i @ vread pt m (a + of_nat i) j = vread pt m a (i + j)"
  by (simp add: vread_def flip: byte_addrs_append)

lemma vwrite_append: "vwrite pt m a (xs @ ys) = vwrite pt (vwrite pt m a xs) (a + of_nat (length xs)) ys"
  by (induction xs arbitrary: m a) (simp_all add: algebra_simps)

lemma page_contiguous:
  assumes "pt_ok k pt" "unat (take_bit k a) + n \<le> 2 ^ k" "i < n" "pt_translate pt a = Some y"
  shows "pt_translate pt (a + of_nat i) = Some (y + of_nat i)"
proof -
  have k: "k < 63" using assms(1) by (simp add: pt_ok_def)
  have lt: "unat (take_bit k a) + i < 2 ^ k" using assms(2,3) by simp
  have "(2 :: nat) ^ k \<le> 2 ^ 64" using k by (intro power_increasing) simp_all
  then have lt64: "unat (take_bit k a) + i < 2 ^ 64" using lt by (rule less_le_trans [rotated])
  then have i: "unat (of_nat i :: addr) = i" by (intro unat_of_nat_small) simp
  have u: "unat (take_bit k a + of_nat i) = unat (take_bit k a) + i" using lt64 i by (simp add: unat_word_ariths)
  have "take_bit k (a + of_nat i) = take_bit k (take_bit k a + of_nat i)"
    using take_bit_page_add [OF take_bit_aligned, of k a "take_bit k a + of_nat i"] k by simp
  also have "\<dots> = take_bit k a + of_nat i"
    using lt u by (intro unat_eqI) (simp only: unat_take_bit, simp)
  finally have t: "take_bit k (a + of_nat i) = take_bit k a + of_nat i" .
  have "pageAlign pt (a + of_nat i) = pageAlign pt a" by (simp add: pageAlign_minus [OF assms(1)] t)
  then show ?thesis
    using assms(4) t by (auto simp: pt_translate_alt pageOffset_take_bit [OF assms(1)])
qed

lemma vread_piece:
  assumes "pt_ok k pt" "unat (take_bit k a) + n \<le> 2 ^ k" "pt_translate pt a = Some y"
  shows "vread pt m a n = mem_read m y n"
  using page_contiguous [OF assms(1,2) _ assms(3)] by (simp add: vread_def mem_read_def byte_addrs_def)

lemma mem_write_Cons: "length bs < 2 ^ 64 \<Longrightarrow> mem_write m y (b # bs) = mem_write (m(y := b)) (y + 1) bs"
proof -
  have "mem_write m y [b] = m(y := b)" by (auto simp: mem_write_def unat_eq_0)
  then show "length bs < 2 ^ 64 \<Longrightarrow> ?thesis" using mem_write_append [of "[b]" bs m y] by simp
qed

lemma vwrite_piece:
  assumes "pt_ok k pt" "unat (take_bit k a) + length bs \<le> 2 ^ k" "pt_translate pt a = Some y"
  shows "vwrite pt m a bs = mem_write m y bs"
proof -
  have k: "(2 :: nat) ^ k < 2 ^ 64" using assms(1) by (intro power_strict_increasing) (simp_all add: pt_ok_def)
  have c: "pt_translate pt (a + of_nat i) = Some (y + of_nat i)" if "i < length bs" for i
    by (rule page_contiguous [OF assms(1,2) that assms(3)])
  have len: "length bs < 2 ^ 64" using assms(2) k by linarith
  show ?thesis using c len
  proof (induction bs arbitrary: m a y)
    case Nil
    then show ?case by (simp add: mem_write_def)
  next
    case (Cons b bs)
    have "vwrite pt (m(y := b)) (a + 1) bs = mem_write (m(y := b)) (y + 1) bs"
    proof (rule Cons.IH)
      show "pt_translate pt (a + 1 + of_nat i) = Some (y + 1 + of_nat i)" if "i < length bs" for i
        using Cons.prems(1) [of "Suc i"] that by (simp add: algebra_simps)
    qed (use Cons.prems(2) in simp)
    then show ?case using Cons.prems(1) [of 0] Cons.prems(2) by (simp add: mem_write_Cons)
  qed
qed

lemma chunks_count:
  assumes "gen_inv k g"
  shows "length (chunks g) \<le> Suc ((unat (sizeLeft g) + 2 ^ k - 1) div 2 ^ k)"
  using assms
proof (induction g rule: chunks.induct)
  case (1 g)
  show ?case
  proof (cases "gen_done g \<or> sizeLeft g = 0")
    case True
    then show ?thesis by (subst chunks.simps) (auto simp: gen_next_def gen_done_def chunks.simps [of "g\<lparr>curSize := 0\<rparr>"])
  next
    case False
    have k: "k < 32" "chunkSize g = 2 ^ k" using 1(2) by (simp_all add: gen_inv_def)
    let ?g = "fst (gen_next g)" and ?l = "unat (sizeLeft g)"
    have inv: "gen_inv k ?g" using gen_next_inv [OF 1(2)] False by blast
    have u: "unat (2 ^ k :: 32 word) = 2 ^ k" using k(1) by (simp add: unat_exp_lower)
    have "unat (sizeLeft ?g) = ?l - min ?l (2 ^ k)"
      using False k(2) u by (simp add: gen_next_def Let_def min_def unat_sub word_le_nat_alt)
    then have "(unat (sizeLeft ?g) + 2 ^ k - 1) div 2 ^ k + 1 \<le> (?l + 2 ^ k - 1) div 2 ^ k"
    proof (cases "?l \<le> 2 ^ k")
      case True
      have "0 < ?l" using False by (simp add: unat_gt_0)
      then have "1 \<le> (?l + 2 ^ k - 1) div 2 ^ k" using div_le_mono [of "2 ^ k" "?l + 2 ^ k - 1" "2 ^ k"] by simp
      then show ?thesis using True \<open>unat (sizeLeft ?g) = _\<close> by simp
    next
      case l: False
      obtain l' where l': "?l = Suc l'" using l by (cases ?l) auto
      then show ?thesis using l \<open>unat (sizeLeft ?g) = _\<close> by (simp add: div_add_self2)
    qed
    then show ?thesis using 1(1) [OF _ inv] False by (subst chunks.simps) simp
  qed
qed

lemma in_pages_simps [simp]:
  "in_pages []" "in_pages ((b, n) # cs) \<longleftrightarrow> 0 < n \<and> unat (take_bit 12 b) + n \<le> 2 ^ 12 \<and> in_pages cs"
  by (simp_all add: in_pages_def)

lemma try_chunks_pieces:
  assumes "n < 2 ^ 32"
  obtains cs where "try_chunks a n body = try_pieces body cs" "consec a cs" "sum_list (map snd cs) = n" "in_pages cs"
    "n = 0 \<longleftrightarrow> cs = []" "length cs \<le> n div 4096 + 2"
proof -
  have pb: "ucast PageBytes = (2 ^ 12 :: 32 word)" by (simp add: PageBytes_def PageShift_def)
  obtain g where g: "ChunkGenerator a (of_nat n) (2 ^ 12) = Ok g" "gen_inv 12 g" "curAddr g = a"
    "unat (curSize g) + unat (sizeLeft g) = unat (of_nat n :: 32 word)"
    by (rule ChunkGenerator_ok [of 12 a "of_nat n"]) simp
  have "unat (of_nat n :: 32 word) = n" using assms by (simp add: unat_of_nat)
  then have c: "consec a (chunks g)" "sum_list (map snd (chunks g)) = n" "in_pages (chunks g)"
    using g(3,4) chunks_consec [OF g(2)] chunks_in_block [OF g(2)] by (auto simp: in_pages_def)
  have "n = 0 \<longleftrightarrow> chunks g = []" using c(2,3) by (cases "chunks g") auto
  moreover have "unat (sizeLeft g) \<le> n" using g(4) \<open>unat (of_nat n) = n\<close> by simp
  then have "length (chunks g) \<le> n div 4096 + 2"
    using chunks_count [OF g(2)] div_le_mono [of "unat (sizeLeft g) + 4095" "n + 4096" 4096] by simp
  ultimately show thesis using c g(1) pb by (intro that [of "chunks g"]) (simp_all add: try_chunks_def fun_eq_iff)
qed

section \<open>Accesses to mapped memory\<close>

lemma Ball_byte_addrs_append:
  "(\<forall>x\<in>set (byte_addrs a (m + n)). Q x) \<longleftrightarrow> (\<forall>x\<in>set (byte_addrs a m). Q x) \<and> (\<forall>x\<in>set (byte_addrs (a + of_nat m) n). Q x)"
  by (simp flip: byte_addrs_append add: ball_Un)

lemma byte_addrs_hd: "0 < n \<Longrightarrow> a \<in> set (byte_addrs a n)"
  by (cases n) (simp_all add: byte_addrs_Suc)

lemma read_piece_mapped:
  assumes "running s cid p pr pt" "pt_ok 12 pt" "sp_cacheLine P = 2 ^ c" "c < 32" "n < 2 ^ 32"
    and "unat (take_bit 12 a) + n \<le> 2 ^ 12" "plain_at s cid a" "pt_translate pt a = Some y"
  shows "read_piece P fixup cid a n (s, q) = Done ((warm_at cid s, q @ vread pt (se_mem s) a n), True)"
proof -
  obtain req where req: "proxy_req P cid a n s = Ok req" "hasVaddr req" "rq_vaddr req = a" "rq_flags req = 0"
    using proxy_req_ok [OF assms(1)] by blast
  obtain req' where req': "tryTLBs fixup cid req Read s = Done (warm_at cid s, req', True)" "getPaddr req' = Ok y"
    using tryTLBs_mapped [OF assms(1), of req Read y fixup] req assms(7,8) by auto
  have "readBlobPhys (sp_cacheLine P) (se_mem s) y n = Ok (vread pt (se_mem s) a n)"
    using readBlobPhys_eq [OF assms(4,5)] vread_piece [OF assms(2,6,8)] assms(3) by simp
  then show ?thesis by (simp add: read_piece_def req req')
qed

lemma read_pieces:
  assumes "consec a cs" "in_pages cs" "sum_list (map snd cs) < 2 ^ 32"
    and "running s cid p pr pt" "\<forall>x\<in>set (byte_addrs a (sum_list (map snd cs))). plain_at s cid x \<and> pt_translate pt x \<noteq> None"
    and "pt_ok 12 pt" "sp_cacheLine P = 2 ^ c" "c < 32"
  shows "try_pieces (read_piece P fixup cid) cs (s, q) =
    Done ((if cs = [] then s else warm_at cid s, q @ vread pt (se_mem s) a (sum_list (map snd cs))), True)"
  using assms(1-5)
proof (induction cs arbitrary: a s q)
  case Nil
  then show ?case by (simp add: vread_def byte_addrs_def)
next
  case (Cons bn cs)
  obtain n where bn: "bn = (a, n)" using Cons.prems(1) by (cases bn) simp
  have n: "0 < n" "unat (take_bit 12 a) + n \<le> 2 ^ 12" using Cons.prems(2) bn by simp_all
  have all: "\<forall>x\<in>set (byte_addrs a n). plain_at s cid x \<and> pt_translate pt x \<noteq> None"
    "\<forall>x\<in>set (byte_addrs (a + of_nat n) (sum_list (map snd cs))). plain_at s cid x \<and> pt_translate pt x \<noteq> None"
    using Cons.prems(5) by (simp_all add: bn Ball_byte_addrs_append)
  obtain y where y: "plain_at s cid a" "pt_translate pt a = Some y" using all(1) byte_addrs_hd [OF n(1), of a] by blast
  have c: "n < 2 ^ 32" "consec (a + of_nat n) cs" "sum_list (map snd cs) < 2 ^ 32" using Cons.prems(1,3) by (simp_all add: bn)
  note first = read_piece_mapped [OF Cons.prems(4) assms(6-8) c(1) n(2) y, of fixup q]
  have "try_pieces (read_piece P fixup cid) cs (warm_at cid s, q @ vread pt (se_mem s) a n) =
      Done ((if cs = [] then warm_at cid s else warm_at cid (warm_at cid s),
        (q @ vread pt (se_mem s) a n) @ vread pt (se_mem (warm_at cid s)) (a + of_nat n) (sum_list (map snd cs))), True)"
    by (rule Cons.IH [OF c(2) _ c(3)]) (use Cons.prems(2,4) all(2) in \<open>simp_all add: bn\<close>)
  then show ?case by (simp add: bn first vread_append)
qed

lemma tryReadBlob_mapped:
  assumes "running s cid p pr pt" "pt_ok 12 pt" "sp_cacheLine P = 2 ^ c" "c < 32" "n < 2 ^ 32"
    and "\<forall>x\<in>set (byte_addrs a n). plain_at s cid x \<and> pt_translate pt x \<noteq> None"
  shows "tryReadBlob P fixup cid a n s = Done ((if n = 0 then s else warm_at cid s, vread pt (se_mem s) a n), True)"
proof -
  obtain cs where cs: "try_chunks a n (read_piece P fixup cid) = try_pieces (read_piece P fixup cid) cs"
    "consec a cs" "sum_list (map snd cs) = n" "in_pages cs" "n = 0 \<longleftrightarrow> cs = []"
    by (rule try_chunks_pieces [OF assms(5)])
  have "try_pieces (read_piece P fixup cid) cs (s, []) =
      Done ((if cs = [] then s else warm_at cid s, [] @ vread pt (se_mem s) a (sum_list (map snd cs))), True)"
    by (rule read_pieces [OF cs(2,4) _ assms(1) _ assms(2-4)]) (use assms(5,6) cs(3) in simp_all)
  then show ?thesis by (simp add: tryReadBlob_def cs)
qed

lemma write_piece_mapped:
  assumes "running s cid p pr pt" "pt_ok 12 pt" "sp_cacheLine P = 2 ^ c" "c < 32" "n < 2 ^ 32" "n \<le> length q"
    and "unat (take_bit 12 a) + n \<le> 2 ^ 12" "plain_at s cid a" "pt_translate pt a = Some y"
  shows "write_piece P fixup cid a n (s, q) =
    Done ((warm_at cid (s\<lparr>se_mem := vwrite pt (se_mem s) a (take n q)\<rparr>), drop n q), True)"
proof -
  obtain req where req: "proxy_req P cid a n s = Ok req" "hasVaddr req" "rq_vaddr req = a" "rq_flags req = 0"
    using proxy_req_ok [OF assms(1)] by blast
  obtain req' where req': "tryTLBs fixup cid req Write s = Done (warm_at cid s, req', True)" "getPaddr req' = Ok y"
    using tryTLBs_mapped [OF assms(1), of req Write y fixup] req assms(8,9) by auto
  have len: "length (take n q) = n" using assms(6) by simp
  have "writeBlobPhys (sp_cacheLine P) (se_mem s) y (take n q) = Ok (vwrite pt (se_mem s) a (take n q))"
    using writeBlobPhys_eq [OF assms(4), of "take n q"] vwrite_piece [OF assms(2) _ assms(9), of "take n q"] assms(3,5,7) len by simp
  then show ?thesis by (simp add: write_piece_def req req')
qed

lemma write_pieces_mapped:
  assumes "consec a cs" "in_pages cs" "sum_list (map snd cs) = length q" "length q < 2 ^ 32"
    and "running s cid p pr pt" "\<forall>x\<in>set (byte_addrs a (length q)). plain_at s cid x \<and> pt_translate pt x \<noteq> None"
    and "pt_ok 12 pt" "sp_cacheLine P = 2 ^ c" "c < 32"
  shows "try_pieces (write_piece P fixup cid) cs (s, q) =
    Done ((if cs = [] then s else warm_at cid (s\<lparr>se_mem := vwrite pt (se_mem s) a q\<rparr>), []), True)"
  using assms(1-6)
proof (induction cs arbitrary: a s q)
  case Nil
  then show ?case by simp
next
  case (Cons bn cs)
  obtain n where bn: "bn = (a, n)" using Cons.prems(1) by (cases bn) simp
  let ?s = "warm_at cid (s\<lparr>se_mem := vwrite pt (se_mem s) a (take n q)\<rparr>)"
  have n: "0 < n" "unat (take_bit 12 a) + n \<le> 2 ^ 12" "n \<le> length q" "n < 2 ^ 32" using Cons.prems(2-4) bn by simp_all
  have q: "length q = n + length (drop n q)" using n(3) by simp
  have all: "\<forall>x\<in>set (byte_addrs a n). plain_at s cid x \<and> pt_translate pt x \<noteq> None"
    "\<forall>x\<in>set (byte_addrs (a + of_nat n) (length (drop n q))). plain_at s cid x \<and> pt_translate pt x \<noteq> None"
    using Cons.prems(6) unfolding q Ball_byte_addrs_append by blast+
  obtain y where y: "plain_at s cid a" "pt_translate pt a = Some y" using all(1) byte_addrs_hd [OF n(1), of a] by blast
  note first = write_piece_mapped [OF Cons.prems(5) assms(7-9) n(4,3,2) y, of fixup]
  have c: "consec (a + of_nat n) cs" "in_pages cs" "sum_list (map snd cs) = length (drop n q)" "length (drop n q) < 2 ^ 32"
    using Cons.prems(1-4) by (simp_all add: bn)
  have v: "vwrite pt (vwrite pt (se_mem s) a (take n q)) (a + of_nat n) (drop n q) = vwrite pt (se_mem s) a q"
    using vwrite_append [of pt "se_mem s" a "take n q" "drop n q"] n(3) by simp
  have "try_pieces (write_piece P fixup cid) cs (?s, drop n q) =
      Done ((if cs = [] then ?s else warm_at cid (?s\<lparr>se_mem := vwrite pt (se_mem ?s) (a + of_nat n) (drop n q)\<rparr>), []), True)"
    by (rule Cons.IH [OF c]) (use Cons.prems(5) all(2) in simp_all)
  moreover have "cs = [] \<Longrightarrow> drop n q = []" using c(3) by simp
  ultimately show ?case using v by (auto simp: bn first)
qed

lemma tryWriteBlob_mapped:
  assumes "running s cid p pr pt" "pt_ok 12 pt" "sp_cacheLine P = 2 ^ c" "c < 32" "length bs < 2 ^ 32"
    and "\<forall>x\<in>set (byte_addrs a (length bs)). plain_at s cid x \<and> pt_translate pt x \<noteq> None"
  shows "tryWriteBlob P fixup cid a bs s =
    Done (if bs = [] then s else warm_at cid (s\<lparr>se_mem := vwrite pt (se_mem s) a bs\<rparr>), True)"
proof -
  obtain cs where cs: "try_chunks a (length bs) (write_piece P fixup cid) = try_pieces (write_piece P fixup cid) cs"
    "consec a cs" "sum_list (map snd cs) = length bs" "in_pages cs" "length bs = 0 \<longleftrightarrow> cs = []"
    by (rule try_chunks_pieces [OF assms(5)])
  note w = write_pieces_mapped [OF cs(2,4,3) assms(5,1,6,2-4), of fixup]
  show ?thesis using cs(1,5) w by (simp add: tryWriteBlob_def)
qed

end
