(* ===== verification/Separation.thy ===== *)
theory Separation
  imports Process
begin

text \<open>
  Separation of memory in system-call emulation: the frames in use, the room left, the invariant of the store
  (\<open>se_ok\<close>), what an operation that only adds pages leaves alone (\<open>extends\<close>), and \<open>Process::allocateMem\<close> of
  \<open>src/sim/process.cc\<close> against them.
\<close>

unbundle bit_operations_syntax

text \<open>
  The bytes of the frames handed out so far, and the room left for a number of further pages of either kind.
\<close>

definition owned :: "sys_alloc \<Rightarrow> addr set" where
  "owned sys = {y. unat y < 4096 * unat (pagePtr sys) \<and> \<not> in_nvm y} \<union> nvm_used sys"

definition room :: "sys_params \<Rightarrow> nat \<Rightarrow> sys_alloc \<Rightarrow> bool" where
  "room P k sys \<longleftrightarrow> unat (pageNVMPtr sys) + k \<le> 0x20000 \<and>
     returns (alloc_seq (\<lambda>s. allocPhysPages (sp_memSize P) (sp_m5op P) s 1) k sys)"

definition plain_params :: "sys_params \<Rightarrow> bool" where
  "plain_params P \<longleftrightarrow> sp_m5op P = m5opRange 0 \<and> unat (sp_memSize P) < 2 ^ 63 \<and> (\<exists>c<32. sp_cacheLine P = 2 ^ c)"

text \<open>
  The invariant of the memory system: every translation leads into a frame that has been handed out, pages of the NVM
  window of the virtual address space to frames of NVM and all others to DRAM, and no byte of physical memory has two
  virtual addresses, in one address space or in two.
\<close>

definition nvm_page :: "addr \<Rightarrow> bool" where
  "nvm_page x = in_nvm (x - take_bit 12 x)"

definition se_ok :: "sys_params \<Rightarrow> se \<Rightarrow> bool" where
  "se_ok P s \<longleftrightarrow> plain_params P \<and> unat (pagePtr (se_sys s)) < 2 ^ 51 \<and>
     (\<forall>t pt. se_pts s t = Some pt \<longrightarrow> pt_ok 12 pt) \<and>
     (\<forall>t pt x y. se_pts s t = Some pt \<longrightarrow> pt_translate pt x = Some y \<longrightarrow>
        y \<in> owned (se_sys s) \<and> (in_nvm y \<longleftrightarrow> nvm_page x)) \<and>
     (\<forall>t pt t' pt' x x' y. se_pts s t = Some pt \<longrightarrow> se_pts s t' = Some pt' \<longrightarrow>
        pt_translate pt x = Some y \<longrightarrow> pt_translate pt' x' = Some y \<longrightarrow> t = t' \<and> x = x')"

text \<open>
  What the proxies and the page faults do to the store: the table \<open>t\<close> gets more pages, and of the bytes in use only those at
  the virtual addresses \<open>R\<close> of \<open>t\<close> change. The threads stay the same up to refreshed registers.
\<close>

definition extends :: "nat \<Rightarrow> addr set \<Rightarrow> se \<Rightarrow> se \<Rightarrow> bool" where
  "extends t R s s' \<longleftrightarrow> se_procs s' = se_procs s \<and> se_mss s' = se_mss s \<and>
     map warm (se_threads s') = map warm (se_threads s) \<and>
     (\<forall>t'. t' \<noteq> t \<longrightarrow> se_pts s' t' = se_pts s t') \<and>
     (\<exists>pt pt'. se_pts s t = Some pt \<and> se_pts s' t = Some pt' \<and> pt_translate pt \<subseteq>\<^sub>m pt_translate pt' \<and>
        (\<forall>y\<in>owned (se_sys s). (\<forall>x\<in>R. pt_translate pt' x \<noteq> Some y) \<longrightarrow> se_mem s' y = se_mem s y)) \<and>
     owned (se_sys s) \<subseteq> owned (se_sys s')"

section \<open>Frames in use\<close>

lemma allocPhysPages_cong:
  "allocPhysPages tsz m5 (sys\<lparr>pageNVMPtr := q\<rparr>) n =
     bind_res (allocPhysPages tsz m5 sys n) (\<lambda>(s, a). Ok (s\<lparr>pageNVMPtr := q\<rparr>, a))"
  by (simp add: allocPhysPages_def Let_def split: prod.split)

lemma alloc_seq_other:
  "returns (alloc_seq (\<lambda>s. allocPhysPages tsz m5 s 1) k (sys\<lparr>pageNVMPtr := q\<rparr>)) \<longleftrightarrow>
     returns (alloc_seq (\<lambda>s. allocPhysPages tsz m5 s 1) k sys)"
proof (induction k arbitrary: sys)
  case (Suc k)
  show ?case
  proof (cases "allocPhysPages tsz m5 sys 1")
    case (Inr r)
    obtain s1 a where r: "r = (s1, a)" by (cases r)
    have "returns (bind_res m (\<lambda>(s'', as). Ok (s'', a # as))) \<longleftrightarrow> returns m" for m :: "(sys_alloc \<times> addr list) res"
      by (cases m) (auto simp: returns_def)
    then show ?thesis using Suc.IH [of s1] Inr r by (simp add: allocPhysPages_cong)
  qed (simp add: allocPhysPages_cong)
qed simp

lemma room_Suc: "room P (Suc k) sys \<Longrightarrow> room P k sys"
proof -
  have "returns (alloc_seq f (Suc k) s) \<Longrightarrow> returns (alloc_seq f k s)" for f :: "'a \<Rightarrow> ('a \<times> addr) res" and s
  proof (induction k arbitrary: s)
    case (Suc k)
    from Suc.prems obtain s1 a where f: "f s = Ok (s1, a)" by (cases "f s") (auto simp: returns_def)
    have "returns (alloc_seq f (Suc k) s1)" using Suc.prems f by (auto simp: returns_def res_simps)
    from Suc.IH [OF this] show ?case using f by (auto simp: returns_def)
  qed simp
  then show "room P (Suc k) sys \<Longrightarrow> room P k sys" by (auto simp: room_def simp del: alloc_seq.simps)
qed

lemma room_mono: "room P k sys \<Longrightarrow> j \<le> k \<Longrightarrow> room P j sys"
  by (induction k) (auto simp: le_Suc_eq dest: room_Suc)

lemma alloc_frames_ok:
  assumes "plain_params P" "unat (pagePtr sys) < 2 ^ 51" "room P (Suc k) sys"
  shows "\<exists>sys' f. alloc_frames P v 1 sys = Ok (sys', f) \<and> unat (pagePtr sys') < 2 ^ 51 \<and> room P k sys' \<and>
    owned sys \<subseteq> owned sys' \<and> page_at f \<subseteq> owned sys' - owned sys \<and> (\<forall>y\<in>page_at f. in_nvm y \<longleftrightarrow> in_nvm v) \<and>
    unat f + 4096 \<le> 2 ^ 63"
proof (cases "in_nvm v")
  case True
  define q where "q = pageNVMPtr sys"
  have q: "unat q < 0x20000" using assms(3) by (simp add: q_def room_def)
  define sys' f where "sys' = sys\<lparr>pageNVMPtr := q + 1\<rparr>" and "f = push_bit PageShift q + NVM_START_ADDR"
  have al: "alloc_frames P v 1 sys = Ok (sys', f)"
    using True by (simp add: alloc_frames_def allocNVMPhysPages_def q_def sys'_def f_def)
  have q1: "unat (q + 1) = unat q + 1" using q by (simp add: unat_word_ariths)
  have "unat (push_bit PageShift q) = 4096 * unat q" using q by (intro unat_page) simp
  then have uf: "unat f = 0x30000000 + 4096 * unat q"
    using q unfolding f_def by (simp add: unat_word_ariths NVM_START_ADDR_def)
  have nv: "in_nvm y" if "y \<in> page_at f" for y
    using that q uf by (auto simp: page_at_def in_nvm_unat)
  have "room P k sys'"
    using room_Suc [OF assms(3)] assms(3) q1 by (simp add: room_def sys'_def alloc_seq_other q_def)
  moreover have "owned sys \<subseteq> owned sys'" using q1 by (auto simp: owned_def nvm_used_def sys'_def q_def)
  moreover have "page_at f \<subseteq> owned sys' - owned sys"
    using nv uf q1 by (auto simp: owned_def nvm_used_def sys'_def q_def page_at_def)
  ultimately show ?thesis using al nv True uf q assms(2) by (intro exI conjI) (auto simp: sys'_def)
next
  case False
  let ?al = "\<lambda>s. allocPhysPages (sp_memSize P) (sp_m5op P) s 1"
  have p: "sp_m5op P = m5opRange 0" "unat (sp_memSize P) < 2 ^ 63" using assms(1) by (simp_all add: plain_params_def)
  obtain sys' f where a: "?al sys = Ok (sys', f)" "returns (alloc_seq ?al k sys')"
    using assms(3) by (cases "?al sys") (auto simp: room_def returns_def res_simps)
  obtain p' where p': "sys' = sys\<lparr>pagePtr := p'\<rparr>" "unat p' < 2 ^ 51" "unat (pagePtr sys) < unat p'"
    "unat f = 4096 * (unat p' - 1)" "f \<in> dram_pages"
    using dram_alloc_page [OF assms(2) p(2)] a(1) p(1) by metis
  have nv: "\<not> in_nvm y" if "y \<in> page_at f" for y using that p'(5) by (auto simp: dram_pages_def)
  have "room P k sys'" using a(2) assms(3) by (simp add: room_def p'(1))
  moreover have "owned sys \<subseteq> owned sys'" using p' by (auto simp: owned_def nvm_used_def)
  moreover have "page_at f \<subseteq> owned sys' - owned sys"
    using nv p' by (auto simp: owned_def nvm_used_def page_at_def)
  moreover have "unat f + 4096 \<le> 2 ^ 63" using p'(2-4) by simp
  ultimately show ?thesis using a(1) nv False p' by (intro exI conjI) (auto simp: alloc_frames_def)
qed

section \<open>Separation of memory\<close>

lemma nvm_page_in_page:
  assumes "take_bit 12 v = 0" "x \<in> page_span 12 v 1"
  shows "nvm_page x = in_nvm v"
  using page_same [OF pt4k_ok assms] by (simp add: nvm_page_def pageAlign_minus [OF pt4k_ok])

lemma se_okD:
  assumes "se_ok P s" "se_pts s t = Some pt"
  shows "pt_ok 12 pt" and "pt_translate pt x = Some y \<Longrightarrow> y \<in> owned (se_sys s)"
    and "pt_translate pt x = Some y \<Longrightarrow> in_nvm y \<longleftrightarrow> nvm_page x"
    and "se_pts s t' = Some pt' \<Longrightarrow> pt_translate pt x = Some y \<Longrightarrow> pt_translate pt' x' = Some y \<Longrightarrow> t = t'"
    and "se_pts s t' = Some pt' \<Longrightarrow> pt_translate pt x = Some y \<Longrightarrow> pt_translate pt' x' = Some y \<Longrightarrow> x = x'"
  using assms unfolding se_ok_def by blast+

lemma se_ok_params: "se_ok P s \<Longrightarrow> plain_params P"
  by (simp add: se_ok_def)

lemma se_ok_mem [simp]: "se_ok P (s\<lparr>se_mem := m\<rparr>) = se_ok P s" "se_ok P (warm_at cid s) = se_ok P s"
  by (simp_all add: se_ok_def)

lemma extends_refl: "se_pts s t = Some pt \<Longrightarrow> extends t R s s"
  by (simp add: extends_def)

lemma map_le_trans1: "m x = Some y \<Longrightarrow> m \<subseteq>\<^sub>m m' \<Longrightarrow> m' x = Some y"
  by (metis domI map_le_def)

lemma extends_trans:
  assumes "extends t R s s1" "extends t R' s1 s2"
  shows "extends t (R \<union> R') s s2"
proof -
  obtain pt pt1 where 1: "se_pts s t = Some pt" "se_pts s1 t = Some pt1" "pt_translate pt \<subseteq>\<^sub>m pt_translate pt1"
    "\<forall>y\<in>owned (se_sys s). (\<forall>x\<in>R. pt_translate pt1 x \<noteq> Some y) \<longrightarrow> se_mem s1 y = se_mem s y"
    "owned (se_sys s) \<subseteq> owned (se_sys s1)"
    using assms(1) unfolding extends_def by blast
  obtain pt2 where 2: "se_pts s2 t = Some pt2" "pt_translate pt1 \<subseteq>\<^sub>m pt_translate pt2"
    "\<forall>y\<in>owned (se_sys s1). (\<forall>x\<in>R'. pt_translate pt2 x \<noteq> Some y) \<longrightarrow> se_mem s2 y = se_mem s1 y"
    "owned (se_sys s1) \<subseteq> owned (se_sys s2)"
    using assms(2) 1(2) unfolding extends_def by (metis option.inject)
  have "se_mem s2 y = se_mem s y" if y: "y \<in> owned (se_sys s)" "\<forall>x\<in>R \<union> R'. pt_translate pt2 x \<noteq> Some y" for y
  proof -
    have "\<forall>x\<in>R. pt_translate pt1 x \<noteq> Some y" using y(2) map_le_trans1 [OF _ 2(2)] by blast
    then have "se_mem s1 y = se_mem s y" using 1(4) y(1) by blast
    moreover have "se_mem s2 y = se_mem s1 y" using 2(3) 1(5) y by blast
    ultimately show ?thesis by simp
  qed
  moreover have "pt_translate pt \<subseteq>\<^sub>m pt_translate pt2" by (rule map_le_trans [OF 1(3) 2(2)])
  moreover have "owned (se_sys s) \<subseteq> owned (se_sys s2)" using 1(5) 2(4) by (rule order_trans)
  ultimately show ?thesis using assms 1(1) 2(1) unfolding extends_def by auto
qed

lemma extends_pt:
  assumes "extends t R s s'" "se_pts s t = Some pt"
  obtains pt' where "se_pts s' t = Some pt'" "pt_translate pt \<subseteq>\<^sub>m pt_translate pt'"
  using assms unfolding extends_def by (metis option.inject)

lemma extends_threads:
  assumes "extends t R s s'"
  shows "length (se_threads s') = length (se_threads s)"
    and "cid < length (se_threads s) \<Longrightarrow> warm (se_threads s' ! cid) = warm (se_threads s ! cid)"
proof -
  have m: "map warm (se_threads s') = map warm (se_threads s)" using assms by (simp add: extends_def)
  then show l: "length (se_threads s') = length (se_threads s)" by (metis length_map)
  show "warm (se_threads s' ! cid) = warm (se_threads s ! cid)" if "cid < length (se_threads s)"
    using m that l by (metis nth_map)
qed

lemma extends_running:
  assumes "extends t R s s'" "running s cid p pr pt" "p_pTable pr = t"
  obtains pt' where "running s' cid p pr pt'" "pt_translate pt \<subseteq>\<^sub>m pt_translate pt'"
    "\<And>a. plain_at s' cid a = plain_at s cid a"
proof -
  have r: "cid < length (se_threads s)" "th_process (se_threads s ! cid) = p" "th_ready (se_threads s ! cid)"
    "se_procs s p = Some pr" "se_pts s t = Some pt"
    using assms(2,3) by (simp_all add: running_def)
  obtain pt' where pt': "se_pts s' t = Some pt'" "pt_translate pt \<subseteq>\<^sub>m pt_translate pt'"
    by (rule extends_pt [OF assms(1) r(5)])
  note w = extends_threads(2) [OF assms(1) r(1)]
  have "th_process (se_threads s' ! cid) = p" "th_ready (se_threads s' ! cid)"
    "\<And>a. plain_at s' cid a = plain_at s cid a"
    using w r(2,3) warm_fields(1) ready_warm plain_warm by metis+
  moreover have "se_procs s' = se_procs s" using assms(1) by (simp add: extends_def)
  ultimately show thesis
    using that [of pt'] pt' r extends_threads(1) [OF assms(1)] assms(3) by (simp add: running_def)
qed

lemma extends_warm_at:
  assumes "running s cid p pr pt"
  shows "extends (p_pTable pr) R s (warm_at cid s)"
proof -
  have "map warm ((se_threads s)[cid := warm (se_threads s ! cid)]) = map warm (se_threads s)"
    using assms by (simp add: map_update running_def list_update_same_conv nth_map)
  then show ?thesis using assms by (simp add: extends_def warm_at_def running_def)
qed

lemma extends_mss: "extends t R s s' \<Longrightarrow> extends t R (s\<lparr>se_mss := m\<rparr>) (s'\<lparr>se_mss := m\<rparr>)"
  by (simp add: extends_def)

lemma frame_plus:
  assumes "unat f + 4096 \<le> 2 ^ 63" "unat (d :: addr) < 4096"
  shows "f + d \<in> page_at f"
proof -
  have "unat (f + d) = unat f + unat d" using assms by (simp add: unat_word_ariths)
  then show ?thesis using assms(2) by (simp add: page_at_def)
qed

lemma se_okI:
  assumes "plain_params P" "unat (pagePtr (se_sys s)) < 2 ^ 51" "\<And>t pt. se_pts s t = Some pt \<Longrightarrow> pt_ok 12 pt"
    and "\<And>t pt x y. se_pts s t = Some pt \<Longrightarrow> pt_translate pt x = Some y \<Longrightarrow> y \<in> owned (se_sys s) \<and> (in_nvm y \<longleftrightarrow> nvm_page x)"
    and "\<And>t pt t' pt' x x' y. se_pts s t = Some pt \<Longrightarrow> pt_translate pt x = Some y \<Longrightarrow> se_pts s t' = Some pt' \<Longrightarrow>
      pt_translate pt' x' = Some y \<Longrightarrow> t = t' \<and> x = x'"
  shows "se_ok P s"
  unfolding se_ok_def using assms by blast

lemma se_ok_new_page:
  assumes "se_ok P s" "se_pts s t = Some pt" "pt_ok 12 pt'" "unat (pagePtr sys') < 2 ^ 51"
    and "owned (se_sys s) \<subseteq> owned sys'" "page_at f \<subseteq> owned sys' - owned (se_sys s)" "\<forall>y\<in>page_at f. in_nvm y \<longleftrightarrow> in_nvm v"
    and "unat f + 4096 \<le> 2 ^ 63" "take_bit 12 v = 0"
    and tr: "\<And>x. pt_translate pt' x = (if x \<in> page_span 12 v 1 then Some (f + (x - v)) else pt_translate pt x)"
  shows "se_ok P (s\<lparr>se_sys := sys', se_pts := (se_pts s)(t \<mapsto> pt')\<rparr>)"
proof -
  have new: "f + (x - v) \<in> page_at f" if "x \<in> page_span 12 v 1" for x
    using that frame_plus [OF assms(8)] by (simp add: page_span_def)
  have old: "y \<in> owned (se_sys s)" "in_nvm y \<longleftrightarrow> nvm_page x" "pt_ok 12 pt1"
    if "se_pts s t1 = Some pt1" "pt_translate pt1 x = Some y" for t1 pt1 x y
    using se_okD [OF assms(1) that(1)] that(2) by blast+
  have tab: "(x \<in> page_span 12 v 1 \<and> t1 = t \<and> y = f + (x - v)) \<or> (\<exists>pt2. se_pts s t1 = Some pt2 \<and> pt_translate pt2 x = Some y)"
    if "((se_pts s)(t \<mapsto> pt')) t1 = Some pt1" "pt_translate pt1 x = Some y" for t1 pt1 x y
    using that assms(2) tr [of x] by (cases "t1 = t"; cases "x \<in> page_span 12 v 1") auto
  have A: "y \<in> owned sys' \<and> (in_nvm y \<longleftrightarrow> nvm_page x)"
    if "((se_pts s)(t \<mapsto> pt')) t1 = Some pt1" "pt_translate pt1 x = Some y" for t1 pt1 x y
    using tab [OF that] new [of x] old [of t1 _ x y] assms(5-7) nvm_page_in_page [OF assms(9), of x] by blast
  have B: "t1 = t2 \<and> x1 = x2"
    if 1: "((se_pts s)(t \<mapsto> pt')) t1 = Some pt1" "pt_translate pt1 x1 = Some y"
      and 2: "((se_pts s)(t \<mapsto> pt')) t2 = Some pt2" "pt_translate pt2 x2 = Some y" for t1 pt1 x1 t2 pt2 x2 y
    using tab [OF 1]
  proof
    assume a: "x1 \<in> page_span 12 v 1 \<and> t1 = t \<and> y = f + (x1 - v)"
    then have "y \<notin> owned (se_sys s)" using new [of x1] assms(6) by blast
    then have "x2 \<in> page_span 12 v 1 \<and> t2 = t \<and> y = f + (x2 - v)" using tab [OF 2] old by blast
    then show ?thesis using a by simp
  next
    assume a: "\<exists>pt2. se_pts s t1 = Some pt2 \<and> pt_translate pt2 x1 = Some y"
    then have "y \<in> owned (se_sys s)" using old by blast
    then have "\<not> (x2 \<in> page_span 12 v 1 \<and> t2 = t \<and> y = f + (x2 - v))" using new [of x2] assms(6) by blast
    then have "\<exists>pt2. se_pts s t2 = Some pt2 \<and> pt_translate pt2 x2 = Some y" using tab [OF 2] by blast
    then show ?thesis using a se_okD(4,5) [OF assms(1)] by blast
  qed
  have C: "pt_ok 12 pt1" if "((se_pts s)(t \<mapsto> pt')) t1 = Some pt1" for t1 pt1
    using that assms(3) se_okD(1) [OF assms(1)] by (auto split: if_splits)
  have sel: "se_sys (s\<lparr>se_sys := sys', se_pts := (se_pts s)(t \<mapsto> pt')\<rparr>) = sys'"
    "se_pts (s\<lparr>se_sys := sys', se_pts := (se_pts s)(t \<mapsto> pt')\<rparr>) = (se_pts s)(t \<mapsto> pt')" by simp_all
  show ?thesis by (rule se_okI, unfold sel) (fact se_ok_params [OF assms(1)] assms(4) A B C)+
qed

lemma allocateMem_ok:
  assumes "se_ok P s" "room P (Suc k) (se_sys s)" "se_procs s p = Some pr" "se_pts s (p_pTable pr) = Some pt"
    and "take_bit 12 v = 0" "pt_translate pt v = None"
  shows "\<exists>s' pt'. allocateMem P p v 4096 False s = Ok s' \<and> se_ok P s' \<and> room P k (se_sys s') \<and>
    extends (p_pTable pr) {} s s' \<and> se_mem s' = se_mem s \<and> se_threads s' = se_threads s \<and>
    se_pts s' (p_pTable pr) = Some pt' \<and>
    (\<forall>x. pt_translate pt' x \<noteq> None \<longleftrightarrow> pt_translate pt x \<noteq> None \<or> x \<in> page_span 12 v 1) \<and>
    (\<forall>x\<in>page_span 12 v 1. the (pt_translate pt' x) \<notin> owned (se_sys s))"
proof -
  let ?t = "p_pTable pr"
  note pp = se_ok_params [OF assms(1)]
  have ptr: "unat (pagePtr (se_sys s)) < 2 ^ 51" using assms(1) by (simp add: se_ok_def)
  note ok = se_okD(1) [OF assms(1,4)]
  obtain sys' f where al: "alloc_frames P v 1 (se_sys s) = Ok (sys', f)" "unat (pagePtr sys') < 2 ^ 51" "room P k sys'"
    "owned (se_sys s) \<subseteq> owned sys'" "page_at f \<subseteq> owned sys' - owned (se_sys s)" "\<forall>y\<in>page_at f. in_nvm y \<longleftrightarrow> in_nvm v"
    "unat f + 4096 \<le> 2 ^ 63"
    using alloc_frames_ok [OF pp ptr assms(2), of v] by blast
  have un: "\<forall>x\<in>page_span 12 v 1. pt_translate pt x = None" using page_all(1) [OF ok assms(5)] assms(6) by blast
  have sp: "pspan 12 v 4096 = page_span 12 v 1" using pspan_one_page [of 12 v] by simp
  obtain pt' where pt': "pt_map pt v f 4096 0 = Ok pt'" "pt_ok 12 pt'"
    "\<And>x. pt_translate pt' x = (if x \<in> page_span 12 v 1 then Some (f + (x - v)) else pt_translate pt x)"
    using pt_map_eq [OF ok aligned_offset [OF ok assms(5)], of 4096 0 f] un unfolding sp by auto
  let ?s = "s\<lparr>se_sys := sys', se_pts := (se_pts s)(?t \<mapsto> pt')\<rparr>"
  have dc: "signed_take_bit 31 (divCeil 4096 (sint PageBytes)) = 1"
    by (simp add: PageBytes_def PageShift_def divCeil_def trunc_div_def)
  have "allocateMem P p v 4096 False s = Ok ?s"
    using al(1) assms(3,4) pt'(1) dc by (simp add: allocateMem_def deref_def)
  moreover have "se_ok P ?s" by (rule se_ok_new_page [OF assms(1,4) pt'(2) al(2,4-7) assms(5) pt'(3)])
  moreover have "pt_translate pt \<subseteq>\<^sub>m pt_translate pt'" using un by (auto simp: map_le_def pt'(3))
  then have "extends ?t {} s ?s" using assms(4) al(4) by (simp add: extends_def)
  moreover have "\<forall>x\<in>page_span 12 v 1. the (pt_translate pt' x) \<notin> owned (se_sys s)"
    using frame_plus [OF al(7)] al(5) by (auto simp: pt'(3) page_span_def)
  ultimately show ?thesis using al(3) pt'(3) by (intro exI [of _ ?s] exI [of _ pt']) auto
qed

end
