(* ===== verification/Proxy.thy ===== *)
theory Proxy
  imports Separation
begin

text \<open>
  Writing through a proxy that can add pages. The interface \<open>page_fixer\<close> is what \<open>TranslatingPortProxy\<close>
  (\<open>src/mem/translating_port_proxy.cc\<close>) expects of \<open>fixupAddr\<close>: an address it says it has fixed translates at the second
  attempt, and nothing else has changed. The interpretation here is the proxy that always allocates
  (\<open>src/mem/se_translating_port_proxy.cc\<close>).
\<close>

unbundle bit_operations_syntax

section \<open>Writing through a proxy that can fix page faults\<close>

lemma tryTLBs_fixed:
  assumes "running s cid p pr pt" "plain_at s cid (rq_vaddr req)" "hasVaddr req" "rq_flags req = 0" "mode \<noteq> Execute"
    and "pt_translate pt (rq_vaddr req) = None" "fixup cid (rq_vaddr req) mode (warm_at cid s) = Done (s', True)"
    and "running s' cid p pr pt'" "plain_at s' cid (rq_vaddr req)" "pt_translate pt' (rq_vaddr req) = Some y"
  shows "\<exists>req'. tryTLBs fixup cid req mode s = Done (warm_at cid s', req', True) \<and> getPaddr req' = Ok y"
proof -
  have "tryTLBsOnce cid req mode s = Ok (warm_at cid s, req, False)"
    using tryTLBsOnce_eq [OF assms(1-5)] assms(6) by auto
  moreover obtain req' where "tryTLBsOnce cid req mode s' = Ok (warm_at cid s', req', True)" "getPaddr req' = Ok y"
    using tryTLBsOnce_eq [OF assms(8,9,3-5)] assms(10) by auto
  ultimately show ?thesis using assms(3,7) by (simp add: tryTLBs_def getVaddr_Ok)
qed

lemma distinct_byte_addrs: "n \<le> 2 ^ 64 \<Longrightarrow> distinct (byte_addrs a n)"
proof -
  assume n: "n \<le> 2 ^ 64"
  have "inj_on (\<lambda>i. a + of_nat i) {0..<n}"
  proof (rule inj_onI)
    fix i j assume ij: "i \<in> {0..<n}" "j \<in> {0..<n}" "a + of_nat i = a + of_nat j"
    then have "(of_nat i :: addr) = of_nat j" by simp
    moreover have "unat (of_nat i :: addr) = i" "unat (of_nat j :: addr) = j"
      using ij(1,2) n by (auto intro!: unat_of_nat_small)
    ultimately show "i = j" by metis
  qed
  then show ?thesis by (simp add: byte_addrs_def distinct_map)
qed

lemma byte_addrs_apart:
  assumes "m + n \<le> 2 ^ 64"
  shows "set (byte_addrs a m) \<inter> set (byte_addrs (a + of_nat m) n) = {}"
  using distinct_byte_addrs [OF assms, of a] unfolding byte_addrs_append [symmetric] by simp

text \<open>One piece of a write to a page that is mapped in the end.\<close>

lemma mem_write_outside: "(\<forall>i < length bs. z \<noteq> y + of_nat i) \<Longrightarrow> length bs \<le> 2 ^ 64 \<Longrightarrow> mem_write m y bs z = m z"
proof -
  assume a: "\<forall>i < length bs. z \<noteq> y + of_nat i" "length bs \<le> 2 ^ 64"
  have "z = y + of_nat (unat (z - y))" by simp
  then have "\<not> unat (z - y) < length bs" using a(1) by blast
  then show ?thesis by (simp add: mem_write_def)
qed

lemma write_effect:
  assumes "se_ok P s" "running s cid p pr pt" "unat (take_bit 12 a) + length bs \<le> 2 ^ 12" "0 < length bs"
    and "pt_translate pt a = Some y"
  defines "s' \<equiv> s\<lparr>se_mem := mem_write (se_mem s) y bs\<rparr>"
  shows "extends (p_pTable pr) (set (byte_addrs a (length bs))) s s'"
    and "vread pt (se_mem s') a (length bs) = bs"
    and "\<forall>x\<in>set (byte_addrs a (length bs)). pt_translate pt x \<noteq> None"
proof -
  have t: "se_pts s (p_pTable pr) = Some pt" using assms(2) by (simp add: running_def)
  note ok = se_okD(1) [OF assms(1) t]
  have c: "pt_translate pt (a + of_nat i) = Some (y + of_nat i)" if "i < length bs" for i
    by (rule page_contiguous [OF ok assms(3) that assms(5)])
  have len: "length bs \<le> 2 ^ 64" using assms(3) by simp
  have ba: "set (byte_addrs a (length bs)) = (\<lambda>i. a + of_nat i) ` {..<length bs}" by (auto simp: byte_addrs_def)
  show "\<forall>x\<in>set (byte_addrs a (length bs)). pt_translate pt x \<noteq> None" unfolding ba using c by auto
  have "se_mem s' z = se_mem s z" if "\<forall>x\<in>set (byte_addrs a (length bs)). pt_translate pt x \<noteq> Some z" for z
    unfolding s'_def using that c by (auto simp: ba intro!: mem_write_outside [OF _ len])
  then show "extends (p_pTable pr) (set (byte_addrs a (length bs))) s s'"
    using t by (simp add: extends_def s'_def)
  show "vread pt (se_mem s') a (length bs) = bs"
    using vread_piece [OF ok assms(3,5)] read_after_write len by (simp add: s'_def)
qed

lemma vread_kept:
  assumes "se_ok P s'" "se_ok P s" "running s cid p pr pt" "running s' cid p pr pt'" "extends (p_pTable pr) R s s'"
    and "\<forall>x\<in>set (byte_addrs a n). pt_translate pt x \<noteq> None" "set (byte_addrs a n) \<inter> R = {}"
  shows "vread pt' (se_mem s') a n = vread pt (se_mem s) a n"
proof -
  have t: "se_pts s (p_pTable pr) = Some pt" "se_pts s' (p_pTable pr) = Some pt'"
    using assms(3,4) by (simp_all add: running_def)
  have e: "pt_translate pt \<subseteq>\<^sub>m pt_translate pt'"
    "\<And>y. y \<in> owned (se_sys s) \<Longrightarrow> \<forall>x\<in>R. pt_translate pt' x \<noteq> Some y \<Longrightarrow> se_mem s' y = se_mem s y"
    using assms(5) t unfolding extends_def by auto
  have "se_mem s' (the (pt_translate pt' x)) = se_mem s (the (pt_translate pt x))" if x: "x \<in> set (byte_addrs a n)" for x
  proof -
    obtain y where y: "pt_translate pt x = Some y" using assms(6) x by blast
    have y': "pt_translate pt' x = Some y" by (rule map_le_trans1 [OF y e(1)])
    have "\<forall>x'\<in>R. pt_translate pt' x' \<noteq> Some y" using se_okD(5) [OF assms(1) t(2) t(2) y'] assms(7) x by blast
    then show ?thesis using e(2) se_okD(2) [OF assms(2) t(1) y] y y' by simp
  qed
  then show ?thesis by (simp add: vread_def)
qed

locale page_fixer =
  fixes fixup :: fixup and P :: sys_params and can :: "nat \<Rightarrow> addr \<Rightarrow> se \<Rightarrow> bool"
  assumes fixes_page: "se_ok P s \<Longrightarrow> room P (Suc k) (se_sys s) \<Longrightarrow> running s cid p pr pt \<Longrightarrow> plain_at s cid a \<Longrightarrow>
      pt_translate pt a = None \<Longrightarrow> can cid a s \<Longrightarrow>
      \<exists>s' pt'. fixup cid a Write s = Done (s', True) \<and> se_ok P s' \<and> room P k (se_sys s') \<and>
        extends (p_pTable pr) {} s s' \<and> se_pts s' (p_pTable pr) = Some pt' \<and> pt_translate pt' a \<noteq> None"
    and can_extends: "can cid a s \<Longrightarrow> extends t R s s' \<Longrightarrow> can cid a s'"
begin

lemma fixed_TLBs:
  assumes "se_ok P s" "room P (Suc k) (se_sys s)" "running s cid p pr pt" "plain_at s cid a"
    and "pt_translate pt a \<noteq> None \<or> can cid a s" "hasVaddr req" "rq_vaddr req = a" "rq_flags req = 0"
  shows "\<exists>s' pt' req' y. tryTLBs fixup cid req Write s = Done (s', req', True) \<and> getPaddr req' = Ok y \<and> se_ok P s' \<and>
    room P k (se_sys s') \<and> extends (p_pTable pr) {} s s' \<and> running s' cid p pr pt' \<and> pt_translate pt' a = Some y"
proof (cases "pt_translate pt a")
  case (Some y)
  note w = extends_warm_at [OF assms(3), of "{}"]
  show ?thesis
    using tryTLBs_mapped [OF assms(3) _ assms(6,8), of Write y fixup] assms(1-4,7) Some room_Suc [OF assms(2)] w by auto
next
  case None
  let ?s = "warm_at cid s" and ?t = "p_pTable pr"
  note w = extends_warm_at [OF assms(3), of "{}"]
  have can: "can cid a ?s" using can_extends [OF _ w] assms(5) None by blast
  have "se_ok P ?s" "room P (Suc k) (se_sys ?s)" "running ?s cid p pr pt" "plain_at ?s cid a"
    using assms(1-4) by simp_all
  from fixes_page [OF this None can] obtain s1 pt1 where s1: "fixup cid a Write ?s = Done (s1, True)" "se_ok P s1"
    "room P k (se_sys s1)" "extends ?t {} ?s s1" "se_pts s1 ?t = Some pt1" "pt_translate pt1 a \<noteq> None" by blast
  have e: "extends ?t {} s s1" using extends_trans [OF w s1(4)] by simp
  obtain pt2 where r: "running s1 cid p pr pt2" "\<And>a. plain_at s1 cid a = plain_at s cid a"
    by (rule extends_running [OF e assms(3) refl]) blast
  have pt2: "pt2 = pt1" using r(1) s1(5) by (simp add: running_def)
  obtain y where y: "pt_translate pt1 a = Some y" using s1(6) by blast
  obtain req' where "tryTLBs fixup cid req Write s = Done (warm_at cid s1, req', True)" "getPaddr req' = Ok y"
    using tryTLBs_fixed [OF assms(3) _ assms(6,8), of Write fixup s1 pt1 y] assms(4,7) None s1(1) r y pt2 by auto
  moreover have "extends ?t {} s (warm_at cid s1)" using extends_trans [OF e extends_warm_at [OF r(1), of "{}"]] by simp
  ultimately show ?thesis using s1 r(1) pt2 y by (intro exI [of _ "warm_at cid s1"] exI [of _ pt1]) auto
qed

lemma write_step:
  assumes "se_ok P s" "room P (Suc k) (se_sys s)" "running s cid p pr pt" "plain_at s cid a"
    and "pt_translate pt a \<noteq> None \<or> can cid a s" "unat (take_bit 12 a) + n \<le> 2 ^ 12" "0 < n" "n \<le> length q"
  shows "\<exists>s' pt'. write_piece P fixup cid a n (s, q) = Done ((s', drop n q), True) \<and> se_ok P s' \<and> room P k (se_sys s') \<and>
    extends (p_pTable pr) (set (byte_addrs a n)) s s' \<and> running s' cid p pr pt' \<and>
    (\<forall>x\<in>set (byte_addrs a n). pt_translate pt' x \<noteq> None) \<and> vread pt' (se_mem s') a n = take n q"
proof -
  obtain req where req: "proxy_req P cid a n s = Ok req" "hasVaddr req" "rq_vaddr req = a" "rq_flags req = 0"
    using proxy_req_ok [OF assms(3)] by blast
  obtain s1 pt1 req' y where s1: "tryTLBs fixup cid req Write s = Done (s1, req', True)" "getPaddr req' = Ok y" "se_ok P s1"
    "room P k (se_sys s1)" "extends (p_pTable pr) {} s s1" "running s1 cid p pr pt1" "pt_translate pt1 a = Some y"
    using fixed_TLBs [OF assms(1-5) req(2-4)] by blast
  have len: "length (take n q) = n" using assms(8) by simp
  have b: "unat (take_bit 12 a) + length (take n q) \<le> 2 ^ 12" "0 < length (take n q)" using assms(6,7) len by simp_all
  note w = write_effect [OF s1(3,6) b s1(7), unfolded len]
  obtain c where c: "sp_cacheLine P = 2 ^ c" "c < 32" using se_ok_params [OF assms(1)] by (auto simp: plain_params_def)
  have "length (take n q) < 2 ^ 32" using assms(6) len by simp
  then have "writeBlobPhys (sp_cacheLine P) (se_mem s1) y (take n q) = Ok (mem_write (se_mem s1) y (take n q))"
    using writeBlobPhys_eq [OF c(2)] c(1) by simp
  then have "write_piece P fixup cid a n (s, q) = Done ((s1\<lparr>se_mem := mem_write (se_mem s1) y (take n q)\<rparr>, drop n q), True)"
    by (simp add: write_piece_def req s1)
  moreover have "extends (p_pTable pr) (set (byte_addrs a n)) s (s1\<lparr>se_mem := mem_write (se_mem s1) y (take n q)\<rparr>)"
    using extends_trans [OF s1(5) w(1)] by simp
  ultimately show ?thesis
    using s1(3,4,6) w(2,3)
    by (intro exI [of _ "s1\<lparr>se_mem := mem_write (se_mem s1) y (take n q)\<rparr>"] exI [of _ pt1]) simp
qed

lemma write_pieces:
  assumes "consec a cs" "in_pages cs" "sum_list (map snd cs) = length q" "length q < 2 ^ 32"
    and "se_ok P s" "room P (length cs + k) (se_sys s)" "running s cid p pr pt"
    and "\<forall>x\<in>set (byte_addrs a (length q)). plain_at s cid x \<and> (pt_translate pt x \<noteq> None \<or> can cid x s)"
  shows "\<exists>s' pt'. try_pieces (write_piece P fixup cid) cs (s, q) = Done ((s', []), True) \<and> se_ok P s' \<and> room P k (se_sys s') \<and>
    extends (p_pTable pr) (set (byte_addrs a (length q))) s s' \<and> running s' cid p pr pt' \<and>
    (\<forall>x\<in>set (byte_addrs a (length q)). pt_translate pt' x \<noteq> None) \<and> vread pt' (se_mem s') a (length q) = q"
  using assms
proof (induction cs arbitrary: a s q pt)
  case Nil
  then show ?case
    by (intro exI [of _ s] exI [of _ pt]) (auto simp: byte_addrs_def vread_def running_def intro!: extends_refl)
next
  case (Cons bn cs)
  obtain n where bn: "bn = (a, n)" using Cons.prems(1) by (cases bn) simp
  let ?t = "p_pTable pr" and ?q = "drop n q"
  define m where "m = length q - n"
  have n: "0 < n" "unat (take_bit 12 a) + n \<le> 2 ^ 12" "n \<le> length q" "length ?q = m"
    using Cons.prems(2,3) bn by (simp_all add: m_def)
  have q: "length q = n + m" using n(3) by (simp add: m_def)
  let ?R1 = "set (byte_addrs a n)" and ?R2 = "set (byte_addrs (a + of_nat n) m)"
  have R: "set (byte_addrs a (length q)) = ?R1 \<union> ?R2" unfolding q byte_addrs_append [symmetric] by simp
  have dis: "?R1 \<inter> ?R2 = {}" using byte_addrs_apart [of n m a] q Cons.prems(4) by simp
  have all: "\<forall>x\<in>?R1 \<union> ?R2. plain_at s cid x \<and> (pt_translate pt x \<noteq> None \<or> can cid x s)" using Cons.prems(8) unfolding R .
  have rm: "room P (Suc (length cs + k)) (se_sys s)" using Cons.prems(6) by simp
  have a: "plain_at s cid a" "pt_translate pt a \<noteq> None \<or> can cid a s" using all byte_addrs_hd [OF n(1), of a] by blast+
  obtain s1 pt1 where s1: "write_piece P fixup cid a n (s, q) = Done ((s1, ?q), True)" "se_ok P s1"
    "room P (length cs + k) (se_sys s1)" "extends ?t ?R1 s s1" "running s1 cid p pr pt1"
    "\<forall>x\<in>?R1. pt_translate pt1 x \<noteq> None" "vread pt1 (se_mem s1) a n = take n q"
    using write_step [OF Cons.prems(5) rm Cons.prems(7) a n(2,1,3)] by blast
  have pl: "\<And>x. plain_at s1 cid x = plain_at s cid x" "pt_translate pt \<subseteq>\<^sub>m pt_translate pt1"
    by (rule extends_running [OF s1(4) Cons.prems(7) refl], use s1(5) in \<open>simp add: running_def\<close>)+
  have all1: "\<forall>x\<in>?R2. plain_at s1 cid x \<and> (pt_translate pt1 x \<noteq> None \<or> can cid x s1)"
    using all pl can_extends [OF _ s1(4)] map_le_trans1 [OF _ pl(2)] by (metis UnCI not_None_eq)
  have c: "consec (a + of_nat n) cs" "in_pages cs" "sum_list (map snd cs) = length ?q" "length ?q < 2 ^ 32"
    using Cons.prems(1-4) by (simp_all add: bn)
  note all1 = all1 [folded n(4)]
  obtain s2 pt2 where s2: "try_pieces (write_piece P fixup cid) cs (s1, ?q) = Done ((s2, []), True)" "se_ok P s2"
    "room P k (se_sys s2)" "extends ?t ?R2 s1 s2" "running s2 cid p pr pt2"
    "\<forall>x\<in>?R2. pt_translate pt2 x \<noteq> None" "vread pt2 (se_mem s2) (a + of_nat n) m = ?q"
    using Cons.IH [OF c s1(2,3,5) all1] unfolding n(4) by blast
  have le: "pt_translate pt1 \<subseteq>\<^sub>m pt_translate pt2"
    by (rule extends_running [OF s2(4) s1(5) refl], use s2(5) in \<open>simp add: running_def\<close>)
  have "vread pt2 (se_mem s2) a n = vread pt1 (se_mem s1) a n"
    by (rule vread_kept [OF s2(2) s1(2,5) s2(5,4) s1(6) dis])
  then have "vread pt2 (se_mem s2) a (length q) = q" using s1(7) s2(7) unfolding q vread_append [symmetric] by simp
  moreover have "extends ?t (set (byte_addrs a (length q))) s s2" unfolding R by (rule extends_trans [OF s1(4) s2(4)])
  moreover have "\<forall>x\<in>set (byte_addrs a (length q)). pt_translate pt2 x \<noteq> None"
    unfolding R using s2(6) s1(6) map_le_trans1 [OF _ le] by (metis UnE not_None_eq)
  ultimately show ?case using s1(1) s2 by (intro exI [of _ s2] exI [of _ pt2]) (simp add: bn)
qed

end

context page_fixer
begin

lemma write_blob:
  assumes "se_ok P s" "room P (length bs div 4096 + 2 + k) (se_sys s)" "running s cid p pr pt" "length bs < 2 ^ 32"
    and "\<forall>x\<in>set (byte_addrs a (length bs)). plain_at s cid x \<and> (pt_translate pt x \<noteq> None \<or> can cid x s)"
  shows "\<exists>s' pt'. tryWriteBlob P fixup cid a bs s = Done (s', True) \<and> se_ok P s' \<and> room P k (se_sys s') \<and>
    extends (p_pTable pr) (set (byte_addrs a (length bs))) s s' \<and> running s' cid p pr pt' \<and>
    (\<forall>x\<in>set (byte_addrs a (length bs)). pt_translate pt' x \<noteq> None) \<and> vread pt' (se_mem s') a (length bs) = bs"
proof -
  obtain cs where cs: "try_chunks a (length bs) (write_piece P fixup cid) = try_pieces (write_piece P fixup cid) cs"
    "consec a cs" "sum_list (map snd cs) = length bs" "in_pages cs" "length cs \<le> length bs div 4096 + 2"
    by (rule try_chunks_pieces [OF assms(4)])
  have "room P (length cs + k) (se_sys s)" by (rule room_mono [OF assms(2)]) (use cs(5) in simp)
  from write_pieces [OF cs(2,4,3) assms(4,1) this assms(3,5)] show ?thesis
    by (auto simp: tryWriteBlob_def cs(1))
qed

end

lemma page_start: "take_bit 12 (a - take_bit 12 a :: addr) = 0" "a \<in> page_span 12 (a - take_bit 12 a) 1"
proof -
  show "take_bit 12 (a - take_bit 12 a) = 0" by (rule take_bit_aligned)
  have "unat (take_bit 12 a) < 2 ^ 12" by (simp only: unat_take_bit) simp
  then show "a \<in> page_span 12 (a - take_bit 12 a) 1" by (simp add: page_span_def)
qed

lemma roundDown_page: "roundDown a PageBytes = Ok (a - take_bit 12 a)" "roundDown a 4096 = Ok (a - take_bit 12 a)"
proof -
  have "roundDown a 4096 = Ok (a AND NOT (mask 12))" by (simp add: roundDown_def isPowerOf2_def mask_eq_exp_minus_1)
  then show "roundDown a 4096 = Ok (a - take_bit 12 a)" by (simp only: and_not_mask_minus)
  then show "roundDown a PageBytes = Ok (a - take_bit 12 a)" by (simp add: PageBytes_def PageShift_def)
qed

lemma unmapped_start:
  assumes "pt_ok 12 pt" "pt_translate pt a = None"
  shows "pt_translate pt (a - take_bit 12 a) = None"
  using page_all(2) [OF assms(1) page_start(1), of a] page_start(2) [of a] assms(2) by blast

interpretation always: page_fixer "fixup_always P" P "\<lambda>_ _ _. True" for P
proof (unfold_locales, goal_cases)
  case (1 s k cid p pr pt a)
  let ?v = "a - take_bit 12 a"
  have r: "cid < length (se_threads s)" "th_process (se_threads s ! cid) = p" "se_procs s p = Some pr"
    "se_pts s (p_pTable pr) = Some pt"
    using 1(3) by (simp_all add: running_def)
  note un = unmapped_start [OF se_okD(1) [OF 1(1) r(4)] 1(5)]
  obtain s' pt' where s': "allocateMem P p ?v 4096 False s = Ok s'" "se_ok P s'" "room P k (se_sys s')"
    "extends (p_pTable pr) {} s s'" "se_pts s' (p_pTable pr) = Some pt'"
    "\<forall>x. pt_translate pt' x \<noteq> None \<longleftrightarrow> pt_translate pt x \<noteq> None \<or> x \<in> page_span 12 ?v 1"
    using allocateMem_ok [OF 1(1,2) r(3,4) page_start(1) un] by blast
  have "fixup_always P cid a Write s = Done (s', True)"
    using r s'(1) roundDown_page(1) by (simp add: fixup_always_def thread_at_def PageBytes_def PageShift_def)
  moreover have "pt_translate pt' a \<noteq> None" using s'(6) page_start(2) [of a] by blast
  ultimately show ?case using s' by blast
qed simp

end
