(* ===== verification/Page_Fault.thy ===== *)
theory Page_Fault
  imports Proxy
begin

text \<open>
  Page faults: \<open>MemState::fixupFault\<close> of \<open>src/sim/mem_state.cc\<close> for an address in an area, in the stack and below the
  stack, and the proxy that calls it as the second interpretation of \<open>page_fixer\<close>.
\<close>

unbundle bit_operations_syntax

text \<open>A process whose memory state and threads belong together.\<close>

definition served :: "se \<Rightarrow> nat \<Rightarrow> process \<Rightarrow> mem_state \<Rightarrow> bool" where
  "served s p pr ms \<longleftrightarrow> se_procs s p = Some pr \<and> se_mss s (p_memState pr) = Some ms \<and> ms_ownerProcess ms = p \<and>
     ms_pageBytes ms = 4096 \<and> vmas_ok (2 ^ 12) (ms_vmaList ms) \<and>
     (\<forall>c\<in>set (p_contextIds pr). c < length (se_threads s) \<and> th_process (se_threads s ! c) = p \<and> th_ready (se_threads s ! c))"

text \<open>Addresses that a page fault of a process can provide with a page.\<close>

definition can_fault :: "nat \<Rightarrow> addr \<Rightarrow> se \<Rightarrow> bool" where
  "can_fault cid a s \<longleftrightarrow> (\<exists>pr ms. served s (th_process (se_threads s ! cid)) pr ms \<and>
     (a \<in> covered (ms_vmaList ms) \<or> ms_stackMin ms \<le> a \<and> a < ms_stackBase ms) \<and>
     (\<forall>c\<in>set (p_contextIds pr). \<forall>x\<in>page_span 12 (a - take_bit 12 a) 1. plain_at s c x) \<and> cid < length (se_threads s))"

section \<open>Page faults\<close>

lemma extends_fresh:
  assumes "extends t {} s s1" "extends t R s1 s2" "se_pts s2 t = Some pt2"
    and "\<And>x y. x \<in> R \<Longrightarrow> pt_translate pt2 x = Some y \<Longrightarrow> y \<notin> owned (se_sys s)"
  shows "extends t {} s s2"
proof -
  have e: "extends t R s s2" using extends_trans [OF assms(1,2)] by simp
  obtain pt where pt: "se_pts s t = Some pt" "pt_translate pt \<subseteq>\<^sub>m pt_translate pt2"
    "\<forall>y\<in>owned (se_sys s). (\<forall>x\<in>R. pt_translate pt2 x \<noteq> Some y) \<longrightarrow> se_mem s2 y = se_mem s y"
    using e assms(3) unfolding extends_def by auto
  have "\<forall>y\<in>owned (se_sys s). se_mem s2 y = se_mem s y" using pt(3) assms(4) by blast
  then show ?thesis using e pt assms(3) unfolding extends_def by auto
qed

lemma extends_mono: "extends t R s s' \<Longrightarrow> R \<subseteq> R' \<Longrightarrow> extends t R' s s'"
  unfolding extends_def by blast

lemma page_top:
  assumes "take_bit 12 (page :: addr) = 0" "i < 4096"
  shows "unat page + i < 2 ^ 64"
proof -
  have "unat page mod 4096 = 0" using unat_take_bit [of 12 page] assms(1) by simp
  then obtain q where q: "unat page = 4096 * q" by (auto elim: dvdE)
  have "unat page < 4096 * 2 ^ 52" using unat_64 [of page] by simp
  then have "q < 2 ^ 52" unfolding q by simp
  then show ?thesis using q assms(2) by simp
qed

lemma fill_page:
  assumes "se_ok P s" "vma_wf v" "hasHostBuf v" "page \<in> vma_set v" "v_pageBytes v = 4096" "take_bit 12 page = 0"
    and "running s c p pr pt" "pt_translate pt page = Some y" "\<forall>x\<in>page_span 12 page 1. plain_at s c x"
  shows "\<exists>s'. fillMemPages (writeBlob P (fixup_always P) c) page sz v s = Done s' \<and> se_ok P s' \<and>
    se_sys s' = se_sys s \<and> se_pts s' = se_pts s \<and> extends (p_pTable pr) (page_span 12 page 1) s s' \<and>
    (\<forall>i<4096. \<forall>b. file_byte v (page + of_nat i) = Some b \<longrightarrow> se_mem s' (y + of_nat i) = b)"
proof -
  obtain bs where bs: "fillMemPages (writeBlob P (fixup_always P) c) page sz v s =
      (if bs = [] then Done s else writeBlob P (fixup_always P) c page bs s)" "length bs \<le> 4096"
    "\<And>i. i < 4096 \<Longrightarrow> unat page + i < 2 ^ 64 \<Longrightarrow> file_byte v (page + of_nat i) = (if i < length bs then Some (bs ! i) else None)"
    using fillMemPages_bytes [OF assms(2-4), of "writeBlob P (fixup_always P) c" sz s] assms(5) by auto
  have t: "se_pts s (p_pTable pr) = Some pt" using assms(7) by (simp add: running_def)
  note ok = se_okD(1) [OF assms(1) t]
  obtain c' where c': "sp_cacheLine P = 2 ^ c'" "c' < 32" using se_ok_params [OF assms(1)] by (auto simp: plain_params_def)
  have top: "unat page + i < 2 ^ 64" if "i < 4096" for i by (rule page_top [OF assms(6) that])
  have sub: "set (byte_addrs page (length bs)) \<subseteq> page_span 12 page 1"
    using bs(2) by (auto simp: byte_addrs_def page_span_def unat_of_nat_small)
  have map: "\<forall>x\<in>page_span 12 page 1. pt_translate pt x \<noteq> None" using page_all(2) [OF ok assms(6)] assms(8) by blast
  show ?thesis
  proof (cases "bs = []")
    case True
    then show ?thesis using bs assms(1) t top by (intro exI [of _ s]) (auto intro!: extends_refl)
  next
    case False
    have blk: "unat (take_bit 12 page) + length bs \<le> 2 ^ 12" "0 < length bs" using bs(2) assms(6) False by simp_all
    let ?s = "s\<lparr>se_mem := mem_write (se_mem s) y bs\<rparr>"
    note w = write_effect [OF assms(1,7) blk assms(8)]
    have r: "running ?s c p pr pt" using assms(7) by simp
    have "tryWriteBlob P (fixup_always P) c page bs s = Done (warm_at c ?s, True)"
      using tryWriteBlob_mapped [OF assms(7) ok c', of bs page "fixup_always P"] assms(9) map sub bs(2) False
        vwrite_piece [OF ok blk(1) assms(8)] by (auto simp: subset_iff)
    then have "fillMemPages (writeBlob P (fixup_always P) c) page sz v s = Done (warm_at c ?s)"
      using bs(1) False by (simp add: writeBlob_def)
    moreover have "extends (p_pTable pr) (page_span 12 page 1) s (warm_at c ?s)"
      using extends_trans [OF extends_mono [OF w(1) sub] extends_warm_at [OF r, of "{}"]] by simp
    moreover have "mem_write (se_mem s) y bs (y + of_nat i) = b" if "i < 4096" "file_byte v (page + of_nat i) = Some b" for i b
      using bs(3) [OF that(1) top [OF that(1)]] that by (simp add: mem_write_def unat_of_nat_small split: if_splits)
    ultimately show ?thesis using assms(1) by (intro exI [of _ "warm_at c ?s"]) simp
  qed
qed

lemma fill_threads_ok:
  assumes "se_ok P s" "vma_wf v" "hasHostBuf v" "page \<in> vma_set v" "v_pageBytes v = 4096" "take_bit 12 page = 0"
    and "se_pts s (p_pTable pr) = Some pt" "pt_translate pt page = Some y"
    and "\<forall>c\<in>set cids. running s c p pr pt \<and> (\<forall>x\<in>page_span 12 page 1. plain_at s c x)"
  shows "\<exists>s'. fill_threads P v page cids s = Done s' \<and> se_ok P s' \<and>
    se_sys s' = se_sys s \<and> se_pts s' = se_pts s \<and> extends (p_pTable pr) (page_span 12 page 1) s s' \<and>
    (cids \<noteq> [] \<longrightarrow> (\<forall>i<4096. \<forall>b. file_byte v (page + of_nat i) = Some b \<longrightarrow> se_mem s' (y + of_nat i) = b))"
  using assms(1,7,9)
proof (induction cids arbitrary: s)
  case Nil
  then show ?case by (intro exI [of _ s]) (auto intro!: extends_refl)
next
  case (Cons c cids)
  have c: "running s c p pr pt" "\<forall>x\<in>page_span 12 page 1. plain_at s c x" using Cons.prems(3) by simp_all
  obtain s1 where s1: "fillMemPages (writeBlob P (fixup_always P) c) page (v_pageBytes v) v s = Done s1" "se_ok P s1"
    "se_sys s1 = se_sys s" "se_pts s1 = se_pts s" "extends (p_pTable pr) (page_span 12 page 1) s s1"
    "\<forall>i<4096. \<forall>b. file_byte v (page + of_nat i) = Some b \<longrightarrow> se_mem s1 (y + of_nat i) = b"
    using fill_page [OF Cons.prems(1) assms(2-6) c(1) assms(8) c(2)] by blast
  have t1: "se_pts s1 (p_pTable pr) = Some pt" using s1(4) Cons.prems(2) by simp
  have cs1: "\<forall>c\<in>set cids. running s1 c p pr pt \<and> (\<forall>x\<in>page_span 12 page 1. plain_at s1 c x)"
  proof
    fix d assume "d \<in> set cids"
    then have d: "running s d p pr pt" "\<forall>x\<in>page_span 12 page 1. plain_at s d x" using Cons.prems(3) by simp_all
    obtain pt1 where "running s1 d p pr pt1" "\<And>a. plain_at s1 d a = plain_at s d a"
      by (rule extends_running [OF s1(5) d(1) refl]) blast
    then show "running s1 d p pr pt \<and> (\<forall>x\<in>page_span 12 page 1. plain_at s1 d x)" using t1 d(2) by (simp add: running_def)
  qed
  obtain s2 where s2: "fill_threads P v page cids s1 = Done s2" "se_ok P s2" "se_sys s2 = se_sys s1" "se_pts s2 = se_pts s1"
    "extends (p_pTable pr) (page_span 12 page 1) s1 s2"
    "cids \<noteq> [] \<longrightarrow> (\<forall>i<4096. \<forall>b. file_byte v (page + of_nat i) = Some b \<longrightarrow> se_mem s2 (y + of_nat i) = b)"
    using Cons.IH [OF s1(2) t1 cs1] by blast
  have "\<forall>i<4096. \<forall>b. file_byte v (page + of_nat i) = Some b \<longrightarrow> se_mem s2 (y + of_nat i) = b"
    using s1(6) s2(1,6) by (cases "cids = []") auto
  moreover have "extends (p_pTable pr) (page_span 12 page 1) s s2" using extends_trans [OF s1(5) s2(5)] by simp
  ultimately show ?case using s1(1,3,4) s2(1-4) by (intro exI [of _ s2]) simp
qed

lemma vmas_okD: "vmas_ok pb vs \<Longrightarrow> v \<in> set vs \<Longrightarrow> vma_wf v \<and> v_pageBytes v = pb"
  by (simp add: vmas_ok_def)

lemma find_area:
  assumes "vmas_ok pb vs" "a \<in> covered vs"
  obtains v where "find (\<lambda>v. v_contains v a) vs = Some v" "v \<in> set vs" "a \<in> vma_set v"
proof -
  have wf: "\<And>v. v \<in> set vs \<Longrightarrow> v_contains v a \<longleftrightarrow> a \<in> vma_set v"
    using vmas_okD [OF assms(1)] v_contains_wf by (simp add: vma_set_def)
  obtain w where w: "w \<in> set vs" "v_contains w a" using assms(2) wf by (auto simp: covered_def)
  then obtain v where v: "find (\<lambda>v. v_contains v a) vs = Some v"
    by (cases "find (\<lambda>v. v_contains v a) vs") (auto simp: find_None_iff)
  then have "v \<in> set vs" "v_contains v a" by (auto simp: find_Some_iff)
  with v wf that show thesis by blast
qed

lemma page_member:
  assumes "take_bit 12 (p :: addr) = 0" "x \<in> page_span 12 p 1"
  shows "unat x = unat p + unat (x - p)" "unat (x - p) < 4096"
proof -
  show u: "unat (x - p) < 4096" using assms(2) by (simp add: page_span_def)
  have "unat (p + (x - p)) = unat p + unat (x - p)"
    using page_top [OF assms(1) u] by (intro unat_add_lem [THEN iffD1]) simp
  then show "unat x = unat p + unat (x - p)" by simp
qed

lemma aligned_page_le:
  assumes "take_bit 12 (b :: addr) = 0"
  shows "b \<le> a \<Longrightarrow> b \<le> a - take_bit 12 a" and "a < b \<Longrightarrow> x \<in> page_span 12 (a - take_bit 12 a) 1 \<Longrightarrow> x < b"
    and "b \<le> a \<Longrightarrow> x \<in> page_span 12 (a - take_bit 12 a) 1 \<Longrightarrow> b \<le> x"
proof -
  let ?p = "a - take_bit 12 a"
  obtain q where q: "unat b = 4096 * q" using unat_take_bit [of 12 b] assms by (auto elim: dvdE)
  have "take_bit 12 a \<le> a" by (simp add: word_le_nat_alt unat_take_bit del: unsigned_take_bit_eq)
  then have "unat ?p = unat a - unat a mod 4096" by (simp add: unat_sub word_le_nat_alt) (simp only: unat_take_bit, simp)
  then have p: "unat ?p = 4096 * (unat a div 4096)" by (simp add: minus_mod_eq_mult_div)
  show 1: "b \<le> a \<Longrightarrow> b \<le> ?p"
  proof -
    assume "b \<le> a"
    then have "4096 * q \<le> unat a" using q by (simp add: word_le_nat_alt)
    then have "q \<le> unat a div 4096" by (simp add: less_eq_div_iff_mult_less_eq mult.commute)
    then show "b \<le> ?p" by (simp add: word_le_nat_alt p q)
  qed
  note x = page_member [OF page_start(1) [of a]]
  show "b \<le> a \<Longrightarrow> x \<in> page_span 12 ?p 1 \<Longrightarrow> b \<le> x" using 1 x by (fastforce simp: word_le_nat_alt)
  assume "a < b" "x \<in> page_span 12 ?p 1"
  then have "unat a < 4096 * q" using q by (simp add: word_less_nat_alt)
  then have "unat a div 4096 < q" by (simp add: less_mult_imp_div_less mult.commute)
  then have "4096 * (unat a div 4096) + 4096 \<le> 4096 * q" by simp
  then show "x < b" using x [OF \<open>x \<in> _\<close>] p q by (simp add: word_less_nat_alt)
qed

lemma page_in_area:
  assumes "vma_wf v" "v_pageBytes v = 2 ^ 12" "a \<in> vma_set v"
  shows "page_span 12 (a - take_bit 12 a) 1 \<subseteq> vma_set v"
proof -
  have al: "take_bit 12 (v_start v) = 0" "take_bit 12 (v_end v) = 0"
    using assms(1) unfolding vma_wf_def assms(2) aligned_pow2 by blast+
  show ?thesis using aligned_page_le(2) [OF al(2)] aligned_page_le(3) [OF al(1)] assms(3) by (auto simp: vma_set_def)
qed

lemma area_unique:
  "vmas_ok pb vs \<Longrightarrow> v \<in> set vs \<Longrightarrow> w \<in> set vs \<Longrightarrow> x \<in> vma_set v \<Longrightarrow> x \<in> vma_set w \<Longrightarrow> w = v"
  by (induction vs) (auto simp: vmas_ok_simps covered_def)

lemma running_served:
  assumes "served s p pr ms" "se_pts s (p_pTable pr) = Some pt" "c \<in> set (p_contextIds pr)"
  shows "running s c p pr pt"
  using assms by (simp add: served_def running_def)

lemma fixupFault_area:
  assumes "se_ok P s" "room P (Suc k) (se_sys s)" "served s p pr ms" "se_pts s (p_pTable pr) = Some pt"
    and "a \<in> covered (ms_vmaList ms)" "pt_translate pt a = None"
    and "\<forall>c\<in>set (p_contextIds pr). \<forall>x\<in>page_span 12 (a - take_bit 12 a) 1. plain_at s c x"
  shows "\<exists>s' pt'. fixupFault P p a s = Done (s', True) \<and> se_ok P s' \<and> room P k (se_sys s') \<and> extends (p_pTable pr) {} s s' \<and>
    se_pts s' (p_pTable pr) = Some pt' \<and>
    (\<forall>x. pt_translate pt' x \<noteq> None \<longleftrightarrow> pt_translate pt x \<noteq> None \<or> x \<in> page_span 12 (a - take_bit 12 a) 1) \<and>
    (\<forall>x\<in>page_span 12 (a - take_bit 12 a) 1. \<forall>n b. (x, n, Some b) \<in> areas (ms_vmaList ms) \<longrightarrow> p_contextIds pr \<noteq> [] \<longrightarrow>
       se_mem s' (the (pt_translate pt' x)) = b)"
proof -
  let ?v = "a - take_bit 12 a" and ?t = "p_pTable pr" and ?vs = "ms_vmaList ms"
  have sv: "se_procs s p = Some pr" "se_mss s (p_memState pr) = Some ms" "ms_ownerProcess ms = p" "ms_pageBytes ms = 4096"
    "vmas_ok (2 ^ 12) ?vs" using assms(3) by (simp_all add: served_def)
  obtain v where v: "find (\<lambda>v. v_contains v a) ?vs = Some v" "v \<in> set ?vs" "a \<in> vma_set v"
    by (rule find_area [OF sv(5) assms(5)])
  have wf: "vma_wf v" "v_pageBytes v = 2 ^ 12" using vmas_okD [OF sv(5) v(2)] by simp_all
  note sub = page_in_area [OF wf v(3)]
  note un = unmapped_start [OF se_okD(1) [OF assms(1,4)] assms(6)]
  obtain s1 pt1 where s1: "allocateMem P p ?v 4096 False s = Ok s1" "se_ok P s1" "room P k (se_sys s1)"
    "extends ?t {} s s1" "se_threads s1 = se_threads s" "se_pts s1 ?t = Some pt1"
    "\<forall>x. pt_translate pt1 x \<noteq> None \<longleftrightarrow> pt_translate pt x \<noteq> None \<or> x \<in> page_span 12 ?v 1"
    "\<forall>x\<in>page_span 12 ?v 1. the (pt_translate pt1 x) \<notin> owned (se_sys s)"
    using allocateMem_ok [OF assms(1,2) sv(1) assms(4) page_start(1) un] by blast
  have pr1: "se_procs s1 = se_procs s" using s1(4) by (simp add: extends_def)
  have fx: "fixupFault P p a s = (if hasHostBuf v then bind_run (fill_threads P v ?v (p_contextIds pr) s1) (\<lambda>s. Done (s, True))
      else Done (s1, True))"
    using sv v(1) s1(1) by (simp add: fixupFault_def ms_fixupFault_def deref_def roundDown_page(2) pr1)
  have byte: "file_byte v x = Some b" if "x \<in> page_span 12 ?v 1" "(x, n, Some b) \<in> areas ?vs" for x n b
    using that sub area_unique [OF sv(5) v(2)] by (fastforce simp: areas_def area_def)
  show ?thesis
  proof (cases "hasHostBuf v")
    case False
    then have "file_byte v x = None" for x by (simp add: hasHostBuf_def file_byte_def)
    then have "(x, n, Some b) \<notin> areas ?vs" if "x \<in> page_span 12 ?v 1" for x n b using byte [OF that] by force
    then show ?thesis using fx False s1 by (intro exI [of _ s1] exI [of _ pt1]) auto
  next
    case True
    have st: "?v \<in> vma_set v" using sub by (auto simp: page_span_def)
    have "?v \<in> page_span 12 ?v 1" by (simp add: page_span_def)
    then obtain y where y: "pt_translate pt1 ?v = Some y" using s1(7) by blast
    have cs: "\<forall>c\<in>set (p_contextIds pr). running s1 c p pr pt1 \<and> (\<forall>x\<in>page_span 12 ?v 1. plain_at s1 c x)"
      using running_served [OF assms(3,4)] assms(7) s1(5,6) pr1 by (simp add: running_def)
    obtain s2 where s2: "fill_threads P v ?v (p_contextIds pr) s1 = Done s2" "se_ok P s2" "se_sys s2 = se_sys s1"
      "se_pts s2 = se_pts s1" "extends ?t (page_span 12 ?v 1) s1 s2"
      "p_contextIds pr \<noteq> [] \<longrightarrow> (\<forall>i<4096. \<forall>b. file_byte v (?v + of_nat i) = Some b \<longrightarrow> se_mem s2 (y + of_nat i) = b)"
      using fill_threads_ok [OF s1(2) wf(1) True st _ page_start(1) s1(6) y cs] wf(2) by auto
    have t2: "se_pts s2 ?t = Some pt1" using s2(4) s1(6) by simp
    have "extends ?t {} s s2"
      by (rule extends_fresh [OF s1(4) s2(5) t2]) (use s1(8) in fastforce)
    moreover have "se_mem s2 (the (pt_translate pt1 x)) = b"
      if x: "x \<in> page_span 12 ?v 1" "(x, n, Some b) \<in> areas ?vs" "p_contextIds pr \<noteq> []" for x n b
    proof -
      define i where "i = unat (x - ?v)"
      have i: "i < 4096" "x = ?v + of_nat i" using x(1) by (simp_all add: page_span_def i_def)
      have "pt_translate pt1 (?v + of_nat i) = Some (y + of_nat i)"
        using page_start(1) [of a] i(1) by (intro page_contiguous [OF se_okD(1) [OF s1(2,6)] _ i(1) y]) simp
      then show ?thesis using s2(6) x(3) byte [OF x(1,2)] i by simp
    qed
    ultimately show ?thesis using fx True s2(1-3) s1(3,7) t2 by (intro exI [of _ s2] exI [of _ pt1]) auto
  qed
qed

lemma fixupFault_stack:
  assumes "se_ok P s" "room P (Suc k) (se_sys s)" "served s p pr ms" "se_pts s (p_pTable pr) = Some pt"
    and "a \<notin> covered (ms_vmaList ms)" "ms_stackMin ms \<le> a" "a < ms_stackBase ms" "pt_translate pt a = None"
  shows "\<exists>s' pt'. fixupFault P p a s = Done (s', True) \<and> se_ok P s' \<and> room P k (se_sys s') \<and> extends (p_pTable pr) {} s s' \<and>
    se_pts s' (p_pTable pr) = Some pt' \<and>
    (\<forall>x. pt_translate pt' x \<noteq> None \<longleftrightarrow> pt_translate pt x \<noteq> None \<or> x \<in> page_span 12 (a - take_bit 12 a) 1)"
proof -
  have sv: "se_procs s p = Some pr" "se_mss s (p_memState pr) = Some ms" "ms_ownerProcess ms = p" "ms_pageBytes ms = 4096"
    "vmas_ok (2 ^ 12) (ms_vmaList ms)" using assms(3) by (simp_all add: served_def)
  have none: "find (\<lambda>v. v_contains v a) (ms_vmaList ms) = None"
    using assms(5) vmas_okD [OF sv(5)] v_contains_wf by (auto simp: find_None_iff covered_def)
  note un = unmapped_start [OF se_okD(1) [OF assms(1,4)] assms(8)]
  obtain s1 pt1 where s1: "allocateMem P p (a - take_bit 12 a) 4096 False s = Ok s1" "se_ok P s1" "room P k (se_sys s1)"
    "extends (p_pTable pr) {} s s1" "se_pts s1 (p_pTable pr) = Some pt1"
    "\<forall>x. pt_translate pt1 x \<noteq> None \<longleftrightarrow> pt_translate pt x \<noteq> None \<or> x \<in> page_span 12 (a - take_bit 12 a) 1"
    using allocateMem_ok [OF assms(1,2) sv(1) assms(4) page_start(1) un] by blast
  have "fixupFault P p a s = Done (s1, True)"
    using sv none s1(1) assms(6,7) by (simp add: fixupFault_def ms_fixupFault_def deref_def roundDown_page(2))
  then show ?thesis using s1 by blast
qed

lemma stack_page:
  fixes page :: addr
  assumes "take_bit 12 page = 0" "unat page + Suc n * 4096 < 2 ^ 64"
  defines "new \<equiv> page + of_nat n * 4096" and "old \<equiv> page + of_nat (Suc n) * 4096"
  shows "unat new = unat page + n * 4096" and "unat old = unat page + Suc n * 4096" and "old - 4096 = new"
    and "take_bit 12 new = 0" and "page_span 12 new 1 = {new..<old}" and "{page..<old} = {page..<new} \<union> {new..<old}"
proof -
  have u: "unat (page + of_nat j * 4096) = unat page + j * 4096" if "j \<le> Suc n" for j
  proof -
    have j: "unat page + j * 4096 < 18446744073709551616" using that assms(2) by simp
    then have "unat (of_nat j * 4096 :: addr) = j * 4096"
      using unat_of_nat_small [where 'a = 64, of "j * 4096"] by (simp add: mult.commute)
    then show ?thesis using j by (simp add: unat_word_ariths)
  qed
  show 1: "unat new = unat page + n * 4096" "unat old = unat page + Suc n * 4096"
    using u [of n] u [of "Suc n"] by (simp_all add: new_def old_def)
  show 3: "old - 4096 = new" by (simp add: old_def new_def algebra_simps)
  have "unat page mod 4096 = 0" using unat_take_bit [of 12 page] assms(1) by simp
  then have "unat (take_bit 12 new) = 0" by (simp only: unat_take_bit 1) simp
  then show "take_bit 12 new = 0" by (simp add: unat_eq_0)
  have "new + 4096 = old" using 3 by (simp add: algebra_simps)
  moreover have "new < old" using 1 by (simp add: word_less_nat_alt)
  ultimately show "page_span 12 new 1 = {new..<old}" using span_interval [of new 4096 1 12] by simp
  have "page \<le> new" "new \<le> old" using 1 by (simp_all add: word_le_nat_alt)
  then show "{page..<old} = {page..<new} \<union> {new..<old}" by (rule ivl_disj_un_two(3) [symmetric])
qed

lemma sub_le_bound:
  assumes "unat a \<le> unat b" "unat b \<le> unat (c :: addr)" "c - a \<le> d"
  shows "\<not> d < c - b" and "b \<le> c"
  using assms by (simp_all add: word_le_nat_alt word_less_nat_alt unat_sub)

lemma grow_stack_ok:
  assumes "take_bit 12 page = 0" "a \<in> page_span 12 page 1"
    and "se_ok P s" "room P (n + k) (se_sys s)" "se_mss s mid = Some ms" "ms_ownerProcess ms = p" "ms_pageBytes ms = 4096"
    and "se_procs s p = Some pr" "se_pts s (p_pTable pr) = Some pt" "ms_stackMin ms = page + of_nat n * 4096"
    and "unat page + n * 4096 < 2 ^ 64"
    and "ms_stackMin ms \<le> ms_stackBase ms" "ms_stackBase ms - page \<le> ms_maxStackSize ms"
    and "\<forall>x\<in>{page..<ms_stackMin ms}. pt_translate pt x = None"
  shows "\<exists>s' pt'. grow_stack P mid a s = Done s' \<and> se_ok P s' \<and> room P k (se_sys s') \<and>
    extends (p_pTable pr) {} (s\<lparr>se_mss := (se_mss s)(mid \<mapsto> ms\<lparr>ms_stackMin := page\<rparr>)\<rparr>) s' \<and>
    se_pts s' (p_pTable pr) = Some pt' \<and>
    (\<forall>x. pt_translate pt' x \<noteq> None \<longleftrightarrow> pt_translate pt x \<noteq> None \<or> x \<in> {page..<ms_stackMin ms})"
  using assms(3-)
proof (induction n arbitrary: s ms pt)
  case 0
  have m: "ms_stackMin ms = page" using 0(8) by simp
  have "\<not> a < page" using page_member(1) [OF assms(1,2)] by (simp add: word_less_nat_alt)
  then have "grow_stack P mid a s = Done s" using 0(3) m by (subst grow_stack.simps) (simp add: deref_def)
  moreover have "ms\<lparr>ms_stackMin := page\<rparr> = ms" using m by simp
  then have "s\<lparr>se_mss := (se_mss s)(mid \<mapsto> ms\<lparr>ms_stackMin := page\<rparr>)\<rparr> = s" using 0(3) by (simp add: fun_upd_idem)
  ultimately show ?case
    using 0(1,2,7) m extends_refl [OF 0(7), of "{}"] by (intro exI [of _ s] exI [of _ pt]) (simp del: fun_upd_apply)
next
  case (Suc n)
  let ?new = "page + of_nat n * 4096" and ?t = "p_pTable pr"
  let ?ms = "ms\<lparr>ms_stackMin := ?new\<rparr>"
  let ?s = "s\<lparr>se_mss := (se_mss s)(mid \<mapsto> ?ms)\<rparr>"
  note sp = stack_page [OF assms(1) Suc.prems(9), folded Suc.prems(8)]
  have "unat a < unat page + 4096" using page_member [OF assms(1,2)] by simp
  then have lt: "a < ms_stackMin ms" using sp(2) by (simp add: word_less_nat_alt)
  have sb: "unat (ms_stackMin ms) \<le> unat (ms_stackBase ms)" using Suc.prems(10) by (simp only: word_le_nat_alt)
  have le: "unat page \<le> unat ?new" "unat ?new \<le> unat (ms_stackBase ms)" "unat page \<le> unat (ms_stackBase ms)"
    using sp(1) sp(2) [unfolded mult_Suc] sb by linarith+
  have fits: "\<not> ms_maxStackSize ms < ms_stackBase ms - ?new" "?new \<le> ms_stackBase ms"
    by (rule sub_le_bound [OF le(1,2) Suc.prems(11)])+
  have ok: "se_ok P ?s" "room P (Suc (n + k)) (se_sys ?s)" "se_procs ?s p = Some pr" "se_pts ?s ?t = Some pt"
    using Suc.prems(1,2,6,7) by (simp_all add: se_ok_def)
  have "?new \<in> {page..<ms_stackMin ms}" using sp(1,2) by (simp add: word_le_nat_alt word_less_nat_alt)
  then have none: "pt_translate pt ?new = None" using Suc.prems(12) by blast
  obtain s1 pt1 where s1: "allocateMem P p ?new 4096 False ?s = Ok s1" "se_ok P s1" "room P (n + k) (se_sys s1)"
    "extends ?t {} ?s s1" "se_pts s1 ?t = Some pt1"
    "\<forall>x. pt_translate pt1 x \<noteq> None \<longleftrightarrow> pt_translate pt x \<noteq> None \<or> x \<in> page_span 12 ?new 1"
    using allocateMem_ok [OF ok sp(4) none] by blast
  have e1: "se_mss s1 = (se_mss s)(mid \<mapsto> ?ms)" "se_procs s1 = se_procs s" using s1(4) by (simp_all add: extends_def)
  have step: "grow_stack P mid a s = grow_stack P mid a s1"
    using Suc.prems(3-5) lt fits(1) s1(1) by (subst grow_stack.simps) (simp add: deref_def sp(3))
  have un1: "\<forall>x\<in>{page..<?new}. pt_translate pt1 x = None"
  proof
    fix x assume x: "x \<in> {page..<?new}"
    then have "x \<in> {page..<ms_stackMin ms}" "x \<notin> {?new..<ms_stackMin ms}"
      unfolding sp(6) using leD [of ?new x] by (simp_all only: Un_iff atLeastLessThan_iff) blast+
    from this(2) bspec [OF Suc.prems(12) this(1)] show "pt_translate pt1 x = None"
      using s1(6) [rule_format, of x] unfolding sp(5) by (simp only: simp_thms)
  qed
  have ih: "se_mss s1 mid = Some ?ms" "ms_ownerProcess ?ms = p" "ms_pageBytes ?ms = 4096" "se_procs s1 p = Some pr"
    "ms_stackMin ?ms = ?new" "unat page + n * 4096 < 2 ^ 64" "ms_stackMin ?ms \<le> ms_stackBase ?ms"
    "ms_stackBase ?ms - page \<le> ms_maxStackSize ?ms" "\<forall>x\<in>{page..<ms_stackMin ?ms}. pt_translate pt1 x = None"
    using e1 Suc.prems(4-6,9,11) fits(2) un1 by simp_all
  obtain s2 pt2 where s2: "grow_stack P mid a s1 = Done s2" "se_ok P s2" "room P k (se_sys s2)"
    "extends ?t {} (s1\<lparr>se_mss := (se_mss s1)(mid \<mapsto> ?ms\<lparr>ms_stackMin := page\<rparr>)\<rparr>) s2" "se_pts s2 ?t = Some pt2"
    "\<forall>x. pt_translate pt2 x \<noteq> None \<longleftrightarrow> pt_translate pt1 x \<noteq> None \<or> x \<in> {page..<ms_stackMin ?ms}"
    using Suc.IH [OF s1(2,3) ih(1-4) s1(5) ih(5-9)] by blast
  note s2 = s2(1-5) s2(6) [unfolded ih(5)]
  let ?M = "(se_mss s)(mid \<mapsto> ms\<lparr>ms_stackMin := page\<rparr>)"
  have x1: "extends ?t {} (s\<lparr>se_mss := ?M\<rparr>) (s1\<lparr>se_mss := ?M\<rparr>)" using extends_mss [OF s1(4), of ?M] by simp
  have x2: "extends ?t {} (s1\<lparr>se_mss := ?M\<rparr>) s2" using s2(4) e1(1) by simp
  have "extends ?t {} (s\<lparr>se_mss := ?M\<rparr>) s2" using extends_trans [OF x1 x2] by simp
  moreover have "pt_translate pt2 x \<noteq> None \<longleftrightarrow> pt_translate pt x \<noteq> None \<or> x \<in> {page..<ms_stackMin ms}" for x
    using s2(6) [rule_format, of x] s1(6) [rule_format, of x] unfolding sp(5) sp(6) Un_iff by (simp only: disj_assoc) (simp only: disj_ac)
  ultimately show ?case
    using step s2(1-3,5) by (intro exI [of _ s2] exI [of _ pt2]) (simp del: fun_upd_apply atLeastLessThan_iff)
qed

lemma fixupFault_grow:
  assumes "se_ok P s" "room P (n + k) (se_sys s)" "served s p pr ms" "se_pts s (p_pTable pr) = Some pt"
    and "a \<notin> covered (ms_vmaList ms)" "a < ms_stackMin ms" "ms_stackBase ms - ms_maxStackSize ms \<le> a"
    and "ms_maxStackSize ms \<le> ms_stackBase ms" "ms_stackMin ms \<le> ms_stackBase ms"
    and "take_bit 12 (ms_stackMin ms) = 0" "take_bit 12 (ms_stackBase ms - ms_maxStackSize ms) = 0"
    and "unat (ms_stackMin ms - (a - take_bit 12 a)) = n * 4096"
    and "\<forall>x\<in>{a - take_bit 12 a..<ms_stackMin ms}. pt_translate pt x = None"
  shows "\<exists>s' pt'. fixupFault P p a s = Done (s', True) \<and> se_ok P s' \<and> room P k (se_sys s') \<and>
    extends (p_pTable pr) {} (s\<lparr>se_mss := (se_mss s)(p_memState pr \<mapsto> ms\<lparr>ms_stackMin := a - take_bit 12 a\<rparr>)\<rparr>) s' \<and>
    se_pts s' (p_pTable pr) = Some pt' \<and>
    (\<forall>x. pt_translate pt' x \<noteq> None \<longleftrightarrow> pt_translate pt x \<noteq> None \<or> x \<in> {a - take_bit 12 a..<ms_stackMin ms})"
proof -
  let ?page = "a - take_bit 12 a"
  have sv: "se_procs s p = Some pr" "se_mss s (p_memState pr) = Some ms" "ms_ownerProcess ms = p" "ms_pageBytes ms = 4096"
    "vmas_ok (2 ^ 12) (ms_vmaList ms)" using assms(3) by (simp_all add: served_def)
  have none: "find (\<lambda>v. v_contains v a) (ms_vmaList ms) = None"
    using assms(5) vmas_okD [OF sv(5)] v_contains_wf by (auto simp: find_None_iff covered_def)
  note mem = page_member [OF page_start(1) page_start(2), of a]
  have pm: "unat ?page \<le> unat (ms_stackMin ms)" "unat (ms_stackMin ms) \<le> unat (ms_stackBase ms)"
    using mem(1) assms(6,9) by (simp_all add: word_less_nat_alt word_le_nat_alt)
  then have n: "unat (ms_stackMin ms) = unat ?page + n * 4096" using assms(12) by (simp add: unat_sub word_le_nat_alt)
  have "of_nat n * 4096 = (of_nat (n * 4096) :: addr)" by simp
  also have "\<dots> = ms_stackMin ms - ?page" unfolding assms(12) [symmetric] by simp
  finally have mn: "ms_stackMin ms = ?page + of_nat n * 4096" by simp
  have lim: "ms_stackBase ms - ms_maxStackSize ms \<le> ?page" by (rule aligned_page_le(1) [OF assms(11,7)])
  have fit: "ms_stackBase ms - ?page \<le> ms_maxStackSize ms"
    using lim assms(8) pm by (simp add: word_le_nat_alt unat_sub)
  have top: "unat ?page + n * 4096 < 2 ^ 64" using n unat_64 [of "ms_stackMin ms"] by simp
  obtain s' pt' where s': "grow_stack P (p_memState pr) a s = Done s'" "se_ok P s'" "room P k (se_sys s')"
    "extends (p_pTable pr) {} (s\<lparr>se_mss := (se_mss s)(p_memState pr \<mapsto> ms\<lparr>ms_stackMin := ?page\<rparr>)\<rparr>) s'"
    "se_pts s' (p_pTable pr) = Some pt'"
    "\<forall>x. pt_translate pt' x \<noteq> None \<longleftrightarrow> pt_translate pt x \<noteq> None \<or> x \<in> {?page..<ms_stackMin ms}"
    using grow_stack_ok [OF page_start(1) page_start(2) assms(1,2) sv(2-4) sv(1) assms(4) mn top assms(9) fit assms(13)] by blast
  have "fixupFault P p a s = Done (s', True)"
    using sv none s'(1) assms(6,7) leD [of "ms_stackMin ms" a] by (auto simp: fixupFault_def ms_fixupFault_def deref_def)
  then show ?thesis using s' by blast
qed

section \<open>Proxies that grow the address space on demand\<close>

lemma served_extends:
  assumes "served s p pr ms" "extends t R s s'"
  shows "served s' p pr ms"
proof -
  have "th_process (se_threads s' ! c) = th_process (se_threads s ! c)" "th_ready (se_threads s' ! c) = th_ready (se_threads s ! c)"
    if "c < length (se_threads s)" for c
    using extends_threads(2) [OF assms(2) that] warm_fields(1) ready_warm by metis+
  then show ?thesis
    using assms extends_threads(1) [OF assms(2)] by (simp add: served_def extends_def)
qed

lemma can_fault_extends:
  assumes "can_fault cid a s" "extends t R s s'"
  shows "can_fault cid a s'"
proof -
  obtain pr ms where c: "served s (th_process (se_threads s ! cid)) pr ms"
    "a \<in> covered (ms_vmaList ms) \<or> ms_stackMin ms \<le> a \<and> a < ms_stackBase ms"
    "\<forall>c\<in>set (p_contextIds pr). \<forall>x\<in>page_span 12 (a - take_bit 12 a) 1. plain_at s c x" "cid < length (se_threads s)"
    using assms(1) unfolding can_fault_def by blast
  have th: "th_process (se_threads s' ! c) = th_process (se_threads s ! c)" "plain_at s' c x = plain_at s c x"
    if "c < length (se_threads s)" for c x
    using extends_threads(2) [OF assms(2) that] warm_fields(1) plain_warm by metis+
  have "\<forall>c\<in>set (p_contextIds pr). c < length (se_threads s)" using c(1) by (simp add: served_def)
  then have "\<forall>c\<in>set (p_contextIds pr). \<forall>x\<in>page_span 12 (a - take_bit 12 a) 1. plain_at s' c x" using c(3) th(2) by simp
  then show ?thesis
    using c(2,4) th(1) [OF c(4)] served_extends [OF c(1) assms(2)] extends_threads(1) [OF assms(2)] unfolding can_fault_def by force
qed

interpretation next_page: page_fixer "fixupAddr P NextPage" P can_fault for P
proof (unfold_locales, goal_cases)
  case (1 s k cid p pr pt a)
  have r: "cid < length (se_threads s)" "th_process (se_threads s ! cid) = p" "se_procs s p = Some pr"
    "se_pts s (p_pTable pr) = Some pt"
    using 1(3) by (simp_all add: running_def)
  obtain ms where c: "served s p pr ms" "a \<in> covered (ms_vmaList ms) \<or> ms_stackMin ms \<le> a \<and> a < ms_stackBase ms"
    "\<forall>c\<in>set (p_contextIds pr). \<forall>x\<in>page_span 12 (a - take_bit 12 a) 1. plain_at s c x"
    using 1(6) r(2,3) unfolding can_fault_def by (auto simp: served_def)
  have "\<exists>s' pt'. fixupFault P p a s = Done (s', True) \<and> se_ok P s' \<and> room P k (se_sys s') \<and> extends (p_pTable pr) {} s s' \<and>
      se_pts s' (p_pTable pr) = Some pt' \<and> pt_translate pt' a \<noteq> None"
  proof (cases "a \<in> covered (ms_vmaList ms)")
    case True
    from fixupFault_area [OF 1(1,2) c(1) r(4) True 1(5) c(3)] show ?thesis using page_start(2) [of a] by blast
  next
    case False
    with c(2) have "ms_stackMin ms \<le> a" "a < ms_stackBase ms" by blast+
    from fixupFault_stack [OF 1(1,2) c(1) r(4) False this 1(5)] show ?thesis using page_start(2) [of a] by blast
  qed
  then show ?case using r by (simp add: fixupAddr_def thread_at_def)
next
  case 2
  then show ?case by (rule can_fault_extends)
qed

end
