(* ===== verification/Clone.thy ===== *)
theory Clone
  imports Page_Fault
begin

text \<open>
  Copying an address space: \<open>Process::replicatePage\<close> and the memory part of \<open>Process::clone\<close> of \<open>src/sim/process.cc\<close>.
\<close>

unbundle bit_operations_syntax

text \<open>A page of a process that a second process has a copy of, in frames of its own.\<close>

definition copied :: "phys_mem \<Rightarrow> page_table \<Rightarrow> page_table \<Rightarrow> addr \<Rightarrow> bool" where
  "copied m pt npt x \<longleftrightarrow> (\<exists>y y'. pt_translate pt x = Some y \<and> pt_translate npt x = Some y' \<and> y' \<noteq> y \<and> m y' = m y)"

section \<open>Copying a page\<close>

lemma page_addrs: "take_bit 12 v = 0 \<Longrightarrow> set (byte_addrs v 4096) = page_span 12 v 1"
proof -
  have "x \<in> set (byte_addrs v 4096) \<longleftrightarrow> unat (x - v) < 4096" for x
  proof
    assume "x \<in> set (byte_addrs v 4096)"
    then show "unat (x - v) < 4096" by (auto simp: byte_addrs_def unat_of_nat_small)
  next
    assume "unat (x - v) < 4096"
    then have "v + of_nat (unat (x - v)) \<in> (\<lambda>i. v + of_nat i) ` {0..<4096}" by (intro imageI) simp
    then show "x \<in> set (byte_addrs v 4096)" by (simp add: byte_addrs_def)
  qed
  then show ?thesis by (auto simp: page_span_def)
qed

lemma replicate_ok:
  assumes "se_ok P s" "room P (Suc k) (se_sys s)" "running s otc p pr pt" "running s ntc np npr npt" "p_pTable pr \<noteq> p_pTable npr"
    and "take_bit 12 v = 0" "pt_translate pt v \<noteq> None" "pt_translate npt v = None"
    and "\<forall>x\<in>page_span 12 v 1. plain_at s otc x \<and> plain_at s ntc x"
  shows "\<exists>s' npt'. replicatePage P np v q otc ntc True s = Done s' \<and> se_ok P s' \<and> room P k (se_sys s') \<and>
    extends (p_pTable npr) {} s s' \<and> se_pts s' (p_pTable npr) = Some npt' \<and>
    (\<forall>x. pt_translate npt' x \<noteq> None \<longleftrightarrow> pt_translate npt x \<noteq> None \<or> x \<in> page_span 12 v 1) \<and>
    (\<forall>x\<in>page_span 12 v 1. copied (se_mem s') pt npt' x)"
proof -
  let ?t = "p_pTable npr"
  have t: "se_procs s np = Some npr" "se_pts s ?t = Some npt" "se_pts s (p_pTable pr) = Some pt"
    using assms(3,4) by (simp_all add: running_def)
  note ok = se_okD(1) [OF assms(1) t(3)] and nok = se_okD(1) [OF assms(1) t(2)]
  note pp = se_ok_params [OF assms(1)]
  obtain c where c: "sp_cacheLine P = 2 ^ c" "c < 32" using pp by (auto simp: plain_params_def)
  have ptr: "unat (pagePtr (se_sys s)) < 2 ^ 51" using assms(1) by (simp add: se_ok_def)
  obtain sys' f where al: "alloc_frames P v 1 (se_sys s) = Ok (sys', f)" "unat (pagePtr sys') < 2 ^ 51" "room P k sys'"
    "owned (se_sys s) \<subseteq> owned sys'" "page_at f \<subseteq> owned sys' - owned (se_sys s)" "\<forall>y\<in>page_at f. in_nvm y \<longleftrightarrow> in_nvm v"
    "unat f + 4096 \<le> 2 ^ 63"
    using alloc_frames_ok [OF pp ptr assms(2), of v] by blast
  let ?s0 = "s\<lparr>se_sys := sys'\<rparr>"
  have un: "\<forall>x\<in>page_span 12 v 1. pt_translate npt x = None" "\<forall>x\<in>page_span 12 v 1. pt_translate pt x \<noteq> None"
    using page_all(1) [OF nok assms(6)] page_all(2) [OF ok assms(6)] assms(7,8) by blast+
  note pa = page_addrs [OF assms(6)]
  define buf where "buf = vread pt (se_mem s) v 4096"
  have pb: "unat PageBytes = 4096" "sint PageBytes = 4096" by (simp_all add: PageBytes_def PageShift_def)
  have rd: "readBlob P (virtProxy P) otc v 4096 ?s0 = Done (warm_at otc ?s0, buf)"
  proof -
    have r: "running ?s0 otc p pr pt" using assms(3) by (simp add: running_def)
    have "\<forall>x\<in>set (byte_addrs v 4096). plain_at ?s0 otc x \<and> pt_translate pt x \<noteq> None" unfolding pa using assms(9) un(2) by simp
    from tryReadBlob_mapped [OF r ok c _ this, of "virtProxy P"] show ?thesis by (simp add: readBlob_def buf_def)
  qed
  have sp: "pspan 12 v 4096 = page_span 12 v 1" using pspan_one_page [of 12 v] by simp
  obtain npt' where npt': "pt_map npt v f 4096 Clobber = Ok npt'" "pt_ok 12 npt'"
    "\<And>x. pt_translate npt' x = (if x \<in> page_span 12 v 1 then Some (f + (x - v)) else pt_translate npt x)"
    using pt_map_eq [OF nok aligned_offset [OF nok assms(6)], of 4096 Clobber f] un(1) unfolding sp by auto
  let ?s1 = "warm_at otc (s\<lparr>se_sys := sys', se_pts := (se_pts s)(?t \<mapsto> npt')\<rparr>)"
  have ok1: "se_ok P ?s1" 
    using se_ok_new_page [OF assms(1) t(2) npt'(2) al(2,4-7) assms(6) npt'(3)] by simp
  have e1: "extends ?t {} s ?s1"
    using extends_warm_at [OF assms(3), of "{}"] al(4) un(1) t(2)
    by (auto simp: extends_def warm_at_def map_le_def npt'(3))
  have r1: "running ?s1 ntc np npr npt'" "\<And>x. plain_at ?s1 ntc x = plain_at s ntc x"
    by (rule extends_running [OF e1 assms(4) refl], simp add: running_def)+
  have f: "pt_translate npt' v = Some f" "unat (take_bit 12 v) + length buf \<le> 2 ^ 12" "0 < length buf" "length buf = 4096"
    using assms(6) by (simp_all add: npt'(3) page_span_def buf_def vread_def)
  note w = write_effect [OF ok1 r1(1) f(2,3,1), unfolded f(4) pa]
  let ?s2 = "?s1\<lparr>se_mem := mem_write (se_mem ?s1) f buf\<rparr>"
  have "\<forall>x\<in>set (byte_addrs v (length buf)). plain_at ?s1 ntc x \<and> pt_translate npt' x \<noteq> None"
    unfolding f(4) pa using assms(9) r1(2) by (simp add: npt'(3))
  then have "tryWriteBlob P (virtProxy P) ntc v buf ?s1 = Done (warm_at ntc ?s2, True)"
    using tryWriteBlob_mapped [OF r1(1) npt'(2) c _ , of buf v "virtProxy P"] vwrite_piece [OF npt'(2) f(2,1)] f(3,4) by auto
  moreover have eq: "(warm_at otc ?s0)\<lparr>se_pts := (se_pts s)(?t \<mapsto> npt')\<rparr> = ?s1" by (simp add: warm_at_def)
  ultimately have rep: "replicatePage P np v q otc ntc True s = Done (warm_at ntc ?s2)"
    using t(1,2) al(1) rd npt'(1) pb by (simp add: replicatePage_def deref_def writeBlob_def eq)
  let ?s' = "warm_at ntc ?s2"
  have r2: "running ?s2 ntc np npr npt'" using r1(1) by simp
  have e2: "extends ?t (page_span 12 v 1) ?s1 ?s'" using extends_trans [OF w(1) extends_warm_at [OF r2, of "{}"]] by simp
  have t2: "se_pts ?s' ?t = Some npt'" by simp
  have e: "extends ?t {} s ?s'"
  proof (rule extends_fresh [OF e1 e2 t2])
    fix x y assume "x \<in> page_span 12 v 1" "pt_translate npt' x = Some y"
    then show "y \<notin> owned (se_sys s)" using frame_plus [OF al(7)] al(5) by (auto simp: npt'(3) page_span_def)
  qed
  have "copied (se_mem ?s') pt npt' x" if x: "x \<in> page_span 12 v 1" for x
  proof -
    obtain y where y: "pt_translate pt x = Some y" using un(2) x by blast
    have own: "y \<in> owned (se_sys s)" by (rule se_okD(2) [OF assms(1) t(3) y])
    have y': "pt_translate npt' x = Some (f + (x - v))" "f + (x - v) \<notin> owned (se_sys s)"
      using x frame_plus [OF al(7)] al(5) by (auto simp: npt'(3) page_span_def)
    have "se_mem ?s' y = se_mem s y" using e own by (auto simp: extends_def)
    moreover have "map (\<lambda>x. se_mem ?s' (the (pt_translate npt' x))) (byte_addrs v 4096) =
        map (\<lambda>x. se_mem s (the (pt_translate pt x))) (byte_addrs v 4096)"
      using w(2) by (simp add: vread_def buf_def)
    then have "se_mem ?s' (the (pt_translate npt' x)) = se_mem s (the (pt_translate pt x))"
      using x unfolding pa [symmetric] map_eq_conv by blast
    ultimately show ?thesis using y y' own unfolding copied_def by force
  qed
  moreover have "\<forall>x. pt_translate npt' x \<noteq> None \<longleftrightarrow> pt_translate npt x \<noteq> None \<or> x \<in> page_span 12 v 1" by (simp add: npt'(3))
  moreover have "se_ok P ?s'" "room P k (se_sys ?s')" using ok1 al(3) by simp_all
  ultimately show ?thesis using rep e t2 by (intro exI [of _ ?s'] exI [of _ npt']) blast
qed

lemma aligned_same_page:
  assumes "take_bit 12 (v :: addr) = 0" "take_bit 12 w = 0" "w \<in> page_span 12 v 1"
  shows "w = v"
proof -
  have "w - take_bit 12 w = v"
    using page_same [OF pt4k_ok assms(1,3)] by (simp add: pageAlign_minus [OF pt4k_ok])
  then show ?thesis using assms(2) by simp
qed

lemma copied_kept:
  assumes "copied (se_mem s) pt npt x" "extends t {} s s'" "se_ok P s" "se_pts s u = Some pt" "se_pts s t = Some npt" "se_pts s' t = Some npt'"
  shows "copied (se_mem s') pt npt' x"
proof -
  obtain y y' where y: "pt_translate pt x = Some y" "pt_translate npt x = Some y'" "y' \<noteq> y" "se_mem s y' = se_mem s y"
    using assms(1) by (auto simp: copied_def)
  have "y \<in> owned (se_sys s)" "y' \<in> owned (se_sys s)" using se_okD(2) [OF assms(3)] assms(4,5) y(1,2) by blast+
  moreover have "pt_translate npt \<subseteq>\<^sub>m pt_translate npt'" "\<forall>z\<in>owned (se_sys s). se_mem s' z = se_mem s z"
    using assms(2,5,6) by (auto simp: extends_def)
  ultimately have "pt_translate npt' x = Some y'" "se_mem s' y' = se_mem s' y"
    using y(4) map_le_trans1 [of "pt_translate npt" x y' "pt_translate npt'"] y(2) by simp_all
  then show ?thesis using y(1,3) unfolding copied_def by blast
qed

lemma clone_pages_ok:
  assumes "p_pTable pr \<noteq> p_pTable npr" "distinct vs" "se_ok P s" "room P (length vs + k) (se_sys s)"
    and "running s otc p pr pt" "running s ntc np npr npt"
    and "\<forall>v\<in>set vs. take_bit 12 v = 0 \<and> pt_translate pt v \<noteq> None \<and> pt_translate npt v = None"
    and "\<forall>v\<in>set vs. \<forall>x\<in>page_span 12 v 1. plain_at s otc x \<and> plain_at s ntc x"
  shows "\<exists>s' npt'. clone_pages P np otc ntc (map (\<lambda>v. (v, f v)) vs) s = Done s' \<and> se_ok P s' \<and> room P k (se_sys s') \<and>
    extends (p_pTable npr) {} s s' \<and> se_pts s' (p_pTable npr) = Some npt' \<and>
    (\<forall>x. pt_translate npt' x \<noteq> None \<longleftrightarrow> pt_translate npt x \<noteq> None \<or> (\<exists>v\<in>set vs. x \<in> page_span 12 v 1)) \<and>
    (\<forall>v\<in>set vs. \<forall>x\<in>page_span 12 v 1. copied (se_mem s') pt npt' x)"
  using assms(2-)
proof (induction vs arbitrary: s npt)
  case Nil
  then have "se_pts s (p_pTable npr) = Some npt" by (simp add: running_def)
  then show ?case using Nil extends_refl by (intro exI [of _ s] exI [of _ npt]) auto
next
  case (Cons v vs)
  let ?t = "p_pTable npr"
  have v: "take_bit 12 v = 0" "pt_translate pt v \<noteq> None" "pt_translate npt v = None" "v \<notin> set vs" "distinct vs"
    "\<forall>x\<in>page_span 12 v 1. plain_at s otc x \<and> plain_at s ntc x" using Cons.prems(1,6,7) by simp_all
  have rm: "room P (Suc (length vs + k)) (se_sys s)" using Cons.prems(3) by simp
  obtain s1 npt1 where s1: "replicatePage P np v 0 otc ntc True s = Done s1" "se_ok P s1" "room P (length vs + k) (se_sys s1)"
    "extends ?t {} s s1" "se_pts s1 ?t = Some npt1"
    "\<forall>x. pt_translate npt1 x \<noteq> None \<longleftrightarrow> pt_translate npt x \<noteq> None \<or> x \<in> page_span 12 v 1"
    "\<forall>x\<in>page_span 12 v 1. copied (se_mem s1) pt npt1 x"
    using replicate_ok [OF Cons.prems(2) rm Cons.prems(4,5) assms(1) v(1-3,6)] by blast
  obtain npt1' where n: "running s1 ntc np npr npt1'" "\<And>a. plain_at s1 ntc a = plain_at s ntc a"
    by (rule extends_running [OF s1(4) Cons.prems(5) refl]) blast
  have n1: "npt1' = npt1" using n(1) s1(5) by (simp add: running_def)
  have o1: "running s1 otc p pr pt" "\<And>a. plain_at s1 otc a = plain_at s otc a"
  proof -
    have r: "otc < length (se_threads s)" "th_process (se_threads s ! otc) = p" "th_ready (se_threads s ! otc)"
      "se_procs s p = Some pr" "se_pts s (p_pTable pr) = Some pt" using Cons.prems(4) by (simp_all add: running_def)
    note w = extends_threads(2) [OF s1(4) r(1)]
    have "th_process (se_threads s1 ! otc) = p" "th_ready (se_threads s1 ! otc)"
      using w r(2,3) warm_fields(1) ready_warm by metis+
    then show "running s1 otc p pr pt"
      using r s1(4) assms(1) extends_threads(1) [OF s1(4)] by (simp add: running_def extends_def)
    show "\<And>a. plain_at s1 otc a = plain_at s otc a" using w plain_warm by metis
  qed
  have un: "\<forall>w\<in>set vs. take_bit 12 w = 0 \<and> pt_translate pt w \<noteq> None \<and> pt_translate npt1 w = None"
    using Cons.prems(6) s1(6) v(1,4) aligned_same_page [OF v(1)] by (metis list.set_intros(2))
  have pl: "\<forall>w\<in>set vs. \<forall>x\<in>page_span 12 w 1. plain_at s1 otc x \<and> plain_at s1 ntc x"
    using Cons.prems(7) n(2) o1(2) by simp
  obtain s2 npt2 where s2: "clone_pages P np otc ntc (map (\<lambda>v. (v, f v)) vs) s1 = Done s2" "se_ok P s2" "room P k (se_sys s2)"
    "extends ?t {} s1 s2" "se_pts s2 ?t = Some npt2"
    "\<forall>x. pt_translate npt2 x \<noteq> None \<longleftrightarrow> pt_translate npt1 x \<noteq> None \<or> (\<exists>v\<in>set vs. x \<in> page_span 12 v 1)"
    "\<forall>v\<in>set vs. \<forall>x\<in>page_span 12 v 1. copied (se_mem s2) pt npt2 x"
    using Cons.IH [OF v(5) s1(2,3) o1(1) n(1) [unfolded n1] un pl] by blast
  have "pt_of np s = Ok npt" using Cons.prems(5) by (simp add: pt_of_def running_def deref_def)
  then have "clone_pages P np otc ntc (map (\<lambda>v. (v, f v)) (v # vs)) s = Done s2" using v(3) s1(1) s2(1) by simp
  moreover have "extends ?t {} s s2" using extends_trans [OF s1(4) s2(4)] by simp
  moreover have "\<forall>x\<in>page_span 12 v 1. copied (se_mem s2) pt npt2 x"
    using s1(7) copied_kept [OF _ s2(4) s1(2) _ s1(5) s2(5)] o1(1) by (auto simp: running_def)
  ultimately show ?case using s1(6) s2 by (intro exI [of _ s2] exI [of _ npt2]) auto
qed

lemma clone_memory_ok:
  assumes "se_ok P s" "room P (length order + k) (se_sys s)" "running s otc p pr pt" "running s ntc np npr npt"
    and "p_pTable pr \<noteq> p_pTable npr" "p_memState pr \<noteq> p_memState npr"
    and "se_mss s (p_memState pr) = Some ms" "se_mss s (p_memState npr) = Some nms"
    and "distinct order" "set order = dom (pTable pt)" "\<forall>v\<in>set order. take_bit 12 v = 0" "\<forall>x. pt_translate npt x = None"
    and "\<forall>x. plain_at s otc x \<and> plain_at s ntc x \<or> pt_translate pt x = None"
  shows "\<exists>s' npt'. clone_memory P p np otc ntc False order s = Done s' \<and> se_ok P s' \<and> room P k (se_sys s') \<and>
    extends (p_pTable npr) {} (s\<lparr>se_mss := (se_mss s)(p_memState npr \<mapsto> ms\<lparr>ms_ownerProcess := ms_ownerProcess nms\<rparr>)\<rparr>) s' \<and>
    se_pts s' (p_pTable npr) = Some npt' \<and>
    (\<forall>x. pt_translate npt' x \<noteq> None \<longleftrightarrow> pt_translate pt x \<noteq> None) \<and>
    (\<forall>x. pt_translate pt x \<noteq> None \<longrightarrow> copied (se_mem s') pt npt' x)"
proof -
  have t: "se_procs s p = Some pr" "se_procs s np = Some npr" "se_pts s (p_pTable pr) = Some pt"
    using assms(3,4) by (simp_all add: running_def)
  note ok = se_okD(1) [OF assms(1) t(3)]
  have pages: "pt_translate pt x \<noteq> None \<longleftrightarrow> (\<exists>v\<in>set order. x \<in> page_span 12 v 1)" for x
  proof
    assume "pt_translate pt x \<noteq> None"
    then have "x - take_bit 12 x \<in> set order"
      unfolding assms(10) by (auto simp: pt_translate_alt pageAlign_minus [OF ok])
    then show "\<exists>v\<in>set order. x \<in> page_span 12 v 1" using page_start(2) by blast
  next
    assume "\<exists>v\<in>set order. x \<in> page_span 12 v 1"
    then obtain v where v: "v \<in> dom (pTable pt)" "take_bit 12 v = 0" "x \<in> page_span 12 v 1" using assms(10,11) by blast
    show "pt_translate pt x \<noteq> None" using v page_same [OF ok v(2,3)] by (auto simp: pt_translate_alt)
  qed
  have all: "\<forall>v\<in>set order. take_bit 12 v = 0 \<and> pt_translate pt v \<noteq> None \<and> pt_translate npt v = None"
  proof
    fix v assume v: "v \<in> set order"
    then have "v \<in> page_span 12 v 1" using page_start(2) [of v] assms(11) by simp
    then show "take_bit 12 v = 0 \<and> pt_translate pt v \<noteq> None \<and> pt_translate npt v = None"
      using v pages [of v] assms(11,12) by blast
  qed
  have pl: "\<forall>v\<in>set order. \<forall>x\<in>page_span 12 v 1. plain_at s otc x \<and> plain_at s ntc x" using assms(13) pages by blast
  obtain s1 npt1 where s1: "clone_pages P np otc ntc (pt_getMappings pt order) s = Done s1" "se_ok P s1" "room P k (se_sys s1)"
    "extends (p_pTable npr) {} s s1" "se_pts s1 (p_pTable npr) = Some npt1"
    "\<forall>x. pt_translate npt1 x \<noteq> None \<longleftrightarrow> pt_translate npt x \<noteq> None \<or> (\<exists>v\<in>set order. x \<in> page_span 12 v 1)"
    "\<forall>v\<in>set order. \<forall>x\<in>page_span 12 v 1. copied (se_mem s1) pt npt1 x"
    using clone_pages_ok [OF assms(5,9,1,2,3,4) all pl, of "\<lambda>v. pte_paddr (the (pTable pt v))"] unfolding pt_getMappings_def by blast
  let ?M = "(se_mss s)(p_memState npr \<mapsto> ms\<lparr>ms_ownerProcess := ms_ownerProcess nms\<rparr>)"
  have "se_mss s1 = se_mss s" using s1(4) by (simp add: extends_def)
  moreover have "ms_assign nms ms = ms\<lparr>ms_ownerProcess := ms_ownerProcess nms\<rparr>" by (simp add: ms_assign_def)
  ultimately have "clone_memory P p np otc ntc False order s = Done (s1\<lparr>se_mss := ?M\<rparr>)"
    using t s1(1) assms(7,8) by (simp add: clone_memory_def deref_def)
  moreover have "extends (p_pTable npr) {} (s\<lparr>se_mss := ?M\<rparr>) (s1\<lparr>se_mss := ?M\<rparr>)" by (rule extends_mss [OF s1(4)])
  moreover have "se_ok P (s1\<lparr>se_mss := ?M\<rparr>)" using s1(2) by (simp add: se_ok_def)
  ultimately show ?thesis using s1(3,5-7) assms(12) pages by (intro exI [of _ "s1\<lparr>se_mss := ?M\<rparr>"] exI [of _ npt1]) auto
qed

end
