(* ===== verification/Process_Memory.thy ===== *)
theory Process_Memory
  imports Clone
begin

text \<open>
  The properties of processes, proxies and page faults, with a small system of two processes that shows that their
  hypotheses can hold.
\<close>

unbundle bit_operations_syntax

text \<open>
  A system with two processes of one thread each. The first has an area of eight pages, the second of which is mapped;
  the second has the same area and no page yet.
\<close>

definition params_demo :: sys_params where
  "params_demo = \<lparr>sp_memSize = 0x80000000, sp_m5op = m5opRange 0, sp_cacheLine = 64, sp_now = 0\<rparr>"

definition th_demo :: "nat \<Rightarrow> thread" where
  "th_demo p = \<lparr>th_process = p, th_tc = tc_se, th_dtb = Tlb tlb_se None, th_itb = Tlb tlb_se None\<rparr>"

definition proc_demo :: "nat \<Rightarrow> process" where
  "proc_demo i = \<lparr>p_pTable = i, p_memState = i, p_contextIds = [i]\<rparr>"

definition se_demo :: se where
  "se_demo = \<lparr>se_sys = \<lparr>pagePtr = 6, pageNVMPtr = 0\<rparr>, se_mem = \<lambda>a. ucast a, se_threads = [th_demo 0, th_demo 1],
     se_procs = [0 \<mapsto> proc_demo 0, 1 \<mapsto> proc_demo 1],
     se_pts = [0 \<mapsto> pt_demo, 1 \<mapsto> pt4k], se_mss = [0 \<mapsto> ms_demo, 1 \<mapsto> ms_demo\<lparr>ms_ownerProcess := 1\<rparr>]\<rparr>"

text \<open>What another process sees of a store: its page table and the bytes at its addresses.\<close>

definition undisturbed :: "nat \<Rightarrow> se \<Rightarrow> se \<Rightarrow> bool" where
  "undisturbed t s s' \<longleftrightarrow> (\<forall>u pt. u \<noteq> t \<longrightarrow> se_pts s u = Some pt \<longrightarrow> se_pts s' u = Some pt \<and>
     (\<forall>x y. pt_translate pt x = Some y \<longrightarrow> se_mem s' y = se_mem s y))"

definition vma_file :: vma where
  "vma_file = vma_demo\<lparr>v_origHostBuf := Some \<lparr>mf_buffer = [7, 8, 9], mf_length = 3\<rparr>, v_hostBuf := Buf_plus 0, v_hostBufLen := Some 3\<rparr>"

definition se_file :: se where
  "se_file = se_demo\<lparr>se_mss := [0 \<mapsto> ms_demo\<lparr>ms_vmaList := [vma_file]\<rparr>]\<rparr>"

definition se_stack :: se where
  "se_stack = se_demo\<lparr>se_mss := [0 \<mapsto> ms_demo\<lparr>ms_stackMin := 0x7ffe000\<rparr>]\<rparr>"

lemma room_below:
  assumes "sp_m5op P = m5opRange 0" "unat (pageNVMPtr sys) + k \<le> 0x20000" "unat (pagePtr sys) + k < 0x30000"
    and "4096 * (unat (pagePtr sys) + k) \<le> unat (sp_memSize P)"
  shows "room P k sys"
proof -
  have "returns (alloc_seq (\<lambda>s. allocPhysPages (sp_memSize P) (sp_m5op P) s 1) k sys)"
    using assms(3,4)
  proof (induction k arbitrary: sys)
    case (Suc k)
    let ?p = "pagePtr sys + 1" and ?f = "\<lambda>s. allocPhysPages (sp_memSize P) (sp_m5op P) s 1"
    have p1: "unat ?p = unat (pagePtr sys) + 1" using Suc.prems(1) by (simp add: unat_word_ariths)
    have u: "unat (push_bit PageShift ?p) = 4096 * unat ?p" "unat (push_bit PageShift (pagePtr sys)) = 4096 * unat (pagePtr sys)"
      using Suc.prems(1) p1 by (intro unat_page; simp)+
    have "skip_nvm (push_bit PageShift (pagePtr sys)) (pagePtr sys + of_int 1) = (push_bit PageShift (pagePtr sys), ?p)"
      using u p1 Suc.prems(1) by (simp add: skip_nvm_done in_nvm_unat)
    from alloc_no_m5op [OF this, of "sp_memSize P"] have al: "?f sys = Ok (sys\<lparr>pagePtr := ?p\<rparr>, push_bit PageShift (pagePtr sys))"
      using Suc.prems(2) u(1) p1 assms(1) by (simp add: word_less_nat_alt)
    have "returns (alloc_seq ?f k (sys\<lparr>pagePtr := ?p\<rparr>))" using Suc.prems p1 by (intro Suc.IH) simp_all
    then show ?case using al by (auto simp: returns_def)
  qed simp
  then show ?thesis using assms(2) by (simp add: room_def)
qed

lemma params_demo_plain: "plain_params params_demo"
  unfolding plain_params_def params_demo_def by (simp, rule exI [of _ 6], simp)

lemma room_demo: "k \<le> 100 \<Longrightarrow> room params_demo k (se_sys se_demo)"
  by (rule room_below) (simp_all add: params_demo_def se_demo_def)

lemma th_demo_ready: "th_ready (th_demo p)" "a < 2 ^ 31 \<Longrightarrow> plain_addr (th_demo p) a"
proof -
  have "updateMiscReg tc_se NormalTran tlb_se = Ok tlb_se"
    by (simp add: updateMiscReg_def tlb_se_def tc_se_def NormalTran_def)
  then show r: "th_ready (th_demo p)" by (simp add: th_ready_def th_demo_def tlb_se_def)
  show "a < 2 ^ 31 \<Longrightarrow> plain_addr (th_demo p) a" by (rule plain_low [OF r])
qed

lemma se_demo_simps:
  "se_threads se_demo = [th_demo 0, th_demo 1]" "se_sys se_demo = \<lparr>pagePtr = 6, pageNVMPtr = 0\<rparr>"
  "se_procs se_demo 0 = Some (proc_demo 0)"
  "se_procs se_demo 1 = Some (proc_demo 1)"
  "se_pts se_demo 0 = Some pt_demo" "se_pts se_demo 1 = Some pt4k" "se_mss se_demo 0 = Some ms_demo"
  "se_mss se_demo 1 = Some (ms_demo\<lparr>ms_ownerProcess := 1\<rparr>)" "th_process (th_demo p) = p"
  "p_pTable (proc_demo i) = i" "p_memState (proc_demo i) = i" "p_contextIds (proc_demo i) = [i]"
  by (simp_all add: se_demo_def th_demo_def proc_demo_def)

lemma pt_demo_translate:
  "pt_translate pt_demo x = (if x \<in> page_span 12 0x11000 1 then Some (0x5000 + (x - 0x11000)) else None)"
  "pt_translate pt4k x = None" "pt_ok 12 pt_demo"
proof -
  show ok: "pt_ok 12 pt_demo" by (simp add: pt_demo_def pt4k_ok)
  show "pt_translate pt4k x = None" by (simp add: pt_translate_alt pt4k_def)
  show "pt_translate pt_demo x = (if x \<in> page_span 12 0x11000 1 then Some (0x5000 + (x - 0x11000)) else None)"
  proof (cases "x \<in> page_span 12 0x11000 1")
    case True
    have al: "pageAlign pt_demo x = 0x11000" by (rule page_same [OF ok _ True]) simp
    have "pageOffset pt_demo x = x - 0x11000"
      using al pageAlign_minus [OF ok, of x] pageOffset_take_bit [OF ok, of x] by (simp add: algebra_simps)
    then show ?thesis using True al by (simp add: pt_translate_alt pt_demo_def)
  next
    case False
    then have "x - take_bit 12 x \<noteq> 0x11000" using page_start(2) [of x] by auto
    then have "pageAlign pt_demo x \<noteq> 0x11000" unfolding pageAlign_minus [OF ok] .
    then show ?thesis using False by (simp add: pt_translate_alt pt_demo_def)
  qed
qed

lemma se_demo_running:
  "running se_demo 0 0 (proc_demo 0) pt_demo"
  "running se_demo 1 1 (proc_demo 1) pt4k"
  using th_demo_ready by (simp_all add: running_def se_demo_simps se_demo_simps [unfolded One_nat_def])

lemma se_demo_ok: "se_ok params_demo se_demo"
proof (rule se_okI [OF params_demo_plain])
  show "unat (pagePtr (se_sys se_demo)) < 2 ^ 51" by (simp add: se_demo_simps)
next
  fix t pt assume "se_pts se_demo t = Some pt"
  then show "pt_ok 12 pt" using pt_demo_translate(3) pt4k_ok by (auto simp: se_demo_def split: if_splits)
next
  fix t pt x y assume "se_pts se_demo t = Some pt" "pt_translate pt x = Some y"
  then have x: "x \<in> page_span 12 0x11000 1" "y = 0x5000 + (x - 0x11000)"
    using pt_demo_translate(1,2) by (auto simp: se_demo_def split: if_splits)
  have u: "unat (x - 0x11000) < 4096" using x(1) by (simp add: page_span_def)
  define d where "d = x - 0x11000"
  have "unat (0x5000 + d) = 0x5000 + unat d" using u unfolding d_def [symmetric] by (simp add: unat_word_ariths)
  then have uy: "unat y = 0x5000 + unat (x - 0x11000)" unfolding x(2) d_def [symmetric] .
  have "\<not> nvm_page x" using nvm_page_in_page [OF _ x(1)] by (simp add: in_nvm_def NVM_START_ADDR_def)
  then show "y \<in> owned (se_sys se_demo) \<and> (in_nvm y \<longleftrightarrow> nvm_page x)"
    using u uy by (simp add: owned_def se_demo_simps in_nvm_unat)
next
  fix t pt t' pt' x x' y
  assume "se_pts se_demo t = Some pt" "pt_translate pt x = Some y" "se_pts se_demo t' = Some pt'" "pt_translate pt' x' = Some y"
  then show "t = t' \<and> x = x'" using pt_demo_translate(1,2) by (auto simp: se_demo_def split: if_splits)
qed

lemma tryTLBs_refused:
  assumes "running s cid p pr pt" "plain_at s cid (rq_vaddr req)" "hasVaddr req" "rq_flags req = 0" "mode \<noteq> Execute"
    and "pt_translate pt (rq_vaddr req) = None" "\<And>s. fixup cid (rq_vaddr req) mode s = Done (s, False)"
  shows "tryTLBs fixup cid req mode s = Done (warm_at cid s, req, False)"
proof -
  obtain req' where "tryTLBsOnce cid req mode s = Ok (warm_at cid s, req', False)" "req' = req"
    using tryTLBsOnce_eq [OF assms(1-5)] assms(6) by auto
  then show ?thesis using assms(3,7) by (simp add: tryTLBs_def getVaddr_Ok)
qed

lemma read_pieces_refused:
  assumes "consec a cs" "in_pages cs" "sum_list (map snd cs) < 2 ^ 32" "running s cid p pr pt"
    and "\<forall>x\<in>set (byte_addrs a (sum_list (map snd cs))). plain_at s cid x"
    and "\<exists>x\<in>set (byte_addrs a (sum_list (map snd cs))). pt_translate pt x = None"
    and "pt_ok 12 pt" "sp_cacheLine P = 2 ^ c" "c < 32" "\<And>a s. fixup cid a Read s = Done (s, False)"
  shows "\<exists>q'. try_pieces (read_piece P fixup cid) cs (s, q) = Done ((warm_at cid s, q'), False)"
  using assms(1-6)
proof (induction cs arbitrary: a s q)
  case Nil
  then show ?case by (simp add: byte_addrs_def)
next
  case (Cons bn cs)
  obtain n where bn: "bn = (a, n)" using Cons.prems(1) by (cases bn) simp
  have n: "0 < n" "unat (take_bit 12 a) + n \<le> 2 ^ 12" using Cons.prems(2) bn by simp_all
  have c: "n < 2 ^ 32" "consec (a + of_nat n) cs" "in_pages cs" "sum_list (map snd cs) < 2 ^ 32"
    using Cons.prems(1-3) by (simp_all add: bn)
  have pl: "\<forall>x\<in>set (byte_addrs a n). plain_at s cid x" "\<forall>x\<in>set (byte_addrs (a + of_nat n) (sum_list (map snd cs))). plain_at s cid x"
    using Cons.prems(5) by (simp_all add: bn Ball_byte_addrs_append)
  have a: "plain_at s cid a" using pl(1) byte_addrs_hd [OF n(1)] by blast
  show ?case
  proof (cases "pt_translate pt a")
    case None
    obtain req where req: "proxy_req P cid a n s = Ok req" "hasVaddr req" "rq_vaddr req = a" "rq_flags req = 0"
      using proxy_req_ok [OF Cons.prems(4)] by blast
    have "tryTLBs fixup cid req Read s = Done (warm_at cid s, req, False)"
      by (rule tryTLBs_refused [OF Cons.prems(4)]) (use a req None assms(10) in simp_all)
    then show ?thesis using req by (simp add: bn read_piece_def)
  next
    case (Some y)
    note first = read_piece_mapped [OF Cons.prems(4) assms(7-9) c(1) n(2) a Some, of fixup q]
    have "pt_translate pt (a + of_nat i) \<noteq> None" if "i < n" for i
      using page_contiguous [OF assms(7) n(2) that Some] by simp
    then have "\<forall>x\<in>set (byte_addrs a n). pt_translate pt x \<noteq> None" by (auto simp: byte_addrs_def)
    then have "\<exists>x\<in>set (byte_addrs (a + of_nat n) (sum_list (map snd cs))). pt_translate pt x = None"
      using Cons.prems(6) Ball_byte_addrs_append [of a n "sum_list (map snd cs)" "\<lambda>x. pt_translate pt x \<noteq> None"] by (auto simp: bn)
    then have "\<exists>q'. try_pieces (read_piece P fixup cid) cs (warm_at cid s, q @ vread pt (se_mem s) a n) =
        Done ((warm_at cid (warm_at cid s), q'), False)"
      by (intro Cons.IH [OF c(2-4)]) (use Cons.prems(4) pl(2) in simp_all)
    then show ?thesis by (auto simp: bn first)
  qed
qed

text \<open>
  The proxies of system-call emulation fix a missing page only for a write: a read of any
  bytes of which one has no page ends the simulation, whichever way the proxy allocates.
\<close>

theorem unmapped_read_fatal:
  assumes "running s cid p pr pt" "pt_ok 12 pt" "sp_cacheLine P = 2 ^ c" "c < 32" "n < 2 ^ 32"
    and "\<forall>x\<in>set (byte_addrs a n). plain_at s cid x" "\<exists>x\<in>set (byte_addrs a n). pt_translate pt x = None"
  shows "readBlob P (fixupAddr P allocating) cid a n s = Some (Err Fatal)"
proof -
  have f: "fixupAddr P allocating cid b Read s' = Done (s', False)" for b s' by (simp add: fixupAddr_def)
  obtain cs where cs: "try_chunks a n (read_piece P (fixupAddr P allocating) cid) = try_pieces (read_piece P (fixupAddr P allocating) cid) cs"
    "consec a cs" "sum_list (map snd cs) = n" "in_pages cs"
    by (rule try_chunks_pieces [OF assms(5)])
  have "\<exists>q'. try_pieces (read_piece P (fixupAddr P allocating) cid) cs (s, []) = Done ((warm_at cid s, q'), False)"
    by (rule read_pieces_refused [OF cs(2,4) _ assms(1) _ _ assms(2-4)]) (use assms(5-7) cs(3) f in simp_all)
  then show ?thesis by (auto simp: readBlob_def tryReadBlob_def cs(1))
qed

lemma low_page:
  assumes "take_bit 12 (v :: addr) = 0" "unat v + 4096 \<le> 2 ^ 31" "x \<in> page_span 12 v 1"
  shows "x < 2 ^ 31"
  using page_member [OF assms(1,3)] assms(2) by (simp add: word_less_nat_alt)

theorem unmapped_read_fatal_witness:
  "readBlob params_demo (fixupAddr params_demo NextPage) 0 0x12000 4096 se_demo = Some (Err Fatal)"
proof (rule unmapped_read_fatal [OF se_demo_running(1) pt_demo_translate(3), of _ 6])
  have pg: "set (byte_addrs 0x12000 4096) = page_span 12 0x12000 1" by (rule page_addrs) simp
  have low: "x < 2 ^ 31" if "x \<in> page_span 12 0x12000 1" for x by (rule low_page [OF _ _ that]) simp_all
  show "\<forall>x\<in>set (byte_addrs 0x12000 4096). plain_at se_demo 0 x"
    unfolding pg using low th_demo_ready(2) [of _ 0] by (simp add: se_demo_simps)
  have "(0x12000 :: addr) \<notin> page_span 12 0x11000 1" "(0x12000 :: addr) \<in> page_span 12 0x12000 1" by (simp_all add: page_span_def)
  then show "\<exists>x\<in>set (byte_addrs 0x12000 4096). pt_translate pt_demo x = None"
    unfolding pg by (intro bexI [of _ "0x12000"]) (simp_all add: pt_demo_translate(1))
qed (simp_all add: params_demo_def)

text \<open>
  C11. Where every byte has a page, reading and writing through a proxy, one chunk per page and one
  packet per cache line, is the same as reading and writing byte by byte at the translations of the addresses.
\<close>

theorem blobs_match_bytes:
  assumes "running s cid p pr pt" "pt_ok 12 pt" "sp_cacheLine P = 2 ^ c" "c < 32" "length bs < 2 ^ 32"
    and "\<forall>x\<in>set (byte_addrs a (length bs)). plain_at s cid x \<and> pt_translate pt x \<noteq> None"
  shows "\<exists>s'. tryReadBlob P fixup cid a (length bs) s =
      Done ((s', map (\<lambda>x. se_mem s (the (pt_translate pt x))) (byte_addrs a (length bs))), True) \<and>
    tryWriteBlob P fixup cid a bs s = Done (s'\<lparr>se_mem := vwrite pt (se_mem s) a bs\<rparr>, True) \<and>
    s' = (if bs = [] then s else warm_at cid s)"
  using tryReadBlob_mapped [OF assms, of fixup] tryWriteBlob_mapped [OF assms, of fixup]
  by (cases "bs = []") (auto simp: vread_def)

lemma page_plain_demo:
  assumes "take_bit 12 (v :: addr) = 0" "unat v + 4096 \<le> 2 ^ 31" "x \<in> page_span 12 v 1"
  shows "plain_at se_demo 0 x" "plain_at se_demo 1 x"
  using low_page [OF assms] th_demo_ready(2) [of x] by (simp_all add: se_demo_simps)

theorem blobs_match_bytes_witness:
  "tryReadBlob params_demo (fixupAddr params_demo Never) 0 0x11000 4096 se_demo =
     Done ((warm_at 0 se_demo, map (\<lambda>x. se_mem se_demo (the (pt_translate pt_demo x))) (byte_addrs 0x11000 4096)), True)"
proof -
  have pg: "set (byte_addrs 0x11000 4096) = page_span 12 0x11000 1" by (rule page_addrs) simp
  define bs :: "8 word list" where "bs = replicate 4096 0"
  have l: "length bs = 4096" "bs \<noteq> []" by (simp_all add: bs_def flip: length_0_conv)
  have "\<forall>x\<in>set (byte_addrs 0x11000 (length bs)). plain_at se_demo 0 x \<and> pt_translate pt_demo x \<noteq> None"
    unfolding l pg using page_plain_demo(1) [of "0x11000"] by (simp add: pt_demo_translate(1))
  from blobs_match_bytes [OF se_demo_running(1) pt_demo_translate(3) _ _ _ this, of params_demo 6] show ?thesis
    using l by (auto simp: params_demo_def)
qed

text \<open>
  C7. A page added to an address space keeps memory separated: it gets a frame that nobody
  has had so far, in NVM when the page is in the NVM window of the virtual address space and in DRAM otherwise, and
  afterwards still no byte of memory is reachable at two addresses of one or of two address spaces.
\<close>

theorem new_page_separated:
  assumes "se_ok P s" "room P (Suc k) (se_sys s)" "se_procs s p = Some pr" "se_pts s (p_pTable pr) = Some pt"
    and "take_bit 12 v = 0" "pt_translate pt v = None"
  shows "\<exists>s' pt'. allocateMem P p v 4096 False s = Ok s' \<and> se_ok P s' \<and> room P k (se_sys s') \<and> se_mem s' = se_mem s \<and>
    se_pts s' = (se_pts s)(p_pTable pr \<mapsto> pt') \<and>
    (\<forall>x. if x \<in> page_span 12 v 1 then \<exists>y. pt_translate pt' x = Some y \<and> y \<notin> owned (se_sys s) \<and> (in_nvm y \<longleftrightarrow> in_nvm v)
         else pt_translate pt' x = pt_translate pt x)"
proof -
  obtain s' pt' where s': "allocateMem P p v 4096 False s = Ok s'" "se_ok P s'" "room P k (se_sys s')"
    "extends (p_pTable pr) {} s s'" "se_mem s' = se_mem s" "se_pts s' (p_pTable pr) = Some pt'"
    "\<forall>x. pt_translate pt' x \<noteq> None \<longleftrightarrow> pt_translate pt x \<noteq> None \<or> x \<in> page_span 12 v 1"
    "\<forall>x\<in>page_span 12 v 1. the (pt_translate pt' x) \<notin> owned (se_sys s)"
    using allocateMem_ok [OF assms] by blast
  have "se_pts s' = (se_pts s)(p_pTable pr \<mapsto> pt')" using s'(4,6) by (auto simp: extends_def fun_eq_iff)
  moreover have "if x \<in> page_span 12 v 1 then \<exists>y. pt_translate pt' x = Some y \<and> y \<notin> owned (se_sys s) \<and> (in_nvm y \<longleftrightarrow> in_nvm v)
      else pt_translate pt' x = pt_translate pt x" for x
  proof (cases "x \<in> page_span 12 v 1")
    case True
    then obtain y where y: "pt_translate pt' x = Some y" "y \<notin> owned (se_sys s)" using s'(7,8) by fastforce
    moreover have "in_nvm y \<longleftrightarrow> in_nvm v"
      using se_okD(3) [OF s'(2,6) y(1)] nvm_page_in_page [OF assms(5) True] by simp
    ultimately show ?thesis using True by auto
  next
    case False
    obtain pt2 where "se_pts s' (p_pTable pr) = Some pt2" "pt_translate pt \<subseteq>\<^sub>m pt_translate pt2"
      by (rule extends_pt [OF s'(4) assms(4)])
    then have le: "pt_translate pt \<subseteq>\<^sub>m pt_translate pt'" using s'(6) by simp
    show ?thesis
    proof (cases "pt_translate pt x")
      case None
      then have "pt_translate pt' x = None" using False s'(7) [THEN spec, of x] by blast
      then show ?thesis using False None by simp
    next
      case (Some y)
      then show ?thesis using False map_le_trans1 [of "pt_translate pt" x y, OF Some le] by simp
    qed
  qed
  ultimately show ?thesis using s'(1-3,5) by (intro exI [of _ s'] exI [of _ pt'] conjI allI) assumption+
qed

theorem new_page_separated_witness:
  "\<exists>s' pt' y. allocateMem params_demo 0 0x30000000 4096 False se_demo = Ok s' \<and> se_ok params_demo s' \<and>
     se_pts s' 0 = Some pt' \<and> pt_translate pt' 0x30000000 = Some y \<and> in_nvm y"
proof -
  have n: "(0x30000000 :: addr) \<notin> page_span 12 0x11000 1" "(0x30000000 :: addr) \<in> page_span 12 0x30000000 1" "in_nvm 0x30000000"
    by (simp_all add: page_span_def in_nvm_unat)
  have t: "se_pts se_demo (p_pTable (proc_demo 0)) = Some pt_demo" "take_bit 12 (0x30000000 :: addr) = 0"
    "pt_translate pt_demo 0x30000000 = None" using n(1) by (simp_all add: pt_demo_translate(1) se_demo_simps)
  have "room params_demo (Suc 0) (se_sys se_demo)" by (rule room_demo) simp
  from new_page_separated [OF se_demo_ok this se_demo_simps(3) t] obtain s' pt' where
    s': "allocateMem params_demo 0 0x30000000 4096 False se_demo = Ok s'" "se_ok params_demo s'"
      "se_pts s' = (se_pts se_demo)(p_pTable (proc_demo 0) \<mapsto> pt')" and
    x: "\<forall>x. if x \<in> page_span 12 0x30000000 1
         then \<exists>y. pt_translate pt' x = Some y \<and> y \<notin> owned (se_sys se_demo) \<and> (in_nvm y \<longleftrightarrow> in_nvm 0x30000000)
         else pt_translate pt' x = pt_translate pt_demo x"
    by (elim exE conjE) (rule that)
  from x [THEN spec, of "0x30000000"] n(2,3) obtain y where "pt_translate pt' 0x30000000 = Some y" "in_nvm y" by auto
  then show ?thesis using s' by (auto simp: se_demo_simps)
qed

lemma extends_undisturbed:
  assumes "extends t R s s'" "se_ok P s" "se_ok P s'"
  shows "undisturbed t s s'"
proof -
  obtain pt' where pt': "se_pts s' t = Some pt'" and
    m: "\<forall>y\<in>owned (se_sys s). (\<forall>x\<in>R. pt_translate pt' x \<noteq> Some y) \<longrightarrow> se_mem s' y = se_mem s y"
    using assms(1) unfolding extends_def by (elim exE conjE) (rule that)
  have "se_pts s' u = Some ptu \<and> (\<forall>x y. pt_translate ptu x = Some y \<longrightarrow> se_mem s' y = se_mem s y)"
    if u: "u \<noteq> t" "se_pts s u = Some ptu" for u ptu
  proof (intro conjI allI impI)
    show u': "se_pts s' u = Some ptu" using assms(1) u by (simp add: extends_def)
    fix x y assume y: "pt_translate ptu x = Some y"
    have "pt_translate pt' x' \<noteq> Some y" for x' using se_okD(4) [OF assms(3) u' pt' y] u(1) by blast
    then show "se_mem s' y = se_mem s y" using m se_okD(2) [OF assms(2) u(2) y] by blast
  qed
  then show ?thesis by (simp add: undisturbed_def)
qed

lemma running_ok:
  assumes "se_ok P s" "running s cid p pr pt"
  shows "pt_ok 12 pt"
proof -
  have "se_pts s (p_pTable pr) = Some pt" using assms(2) by (simp add: running_def)
  then show ?thesis by (rule se_okD(1) [OF assms(1)])
qed

lemma proxy_write_back:
  assumes "se_ok P s" "room P (length bs div 4096 + 2 + k) (se_sys s)" "running s cid p pr pt" "length bs < 2 ^ 32"
    and "\<forall>x\<in>set (byte_addrs a (length bs)). plain_at s cid x \<and> (pt_translate pt x \<noteq> None \<or> can_fault cid x s)"
  shows "\<exists>s' s''. writeBlob P (virtProxy P) cid a bs s = Done s' \<and> readBlob P (virtProxy P) cid a (length bs) s' = Done (s'', bs) \<and>
    se_ok P s' \<and> room P k (se_sys s') \<and> undisturbed (p_pTable pr) s s'"
proof -
  obtain s' pt' where s': "tryWriteBlob P (virtProxy P) cid a bs s = Done (s', True)" "se_ok P s'" "room P k (se_sys s')"
    "extends (p_pTable pr) (set (byte_addrs a (length bs))) s s'" "running s' cid p pr pt'"
    "\<forall>x\<in>set (byte_addrs a (length bs)). pt_translate pt' x \<noteq> None" "vread pt' (se_mem s') a (length bs) = bs"
    using next_page.write_blob [OF assms] unfolding virtProxy_def by blast
  obtain c where c: "sp_cacheLine P = 2 ^ c" "c < 32" using se_ok_params [OF assms(1)] by (auto simp: plain_params_def)
  have ok: "pt_ok 12 pt'" by (rule running_ok [OF s'(2,5)])
  obtain pt2 where "running s' cid p pr pt2" and pl: "\<And>a. plain_at s' cid a = plain_at s cid a"
    by (rule extends_running [OF s'(4) assms(3) refl]) blast
  have all: "\<forall>x\<in>set (byte_addrs a (length bs)). plain_at s' cid x \<and> pt_translate pt' x \<noteq> None"
    using assms(5) s'(6) pl by blast
  have "readBlob P (virtProxy P) cid a (length bs) s' = Done (if length bs = 0 then s' else warm_at cid s', bs)"
    using tryReadBlob_mapped [OF s'(5) ok c assms(4) all, of "virtProxy P"] s'(7) by (simp add: readBlob_def)
  then show ?thesis using s'(1-3) extends_undisturbed [OF s'(4) assms(1) s'(2)] by (auto simp: writeBlob_def)
qed

text \<open>
  C6. A write through the proxy of a thread reaches every address that has a page, lies in an
  area of the process or in its stack: missing pages are added, the bytes can be read back, the invariant of memory
  is kept and no other address space notices.
\<close>

theorem proxy_write_read:
  assumes "se_ok P s" "room P (length bs div 4096 + 2 + k) (se_sys s)" "running s cid p pr pt" "length bs < 2 ^ 32"
    and "\<forall>x\<in>set (byte_addrs a (length bs)). plain_at s cid x \<and> (pt_translate pt x \<noteq> None \<or> can_fault cid x s)"
  shows "\<exists>s' s''. writeBlob P (virtProxy P) cid a bs s = Done s' \<and> readBlob P (virtProxy P) cid a (length bs) s' = Done (s'', bs) \<and>
    se_ok P s' \<and> room P k (se_sys s') \<and> undisturbed (p_pTable pr) s s'"
  by (rule proxy_write_back [OF assms])

lemma served_demo:
  "served se_demo 0 (proc_demo 0) ms_demo"
  using th_demo_ready(1) [of 0] vma_demo_wf
  by (simp add: served_def se_demo_simps ms_demo_def MemState_def vmas_ok_simps)

lemma can_fault_demo:
  assumes "0x10000 \<le> a" "a < 0x18000"
  shows "can_fault 0 a se_demo"
  unfolding can_fault_def
proof (intro exI conjI)
  show "served se_demo (th_process (se_threads se_demo ! 0)) (proc_demo 0) ms_demo" using served_demo by (simp add: se_demo_simps)
  show "a \<in> covered (ms_vmaList ms_demo) \<or> ms_stackMin ms_demo \<le> a \<and> a < ms_stackBase ms_demo"
    using assms unfolding ms_demo_areas(2) by simp
  have "unat (a - take_bit 12 a) + 4096 \<le> 2 ^ 31"
    using page_member [OF page_start(1) page_start(2), of a] assms(2) by (simp add: word_less_nat_alt)
  then show "\<forall>c\<in>set (p_contextIds (proc_demo 0)). \<forall>x\<in>page_span 12 (a - take_bit 12 a) 1. plain_at se_demo c x"
    using page_plain_demo(1) [OF page_start(1) [of a]] by (simp add: se_demo_simps)
  show "0 < length (se_threads se_demo)" by (simp add: se_demo_simps)
qed

theorem proxy_write_read_witness:
  "\<exists>s' s''. writeBlob params_demo (virtProxy params_demo) 0 0x12ffe [1, 2, 3, 4] se_demo = Done s' \<and>
     readBlob params_demo (virtProxy params_demo) 0 0x12ffe 4 s' = Done (s'', [1, 2, 3, 4]) \<and> se_ok params_demo s'"
proof -
  define bs :: "8 word list" where "bs = [1, 2, 3, 4]"
  have n: "length bs = 4" by (simp add: bs_def)
  have b: "set (byte_addrs 0x12ffe (length bs)) = {0x12ffe, 0x12fff, 0x13000, 0x13001 :: addr}"
    unfolding n by (simp add: byte_addrs_def upt_rec)
  have r: "room params_demo (length bs div 4096 + 2 + 0) (se_sys se_demo)" by (rule room_demo) (simp add: n)
  have l: "length bs < 2 ^ 32" by (simp add: n)
  have "\<forall>x\<in>set (byte_addrs 0x12ffe (length bs)). plain_at se_demo 0 x \<and> (pt_translate pt_demo x \<noteq> None \<or> can_fault 0 x se_demo)"
    unfolding b using can_fault_demo th_demo_ready(2) [of _ 0] by (simp add: se_demo_simps)
  from proxy_write_read [OF se_demo_ok r se_demo_running(1) l this] show ?thesis
    unfolding n unfolding bs_def by (elim exE conjE) (intro exI conjI)
qed

text \<open>
  C9. A page fault in an area of a process succeeds: exactly the page of the address is added, it
  holds the bytes of the file that belong there, the invariant of memory is kept and nothing else in memory changes.
\<close>

theorem fault_loads_page:
  assumes "se_ok P s" "room P (Suc k) (se_sys s)" "served s p pr ms" "se_pts s (p_pTable pr) = Some pt" "p_contextIds pr \<noteq> []"
    and "a \<in> covered (ms_vmaList ms)" "pt_translate pt a = None"
    and "\<forall>c\<in>set (p_contextIds pr). \<forall>x\<in>page_span 12 (a - take_bit 12 a) 1. plain_at s c x"
  shows "\<exists>s' pt'. fixupFault P p a s = Done (s', True) \<and> se_ok P s' \<and> room P k (se_sys s') \<and> extends (p_pTable pr) {} s s' \<and>
    se_pts s' (p_pTable pr) = Some pt' \<and>
    (\<forall>x. pt_translate pt' x \<noteq> None \<longleftrightarrow> pt_translate pt x \<noteq> None \<or> x \<in> page_span 12 (a - take_bit 12 a) 1) \<and>
    (\<forall>x\<in>page_span 12 (a - take_bit 12 a) 1. \<forall>n b. (x, n, Some b) \<in> areas (ms_vmaList ms) \<longrightarrow>
       se_mem s' (the (pt_translate pt' x)) = b)"
  using fixupFault_area [OF assms(1-4,6-8)] assms(5) by simp

theorem fault_loads_page_witness:
  "\<exists>s' pt'. fixupFault params_demo 0 0x10123 se_file = Done (s', True) \<and> se_pts s' 0 = Some pt' \<and>
     se_mem s' (the (pt_translate pt' 0x10002)) = 9"
proof -
  let ?ms = "ms_demo\<lparr>ms_vmaList := [vma_file]\<rparr>"
  have wf: "vma_wf vma_file" "vma_set vma_file = {0x10000..<0x18000}"
    using vma_demo_wf by (simp_all add: vma_wf_def vma_file_def vma_demo_def vma_set_def v_start_def v_end_def aligned_lit)
  have sv: "served se_file 0 (proc_demo 0) ?ms"
    using th_demo_ready(1) [of 0] wf vma_demo_wf(3)
    by (simp add: served_def se_file_def se_demo_simps ms_demo_def MemState_def vmas_ok_simps vma_file_def)
  have p: "(0x10123 :: addr) - take_bit 12 0x10123 = 0x10000" by simp
  have "covered (ms_vmaList ?ms) = {0x10000..<0x18000}" using wf by (simp add: covered_def)
  then have in1: "0x10123 \<in> covered (ms_vmaList ?ms)" by simp
  have un: "pt_translate pt_demo 0x10123 = None" by (simp add: pt_demo_translate(1) page_span_def)
  have pl: "\<forall>c\<in>set (p_contextIds (proc_demo 0)). \<forall>x\<in>page_span 12 (0x10123 - take_bit 12 0x10123) 1. plain_at se_file c x"
    unfolding p using page_plain_demo(1) [of "0x10000"] by (simp add: se_demo_simps se_file_def)
  have ok: "se_ok params_demo se_file" using se_demo_ok by (simp add: se_ok_def se_file_def)
  have r: "room params_demo (Suc 0) (se_sys se_file)" using room_demo [of 1] by (simp add: se_file_def)
  have t: "se_pts se_file (p_pTable (proc_demo 0)) = Some pt_demo" "p_contextIds (proc_demo 0) \<noteq> []"
    by (simp_all add: se_demo_simps se_file_def)
  have b: "(0x10002, ''anon'', Some 9) \<in> areas (ms_vmaList ?ms)"
    using wf(2) by (simp add: areas_def area_def vma_file_def file_byte_def vma_demo_def v_start_def)
  from fault_loads_page [OF ok r sv t in1 un pl] obtain s' pt' where
    s': "fixupFault params_demo 0 0x10123 se_file = Done (s', True)" "se_pts s' (p_pTable (proc_demo 0)) = Some pt'" and
    m: "\<forall>x\<in>page_span 12 (0x10123 - take_bit 12 0x10123) 1. \<forall>n b. (x, n, Some b) \<in> areas (ms_vmaList ?ms) \<longrightarrow>
       se_mem s' (the (pt_translate pt' x)) = b"
    by (elim exE conjE) (rule that)
  have "0x10002 \<in> page_span 12 (0x10123 - take_bit 12 0x10123 :: addr) 1" by (simp add: page_span_def)
  then have "se_mem s' (the (pt_translate pt' 0x10002)) = 9" using m b by blast
  then show ?thesis using s' by (auto simp: se_demo_simps)
qed

text \<open>
  C10. A fault below the stack and within its limit makes the stack grow: the loop ends, every
  page from the one of the address up to the old end of the stack is added, and the end of the stack is recorded. No
  area is added for these pages.
\<close>

theorem stack_grows_to_fault:
  assumes "se_ok P s" "room P (n + k) (se_sys s)" "served s p pr ms" "se_pts s (p_pTable pr) = Some pt"
    and "a \<notin> covered (ms_vmaList ms)" "a < ms_stackMin ms" "ms_stackBase ms - ms_maxStackSize ms \<le> a"
    and "ms_maxStackSize ms \<le> ms_stackBase ms" "ms_stackMin ms \<le> ms_stackBase ms"
    and "take_bit 12 (ms_stackMin ms) = 0" "take_bit 12 (ms_stackBase ms - ms_maxStackSize ms) = 0"
    and "unat (ms_stackMin ms - (a - take_bit 12 a)) = n * 4096"
    and "\<forall>x\<in>{a - take_bit 12 a..<ms_stackMin ms}. pt_translate pt x = None"
  shows "\<exists>s' pt'. fixupFault P p a s = Done (s', True) \<and> se_ok P s' \<and> room P k (se_sys s') \<and>
    se_mss s' = (se_mss s)(p_memState pr \<mapsto> ms\<lparr>ms_stackMin := a - take_bit 12 a\<rparr>) \<and>
    se_pts s' (p_pTable pr) = Some pt' \<and>
    (\<forall>x. pt_translate pt' x \<noteq> None \<longleftrightarrow> pt_translate pt x \<noteq> None \<or> x \<in> {a - take_bit 12 a..<ms_stackMin ms})"
proof -
  obtain s' pt' where s': "fixupFault P p a s = Done (s', True)" "se_ok P s'" "room P k (se_sys s')" and
    e: "extends (p_pTable pr) {} (s\<lparr>se_mss := (se_mss s)(p_memState pr \<mapsto> ms\<lparr>ms_stackMin := a - take_bit 12 a\<rparr>)\<rparr>) s'" and
    t: "se_pts s' (p_pTable pr) = Some pt'"
      "\<forall>x. pt_translate pt' x \<noteq> None \<longleftrightarrow> pt_translate pt x \<noteq> None \<or> x \<in> {a - take_bit 12 a..<ms_stackMin ms}"
    using fixupFault_grow [OF assms] by (elim exE conjE) (rule that)
  have "se_mss s' = (se_mss s)(p_memState pr \<mapsto> ms\<lparr>ms_stackMin := a - take_bit 12 a\<rparr>)" using e by (simp add: extends_def)
  with s' t show ?thesis by (intro exI [of _ s'] exI [of _ pt'] conjI)
qed

theorem stack_grows_to_fault_witness:
  "\<exists>s' ms'. fixupFault params_demo 0 0x7ffc010 se_stack = Done (s', True) \<and> se_mss s' 0 = Some ms' \<and> ms_stackMin ms' = 0x7ffc000"
proof -
  let ?ms = "ms_demo\<lparr>ms_stackMin := 0x7ffe000\<rparr>"
  have sv: "served se_stack 0 (proc_demo 0) ?ms" using served_demo by (simp add: served_def se_stack_def se_demo_simps)
  have st: "ms_stackBase ms_demo = 0x8000000" "ms_maxStackSize ms_demo = 0x100000" by (simp_all add: ms_demo_def MemState_def)
  have p: "(0x7ffc010 :: addr) - take_bit 12 0x7ffc010 = 0x7ffc000" by simp
  have ok: "se_ok params_demo se_stack" using se_demo_ok by (simp add: se_ok_def se_stack_def)
  have r: "room params_demo (2 + 0) (se_sys se_stack)" using room_demo [of 2] by (simp add: se_stack_def)
  have t: "se_pts se_stack (p_pTable (proc_demo 0)) = Some pt_demo" by (simp add: se_demo_simps se_stack_def)
  have c: "0x7ffc010 \<notin> covered (ms_vmaList ?ms)" using ms_demo_areas(2) by simp
  have m: "0x7ffc010 < ms_stackMin ?ms" "ms_stackBase ?ms - ms_maxStackSize ?ms \<le> 0x7ffc010" "ms_maxStackSize ?ms \<le> ms_stackBase ?ms"
    "ms_stackMin ?ms \<le> ms_stackBase ?ms" "take_bit 12 (ms_stackMin ?ms) = 0" "take_bit 12 (ms_stackBase ?ms - ms_maxStackSize ?ms) = 0"
    "unat (ms_stackMin ?ms - (0x7ffc010 - take_bit 12 0x7ffc010)) = 2 * 4096"
    using st by simp_all
  have "pt_translate pt_demo x = None" if x: "0x7ffc000 \<le> x" for x
  proof -
    have "x \<notin> page_span 12 0x11000 1"
    proof
      assume "x \<in> page_span 12 0x11000 1"
      from page_member [OF _ this] have "unat x < 0x12000" by simp
      then show False using x by (simp add: word_le_nat_alt)
    qed
    then show ?thesis by (simp add: pt_demo_translate(1))
  qed
  then have un: "\<forall>x\<in>{0x7ffc010 - take_bit 12 0x7ffc010..<ms_stackMin ?ms}. pt_translate pt_demo x = None" unfolding p by simp
  from stack_grows_to_fault [OF ok r sv t c m un] show ?thesis
    unfolding p by (elim exE conjE) (auto simp: se_demo_simps)
qed



lemma vwrite_outside: "\<forall>x\<in>set (byte_addrs a (length bs)). the (pt_translate pt x) \<noteq> y \<Longrightarrow> vwrite pt m a bs y = m y"
  by (induction bs arbitrary: m a) (auto simp: byte_addrs_Suc)

lemma vread_vwrite:
  assumes "length bs \<le> 2 ^ 64" "inj_on (\<lambda>x. the (pt_translate pt x)) (set (byte_addrs a (length bs)))"
  shows "vread pt (vwrite pt m a bs) a (length bs) = bs"
  using assms
proof (induction bs arbitrary: m a)
  case Nil
  then show ?case by (simp add: vread_def byte_addrs_def)
next
  case (Cons b bs)
  let ?f = "\<lambda>x. the (pt_translate pt x)"
  have d: "distinct (byte_addrs a (length (b # bs)))" by (rule distinct_byte_addrs) (use Cons.prems(1) in simp)
  have "\<forall>x\<in>set (byte_addrs (a + 1) (length bs)). ?f x \<noteq> ?f a"
    using d Cons.prems(2) by (auto simp: byte_addrs_Suc inj_on_def)
  then have "vwrite pt (m(?f a := b)) (a + 1) bs (?f a) = b" by (simp add: vwrite_outside)
  moreover have "vread pt (vwrite pt (m(?f a := b)) (a + 1) bs) (a + 1) (length bs) = bs"
    by (rule Cons.IH) (use Cons.prems in \<open>simp_all add: byte_addrs_Suc\<close>)
  ultimately show ?case by (simp add: vread_def byte_addrs_Suc)
qed

lemma tryWriteString_mapped:
  assumes "running s cid p pr pt" "pt_ok 12 pt" "sp_cacheLine P = 2 ^ c" "c < 32" "0 \<notin> set cs"
    and "\<forall>x\<in>set (byte_addrs a (Suc (length cs))). plain_at s cid x \<and> pt_translate pt x \<noteq> None"
  shows "tryWriteString P fixup cid a cs s = Done (warm_at cid (s\<lparr>se_mem := vwrite pt (se_mem s) a (cs @ [0])\<rparr>), True)"
  using assms(1,5,6)
proof (induction cs arbitrary: a s)
  case Nil
  have "\<forall>x\<in>set (byte_addrs a (length [0 :: 8 word])). plain_at s cid x \<and> pt_translate pt x \<noteq> None" using Nil.prems(3) by simp
  from tryWriteBlob_mapped [OF Nil.prems(1) assms(2-4) _ this] show ?case by (simp add: fun_upd_def)
next
  case (Cons b cs)
  have all: "\<forall>x\<in>set (byte_addrs a (length [b])). plain_at s cid x \<and> pt_translate pt x \<noteq> None"
    "\<forall>x\<in>set (byte_addrs (a + 1) (Suc (length cs))). plain_at s cid x \<and> pt_translate pt x \<noteq> None"
    using Cons.prems(3) Ball_byte_addrs_append [of a 1 "Suc (length cs)"] by simp_all
  let ?s = "warm_at cid (s\<lparr>se_mem := vwrite pt (se_mem s) a [b]\<rparr>)"
  have w: "tryWriteBlob P fixup cid a [b] s = Done (?s, True)"
    using tryWriteBlob_mapped [OF Cons.prems(1) assms(2-4) _ all(1)] by simp
  have "tryWriteString P fixup cid (a + 1) cs ?s =
      Done (warm_at cid (?s\<lparr>se_mem := vwrite pt (se_mem ?s) (a + 1) (cs @ [0])\<rparr>), True)"
    by (rule Cons.IH) (use Cons.prems all(2) in simp_all)
  then show ?case using w Cons.prems(2) by simp
qed

lemma tryReadString_mapped:
  assumes "running s cid p pr pt" "pt_ok 12 pt" "sp_cacheLine P = 2 ^ c" "c < 32" "0 \<notin> set cs"
    and "\<forall>x\<in>set (byte_addrs a (Suc (length cs))). plain_at s cid x \<and> pt_translate pt x \<noteq> None"
    and "vread pt (se_mem s) a (Suc (length cs)) = cs @ [0]"
  shows "tryReadString P fixup cid str a s = Done ((warm_at cid s, str @ cs), True)"
  using assms(1,5-7)
proof (induction cs arbitrary: a s str)
  case Nil
  have "tryReadBlob P fixup cid a 1 s = Done ((warm_at cid s, [0]), True)"
    using tryReadBlob_mapped [OF Nil.prems(1) assms(2-4), of 1 a fixup] Nil.prems(3,4) by simp
  then show ?case by (subst tryReadString.simps) simp
next
  case (Cons b cs)
  have all: "\<forall>x\<in>set (byte_addrs a 1). plain_at s cid x \<and> pt_translate pt x \<noteq> None"
    "\<forall>x\<in>set (byte_addrs (a + 1) (Suc (length cs))). plain_at s cid x \<and> pt_translate pt x \<noteq> None"
    using Cons.prems(3) Ball_byte_addrs_append [of a 1 "Suc (length cs)"] by simp_all
  have "vread pt (se_mem s) a 1 @ vread pt (se_mem s) (a + 1) (Suc (length cs)) = [b] @ (cs @ [0])"
    using Cons.prems(4) vread_append [of pt "se_mem s" a 1 "Suc (length cs)"] by simp
  then have v: "vread pt (se_mem s) a 1 = [b]" "vread pt (se_mem s) (a + 1) (Suc (length cs)) = cs @ [0]"
    by (auto simp: vread_def byte_addrs_Suc)
  have r: "tryReadBlob P fixup cid a 1 s = Done ((warm_at cid s, [b]), True)"
    using tryReadBlob_mapped [OF Cons.prems(1) assms(2-4) _ all(1), of fixup] v(1) by simp
  have "tryReadString P fixup cid (str @ [b]) (a + 1) (warm_at cid s) = Done ((warm_at cid (warm_at cid s), (str @ [b]) @ cs), True)"
    by (rule Cons.IH) (use Cons.prems all(2) v(2) in simp_all)
  then show ?case using r Cons.prems(2) by (subst tryReadString.simps) simp
qed

text \<open>
  C12. Reading a string from memory in which it ends terminates, and returns what was
  written: a string without zero bytes that is written to mapped memory is read back unchanged.
\<close>

theorem string_round_trip:
  assumes "se_ok P s" "running s cid p pr pt" "0 \<notin> set cs" "length cs < 2 ^ 63"
    and "\<forall>x\<in>set (byte_addrs a (Suc (length cs))). plain_at s cid x \<and> pt_translate pt x \<noteq> None"
  shows "\<exists>s'. writeString P fixup cid a cs s = Done s' \<and> readString P fixup cid a s' = Done (s', cs) \<and>
    s' = warm_at cid (s\<lparr>se_mem := vwrite pt (se_mem s) a (cs @ [0])\<rparr>)"
proof -
  obtain c where c: "sp_cacheLine P = 2 ^ c" "c < 32" using se_ok_params [OF assms(1)] by (auto simp: plain_params_def)
  note ok = running_ok [OF assms(1,2)]
  have t: "se_pts s (p_pTable pr) = Some pt" using assms(2) by (simp add: running_def)
  let ?s = "warm_at cid (s\<lparr>se_mem := vwrite pt (se_mem s) a (cs @ [0])\<rparr>)"
  have "inj_on (\<lambda>x. the (pt_translate pt x)) (set (byte_addrs a (Suc (length cs))))"
  proof (rule inj_onI)
    fix x x' assume x: "x \<in> set (byte_addrs a (Suc (length cs)))" "x' \<in> set (byte_addrs a (Suc (length cs)))"
      "the (pt_translate pt x) = the (pt_translate pt x')"
    obtain y where "pt_translate pt x = Some y" using assms(5) x(1) by blast
    moreover obtain y' where "pt_translate pt x' = Some y'" using assms(5) x(2) by blast
    ultimately show "x = x'" using se_okD(5) [OF assms(1) t t] x(3) by simp
  qed
  then have v: "vread pt (vwrite pt (se_mem s) a (cs @ [0])) a (Suc (length cs)) = cs @ [0]"
    using vread_vwrite [of "cs @ [0]" pt a] assms(4) by simp
  have w: "writeString P fixup cid a cs s = Done ?s"
    using tryWriteString_mapped [OF assms(2) ok c assms(3,5), of fixup] by (simp add: writeString_def)
  have r: "running ?s cid p pr pt" "\<forall>x\<in>set (byte_addrs a (Suc (length cs))). plain_at ?s cid x \<and> pt_translate pt x \<noteq> None"
    using assms(2,5) by simp_all
  have "readString P fixup cid a ?s = Done (?s, cs)"
    using tryReadString_mapped [OF r(1) ok c assms(3) r(2), of fixup "[]"] v by (simp add: readString_def)
  then show ?thesis using w by blast
qed

theorem string_round_trip_witness:
  "\<exists>s'. writeString params_demo (virtProxy params_demo) 0 0x11ffc [104, 105] se_demo = Done s' \<and>
     readString params_demo (virtProxy params_demo) 0 0x11ffc s' = Done (s', [104, 105])"
proof -
  define cs :: "8 word list" where "cs = [104, 105]"
  have b: "set (byte_addrs 0x11ffc (Suc (length cs))) = {0x11ffc, 0x11ffd, 0x11ffe :: addr}"
    by (simp add: cs_def byte_addrs_def upt_rec)
  have c: "0 \<notin> set cs" "length cs < 2 ^ 63" by (simp_all add: cs_def)
  have "\<forall>x\<in>set (byte_addrs 0x11ffc (Suc (length cs))). plain_at se_demo 0 x \<and> pt_translate pt_demo x \<noteq> None"
    unfolding b using th_demo_ready(2) [of _ 0] by (simp add: se_demo_simps pt_demo_translate(1) page_span_def)
  from string_round_trip [OF se_demo_ok se_demo_running(1) c this, of "virtProxy params_demo"] show ?thesis
    unfolding cs_def by (elim exE conjE) (intro exI conjI)
qed

end
