(* ===== verification/Byte_Order.thy ===== *)
theory Byte_Order
  imports Process_Memory
begin

text \<open>
  Byte order: the swaps and conversions of \<open>src/sim/byteswap.hh\<close> and the typed accesses of \<open>src/mem/port_proxy.hh\<close>.

  The byte order of the host, which the source takes from the compiler, is an argument. On Linux the swaps call \<open>bswap_64\<close>,
  \<open>bswap_32\<close> and \<open>bswap_16\<close> of the C library, for which the source gives the expressions modelled here as a replacement.
\<close>

unbundle bit_operations_syntax

section \<open>Swapping and converting\<close>

datatype byte_order = Big | Little

definition swap_byte64 :: "64 word \<Rightarrow> 64 word" where
  "swap_byte64 x =
     push_bit 56 (x AND 0xff) OR push_bit 40 (x AND 0xff00) OR push_bit 24 (x AND 0xff0000) OR push_bit 8 (x AND 0xff000000) OR
     drop_bit 8 (x AND 0xff00000000) OR drop_bit 24 (x AND 0xff0000000000) OR drop_bit 40 (x AND 0xff000000000000) OR
     drop_bit 56 (x AND 0xff00000000000000)"

definition swap_byte32 :: "32 word \<Rightarrow> 32 word" where
  "swap_byte32 x = push_bit 24 (x AND 0xff) OR push_bit 8 (x AND 0xff00) OR drop_bit 8 (x AND 0xff0000) OR drop_bit 24 (x AND 0xff000000)"

definition swap_byte16 :: "16 word \<Rightarrow> 16 word" where
  "swap_byte16 x = push_bit 8 (x AND 0xff) OR drop_bit 8 (x AND 0xff00)"

definition swap_byte :: "'a::len word \<Rightarrow> 'a word res" where
  "swap_byte x =
     (if LENGTH('a) = 64 then Ok (ucast (swap_byte64 (ucast x)))
      else if LENGTH('a) = 32 then Ok (ucast (swap_byte32 (ucast x)))
      else if LENGTH('a) = 16 then Ok (ucast (swap_byte16 (ucast x)))
      else if LENGTH('a) = 8 then Ok x
      else Err Panic)"

definition htole :: "byte_order \<Rightarrow> 'a::len word \<Rightarrow> 'a word res" where
  "htole host v = (case host of Big \<Rightarrow> swap_byte v | Little \<Rightarrow> Ok v)"

definition letoh :: "byte_order \<Rightarrow> 'a::len word \<Rightarrow> 'a word res" where
  "letoh host v = (case host of Big \<Rightarrow> swap_byte v | Little \<Rightarrow> Ok v)"

definition htobe :: "byte_order \<Rightarrow> 'a::len word \<Rightarrow> 'a word res" where
  "htobe host v = (case host of Big \<Rightarrow> Ok v | Little \<Rightarrow> swap_byte v)"

definition betoh :: "byte_order \<Rightarrow> 'a::len word \<Rightarrow> 'a word res" where
  "betoh host v = (case host of Big \<Rightarrow> Ok v | Little \<Rightarrow> swap_byte v)"

definition htog :: "byte_order \<Rightarrow> 'a::len word \<Rightarrow> byte_order \<Rightarrow> 'a word res" where
  "htog host v guest = (if guest = Big then htobe host v else htole host v)"

definition gtoh :: "byte_order \<Rightarrow> 'a::len word \<Rightarrow> byte_order \<Rightarrow> 'a word res" where
  "gtoh host v guest = (if guest = Big then betoh host v else letoh host v)"

section \<open>Typed accesses\<close>

text \<open>The bytes of a value in the memory of a machine, and the value of bytes.\<close>

definition le_bytes :: "'a::len word \<Rightarrow> 8 word list" where
  "le_bytes x = map (\<lambda>i. ucast (drop_bit (8 * i) x)) [0..<LENGTH('a) div 8]"

definition bytes_in :: "byte_order \<Rightarrow> 'a::len word \<Rightarrow> 8 word list" where
  "bytes_in bo x = (case bo of Little \<Rightarrow> le_bytes x | Big \<Rightarrow> rev (le_bytes x))"

fun le_value :: "8 word list \<Rightarrow> 'a::len word" where
  "le_value [] = 0"
| "le_value (b # bs) = ucast b OR push_bit 8 (le_value bs)"

definition value_in :: "byte_order \<Rightarrow> 8 word list \<Rightarrow> 'a::len word" where
  "value_in bo bs = (case bo of Little \<Rightarrow> le_value bs | Big \<Rightarrow> le_value (rev bs))"

definition proxy_read :: "byte_order \<Rightarrow> sys_params \<Rightarrow> fixup \<Rightarrow> nat \<Rightarrow> addr \<Rightarrow> se \<Rightarrow> (se \<times> 'a::len word) run" where
  "proxy_read host P fixup cid a s =
     bind_run (readBlob P fixup cid a (LENGTH('a) div 8) s) (\<lambda>(s, bs). Done (s, value_in host bs))"

definition proxy_write :: "byte_order \<Rightarrow> sys_params \<Rightarrow> fixup \<Rightarrow> nat \<Rightarrow> addr \<Rightarrow> 'a::len word \<Rightarrow> se \<Rightarrow> se run" where
  "proxy_write host P fixup cid a x s = writeBlob P fixup cid a (bytes_in host x) s"

definition proxy_read_order :: "byte_order \<Rightarrow> sys_params \<Rightarrow> fixup \<Rightarrow> nat \<Rightarrow> addr \<Rightarrow> byte_order \<Rightarrow> se \<Rightarrow> (se \<times> 'a::len word) run" where
  "proxy_read_order host P fixup cid a guest s =
     bind_run (readBlob P fixup cid a (LENGTH('a) div 8) s) (\<lambda>(s, bs).
     bind_run (Some (gtoh host (value_in host bs) guest)) (\<lambda>x. Done (s, x)))"

definition proxy_write_order :: "byte_order \<Rightarrow> sys_params \<Rightarrow> fixup \<Rightarrow> nat \<Rightarrow> addr \<Rightarrow> 'a::len word \<Rightarrow> byte_order \<Rightarrow> se \<Rightarrow> se run" where
  "proxy_write_order host P fixup cid a x guest s =
     bind_run (Some (htog host x guest)) (\<lambda>x. writeBlob P fixup cid a (bytes_in host x) s)"

text \<open>The widths for which there is a swap.\<close>

definition swappable :: "nat \<Rightarrow> bool" where
  "swappable n \<longleftrightarrow> n \<in> {8, 16, 32, 64}"

section \<open>Swaps reverse the bytes\<close>

lemma byte_field: "(0xff00 :: 'a::len word) = push_bit 8 (mask 8)" "(0xff :: 'a word) = mask 8" "(0xff0000 :: 'a word) = push_bit 16 (mask 8)"
  "(0xff000000 :: 'a word) = push_bit 24 (mask 8)" "(0xff00000000 :: 'a word) = push_bit 32 (mask 8)" "(0xff0000000000 :: 'a word) = push_bit 40 (mask 8)"
  "(0xff000000000000 :: 'a word) = push_bit 48 (mask 8)" "(0xff00000000000000 :: 'a word) = push_bit 56 (mask 8)"
  by (simp_all add: mask_eq_exp_minus_1 push_bit_eq_mult)

lemma swap_bits:
  "bit (swap_byte64 x) n \<longleftrightarrow> n < 64 \<and> bit x (8 * (7 - n div 8) + n mod 8)"
  "bit (swap_byte32 y) n \<longleftrightarrow> n < 32 \<and> bit y (8 * (3 - n div 8) + n mod 8)"
  "bit (swap_byte16 z) n \<longleftrightarrow> n < 16 \<and> bit z (8 * (1 - n div 8) + n mod 8)"
proof -
  define i j where "i = n div 8" and "j = n mod 8"
  have n: "n = 8 * i + j" "j < 8" by (simp_all add: i_def j_def)
  have *: "i = 0 \<or> i = 1 \<or> i = 2 \<or> i = 3 \<or> i = 4 \<or> i = 5 \<or> i = 6 \<or> i = 7 \<or> 8 \<le> i" by auto
  show "bit (swap_byte64 x) n \<longleftrightarrow> n < 64 \<and> bit x (8 * (7 - n div 8) + n mod 8)"
    unfolding i_def [symmetric] j_def [symmetric] using * n(2) unfolding n(1) swap_byte64_def byte_field
    by (elim disjE) (simp_all add: bit_simps)
  show "bit (swap_byte32 y) n \<longleftrightarrow> n < 32 \<and> bit y (8 * (3 - n div 8) + n mod 8)"
    unfolding i_def [symmetric] j_def [symmetric] using * n(2) unfolding n(1) swap_byte32_def byte_field
    by (elim disjE) (simp_all add: bit_simps)
  show "bit (swap_byte16 z) n \<longleftrightarrow> n < 16 \<and> bit z (8 * (1 - n div 8) + n mod 8)"
    unfolding i_def [symmetric] j_def [symmetric] using * n(2) unfolding n(1) swap_byte16_def byte_field
    by (elim disjE) (simp_all add: bit_simps)
qed

lemma swap_byte_bits:
  assumes "swappable LENGTH('a::len)"
  obtains y where "swap_byte (x :: 'a word) = Ok y" "\<And>n. n < LENGTH('a) \<Longrightarrow> bit y n = bit x (8 * (LENGTH('a) div 8 - 1 - n div 8) + n mod 8)"
proof -
  consider "LENGTH('a) = 8" | "LENGTH('a) = 16" | "LENGTH('a) = 32" | "LENGTH('a) = 64" using assms by (auto simp: swappable_def)
  then have "\<exists>y. swap_byte x = Ok y \<and> (\<forall>n<LENGTH('a). bit y n = bit x (8 * (LENGTH('a) div 8 - 1 - n div 8) + n mod 8))"
  proof cases
    case 1
    then show ?thesis by (auto simp: swap_byte_def)
  next
    case 2
    have "8 * (1 - n div 8) + n mod 8 < 16" if "n < 16" for n :: nat using that by presburger
    with 2 show ?thesis by (auto simp: swap_byte_def bit_simps swap_bits)
  next
    case 3
    have "8 * (3 - n div 8) + n mod 8 < 32" if "n < 32" for n :: nat using that by presburger
    with 3 show ?thesis by (auto simp: swap_byte_def bit_simps swap_bits)
  next
    case 4
    have "8 * (7 - n div 8) + n mod 8 < 64" if "n < 64" for n :: nat using that by presburger
    with 4 show ?thesis by (auto simp: swap_byte_def bit_simps swap_bits)
  qed
  then show thesis using that by blast
qed

lemma swap_byte_Ok: "swappable LENGTH('a::len) \<Longrightarrow> \<exists>y. swap_byte (x :: 'a word) = Ok y"
  by (auto simp: swappable_def swap_byte_def)

lemma le_bytes_bit: "i < LENGTH('a::len) div 8 \<Longrightarrow> bit (le_bytes (x :: 'a word) ! i) n \<longleftrightarrow> n < 8 \<and> bit x (8 * i + n)"
  by (auto simp: le_bytes_def bit_simps add.commute)

lemma length_le_bytes [simp]: "length (le_bytes (x :: 'a::len word)) = LENGTH('a) div 8"
  by (simp add: le_bytes_def)

lemma swap_byte_rev:
  assumes "swappable LENGTH('a::len)" "swap_byte (x :: 'a word) = Ok y"
  shows "le_bytes y = rev (le_bytes x)"
proof (rule nth_equalityI)
  fix i assume "i < length (le_bytes y)"
  then have i: "i < LENGTH('a) div 8" by simp
  have b: "\<And>n. n < LENGTH('a) \<Longrightarrow> bit y n = bit x (8 * (LENGTH('a) div 8 - 1 - n div 8) + n mod 8)"
    using swap_byte_bits [OF assms(1), of x] assms(2) by auto
  show "le_bytes y ! i = rev (le_bytes x) ! i"
  proof (rule bit_word_eqI)
    fix n :: nat assume "n < LENGTH(8)"
    then have n: "n < 8" by simp
    have "8 * i + n < LENGTH('a)" using i n by linarith
    then have "bit y (8 * i + n) = bit x (8 * (LENGTH('a) div 8 - 1 - i) + n)" using b [of "8 * i + n"] n by simp
    then show "bit (le_bytes y ! i) n = bit (rev (le_bytes x) ! i) n" using i n by (simp add: rev_nth le_bytes_bit)
  qed
qed simp

lemma le_value_bit: "bit (le_value bs :: 'a::len word) n \<longleftrightarrow> n < LENGTH('a) \<and> n div 8 < length bs \<and> bit (bs ! (n div 8)) (n mod 8)"
proof (induction bs arbitrary: n)
  case (Cons b bs)
  show ?case
  proof (cases "n < 8")
    case True
    then show ?thesis by (auto simp: bit_simps)
  next
    case False
    define q where "q = (n - 8) div 8"
    have d: "n div 8 = Suc q" "(n - 8) mod 8 = n mod 8" using False by (simp_all add: q_def le_div_geq le_mod_geq)
    have "\<not> bit b n" using False by (auto dest: bit_imp_le_length)
    then show ?thesis using False d Cons.IH [of "n - 8"] by (auto simp: bit_simps not_less q_def [symmetric])
  qed
qed simp

lemma le_value_le_bytes: "8 dvd LENGTH('a::len) \<Longrightarrow> le_value (le_bytes x) = (x :: 'a word)"
proof (rule bit_word_eqI)
  fix n assume d: "8 dvd LENGTH('a)" and n: "n < LENGTH('a)"
  then have "n div 8 < LENGTH('a) div 8" by (auto elim!: dvdE)
  then show "bit (le_value (le_bytes x) :: 'a word) n = bit x n" using n by (simp add: le_value_bit le_bytes_bit)
qed

lemma value_bytes: "8 dvd LENGTH('a::len) \<Longrightarrow> value_in bo (bytes_in bo x) = (x :: 'a word)"
  by (cases bo) (simp_all add: value_in_def bytes_in_def le_value_le_bytes)

lemma htog_bytes:
  assumes "swappable LENGTH('a::len)"
  obtains y where "htog host (x :: 'a word) guest = Ok y" "bytes_in host y = bytes_in guest x"
proof -
  obtain z where z: "swap_byte x = Ok z" using swap_byte_Ok [OF assms] by blast
  note r = swap_byte_rev [OF assms z]
  have same: "htog host x host = Ok x" by (cases host) (simp_all add: htog_def htobe_def htole_def)
  have other: "htog host x guest = Ok z \<and> bytes_in host z = bytes_in guest x" if "host \<noteq> guest"
    using that z r by (cases host; cases guest) (simp_all add: htog_def htobe_def htole_def bytes_in_def)
  show thesis
  proof (cases "host = guest")
    case True
    show thesis by (rule that [of x]) (use same True in simp_all)
  next
    case False
    show thesis by (rule that [of z]) (use other [OF False] in simp_all)
  qed
qed

lemma gtoh_bytes:
  assumes "swappable LENGTH('a::len)"
  shows "gtoh host (value_in host (bytes_in guest x)) guest = Ok (x :: 'a word)"
proof -
  have d: "8 dvd LENGTH('a)" using assms by (auto simp: swappable_def)
  obtain z where z: "swap_byte x = Ok z" using swap_byte_Ok [OF assms] by blast
  obtain w where w: "swap_byte z = Ok w" using swap_byte_Ok [OF assms] by blast
  have "le_bytes w = le_bytes x" using swap_byte_rev [OF assms z] swap_byte_rev [OF assms w] by simp
  then have "w = x" using le_value_le_bytes [OF d] by metis
  moreover have "le_value (rev (le_bytes x)) = z" using swap_byte_rev [OF assms z] le_value_le_bytes [OF d, of z] by simp
  ultimately show ?thesis using w
    by (cases host; cases guest) (simp_all add: gtoh_def betoh_def letoh_def value_in_def bytes_in_def le_value_le_bytes [OF d])
qed

text \<open>
  C17. A typed write with a byte order puts the bytes of the value into the memory of the process in
  that order, whatever the byte order of the host, and a typed read with the same byte order returns the value, also on a
  host of the other byte order.
\<close>

theorem typed_access_portable:
  fixes x :: "'a::len word"
  assumes "swappable LENGTH('a)" "se_ok P s" "room P (2 + k) (se_sys s)" "running s cid p pr pt"
    and "\<forall>b\<in>set (byte_addrs a (LENGTH('a) div 8)). plain_at s cid b \<and> (pt_translate pt b \<noteq> None \<or> can_fault cid b s)"
  shows "\<exists>s' s''. proxy_write_order host P (virtProxy P) cid a x guest s = Done s' \<and>
    writeBlob P (virtProxy P) cid a (bytes_in guest x) s = Done s' \<and>
    proxy_read_order host' P (virtProxy P) cid a guest s' = Done (s'', x) \<and> se_ok P s'"
proof -
  define bs where "bs = bytes_in guest x"
  have l: "length bs = LENGTH('a) div 8" by (cases guest) (simp_all add: bs_def bytes_in_def)
  have "length bs \<le> 8" using assms(1) unfolding l by (auto simp: swappable_def)
  then have n: "length bs < 2 ^ 32" "length bs div 4096 = 0" by simp_all
  have r: "room P (length bs div 4096 + 2 + k) (se_sys s)" using assms(3) n(2) by simp
  obtain s' s'' where s': "writeBlob P (virtProxy P) cid a bs s = Done s'" "readBlob P (virtProxy P) cid a (length bs) s' = Done (s'', bs)" "se_ok P s'"
    using proxy_write_back [OF assms(2) r assms(4) n(1), of a] assms(5) unfolding l by blast
  obtain y where y: "htog host x guest = Ok y" "bytes_in host y = bs" using htog_bytes [OF assms(1), of host x guest] unfolding bs_def by blast
  have "proxy_write_order host P (virtProxy P) cid a x guest s = Done s'" using y s'(1) by (simp add: proxy_write_order_def)
  moreover have "proxy_read_order host' P (virtProxy P) cid a guest s' = Done (s'', x)"
    using s'(2) gtoh_bytes [OF assms(1), of host' guest x] unfolding l by (simp add: proxy_read_order_def bs_def)
  ultimately show ?thesis using s'(1,3) unfolding bs_def [symmetric] by (intro exI conjI)
qed

theorem typed_access_portable_witness:
  "\<exists>s' s''. proxy_write_order Little params_demo (virtProxy params_demo) 0 0x12ffe (0x01020304 :: 32 word) Big se_demo = Done s' \<and>
     writeBlob params_demo (virtProxy params_demo) 0 0x12ffe [1, 2, 3, 4] se_demo = Done s' \<and>
     proxy_read_order Big params_demo (virtProxy params_demo) 0 0x12ffe Big s' = Done (s'', 0x01020304 :: 32 word)"
proof -
  have b: "bytes_in Big (0x01020304 :: 32 word) = [1, 2, 3, 4]"
    by (simp add: bytes_in_def le_bytes_def upt_rec)
  have a: "set (byte_addrs 0x12ffe (LENGTH(32) div 8)) = {0x12ffe, 0x12fff, 0x13000, 0x13001 :: addr}"
    by (simp add: byte_addrs_def upt_rec)
  have sw: "swappable LENGTH(32)" by (simp add: swappable_def)
  have r: "room params_demo (2 + 0) (se_sys se_demo)" by (rule room_demo) simp
  have "\<forall>b\<in>set (byte_addrs 0x12ffe (LENGTH(32) div 8)). plain_at se_demo 0 b \<and> (pt_translate pt_demo b \<noteq> None \<or> can_fault 0 b se_demo)"
    unfolding a using can_fault_demo th_demo_ready(2) [of _ 0] by (simp add: se_demo_simps)
  from typed_access_portable [OF sw se_demo_ok r se_demo_running(1) this, of Little "0x01020304" Big Big] show ?thesis
    unfolding b by (elim exE conjE) (intro exI conjI)
qed

end
