(* ===== verification/Fd_Array.thy ===== *)
theory Fd_Array
  imports Prelude
begin

text \<open>
  File descriptors of a process: the entries of \<open>src/sim/fd_entry.hh\<close>, the table of \<open>src/sim/fd_array.cc\<close>, and the system
  calls of \<open>src/sim/syscall_emul.cc\<close> that only change the table.

  A host-backed entry names a descriptor of the host. The host is a parameter: the calls of POSIX that the code makes, on
  a state of their own. What they do to the set of open descriptors is stated in \<open>posix_ok\<close>.
\<close>

unbundle bit_operations_syntax

section \<open>The host\<close>

record 'h posix =
  px_open :: "string \<Rightarrow> int \<Rightarrow> int \<Rightarrow> 'h \<Rightarrow> int \<times> 'h"
  px_close :: "int \<Rightarrow> 'h \<Rightarrow> int \<times> 'h"
  px_dup :: "int \<Rightarrow> 'h \<Rightarrow> int \<times> 'h"
  px_dup2 :: "int \<Rightarrow> int \<Rightarrow> 'h \<Rightarrow> int \<times> 'h"
  px_pipe :: "'h \<Rightarrow> (int \<times> int) option \<times> 'h"
  px_lseek :: "int \<Rightarrow> int \<Rightarrow> int \<Rightarrow> 'h \<Rightarrow> int \<times> 'h"
  px_fcntl :: "int \<Rightarrow> int \<Rightarrow> int \<Rightarrow> 'h \<Rightarrow> int \<times> 'h"
  px_fcntl2 :: "int \<Rightarrow> int \<Rightarrow> 'h \<Rightarrow> int \<times> 'h"
  px_errno :: "'h \<Rightarrow> int"

text \<open>Constants of the host's headers.\<close>

definition O_RDONLY :: int where "O_RDONLY = 0"
definition O_WRONLY :: int where "O_WRONLY = 1"
definition O_CREAT :: int where "O_CREAT = 0x40"
definition O_TRUNC :: int where "O_TRUNC = 0x200"
definition SEEK_SET :: int where "SEEK_SET = 0"
definition SEEK_CUR :: int where "SEEK_CUR = 1"
definition EBADF :: int where "EBADF = 9"
definition EMFILE :: int where "EMFILE = 24"

section \<open>Entries\<close>

datatype end_type = Read_End | Write_End

datatype fd_kind = Plain | File string "64 word" | Pipe int end_type | Socket int int int

record hb_entry =
  hb_closeOnExec :: bool
  hb_flags :: int
  hb_simFD :: int
  hb_kind :: fd_kind

datatype fd_entry = HBFDEntry hb_entry | DeviceFDEntry bool nat string

definition FileFDEntry :: "int \<Rightarrow> int \<Rightarrow> string \<Rightarrow> 64 word \<Rightarrow> bool \<Rightarrow> hb_entry" where
  "FileFDEntry sim_fd flags file_name file_offset coe =
     \<lparr>hb_closeOnExec = coe, hb_flags = flags, hb_simFD = sim_fd, hb_kind = File file_name file_offset\<rparr>"

definition PipeFDEntry :: "int \<Rightarrow> int \<Rightarrow> end_type \<Rightarrow> bool \<Rightarrow> hb_entry" where
  "PipeFDEntry sim_fd flags pipe_end_type coe =
     \<lparr>hb_closeOnExec = coe, hb_flags = flags, hb_simFD = sim_fd, hb_kind = Pipe (- 1) pipe_end_type\<rparr>"

definition SocketFDEntry :: "int \<Rightarrow> int \<Rightarrow> int \<Rightarrow> int \<Rightarrow> bool \<Rightarrow> hb_entry" where
  "SocketFDEntry sim_fd domain type protocol coe =
     \<lparr>hb_closeOnExec = coe, hb_flags = 0, hb_simFD = sim_fd, hb_kind = Socket domain type protocol\<rparr>"

text \<open>\<open>clone\<close> calls the copy constructor, whose second parameter resets the close-on-exec flag.\<close>

definition hb_clone :: "hb_entry \<Rightarrow> hb_entry" where
  "hb_clone e = e\<lparr>hb_closeOnExec := False\<rparr>"

fun fde_clone :: "fd_entry \<Rightarrow> fd_entry" where
  "fde_clone (HBFDEntry e) = HBFDEntry (hb_clone e)"
| "fde_clone (DeviceFDEntry _ driver file_name) = DeviceFDEntry False driver file_name"

section \<open>The table\<close>

record fd_array =
  fa_fdArray :: "fd_entry option list"
  fa_input :: string
  fa_output :: string
  fa_errout :: string

definition numFDs :: nat where "numFDs = 1024"

definition imap :: "string \<rightharpoonup> int" where
  "imap = map_of [('''', - 1), (''cin'', 0), (''stdin'', 0)]"

definition oemap :: "string \<rightharpoonup> int" where
  "oemap = map_of [('''', - 1), (''cout'', 1), (''stdout'', 1), (''cerr'', 2), (''stderr'', 2)]"

definition openFile :: "'h posix \<Rightarrow> string \<Rightarrow> int \<Rightarrow> int \<Rightarrow> 'h \<Rightarrow> (int \<times> 'h) res" where
  "openFile H filename flags mode h =
     (case px_open H filename flags mode h of (sim_fd, h) \<Rightarrow> if sim_fd \<noteq> - 1 then Ok (sim_fd, h) else Err Fatal)"

definition openInputFile :: "'h posix \<Rightarrow> string \<Rightarrow> 'h \<Rightarrow> (int \<times> 'h) res" where
  "openInputFile H filename h = openFile H filename O_RDONLY 0 h"

text \<open>Output files are relative to the output directory \<open>dir\<close> of the simulator.\<close>

definition isAbsolute :: "string \<Rightarrow> bool" where
  "isAbsolute name = (case name of [] \<Rightarrow> False | c # _ \<Rightarrow> c = CHR ''/'')"

definition out_resolve :: "string \<Rightarrow> string \<Rightarrow> string" where
  "out_resolve dir name = (if \<not> isAbsolute name then dir @ name else name)"

definition openOutputFile :: "string \<Rightarrow> 'h posix \<Rightarrow> string \<Rightarrow> 'h \<Rightarrow> (int \<times> 'h) res" where
  "openOutputFile dir H filename h = openFile H (out_resolve dir filename) (O_WRONLY OR O_CREAT OR O_TRUNC) 436 h"

definition std_fd :: "(string \<rightharpoonup> int) \<Rightarrow> (string \<Rightarrow> 'h \<Rightarrow> (int \<times> 'h) res) \<Rightarrow> string \<Rightarrow> 'h \<Rightarrow> (int \<times> 'h) res" where
  "std_fd dict opener name h = (case dict name of Some fd \<Rightarrow> Ok (fd, h) | None \<Rightarrow> opener name h)"

definition FDArray :: "string \<Rightarrow> 'h posix \<Rightarrow> string \<Rightarrow> string \<Rightarrow> string \<Rightarrow> 'h \<Rightarrow> (fd_array \<times> 'h) res" where
  "FDArray dir H input output errout h =
     bind_res (std_fd imap (openInputFile H) input h) (\<lambda>(in_fd, h).
     bind_res (std_fd oemap (openOutputFile dir H) output h) (\<lambda>(out_fd, h).
     bind_res (if output = errout then Ok (out_fd, h) else std_fd oemap (openOutputFile dir H) errout h) (\<lambda>(err_fd, h).
       let out_flags = O_WRONLY OR O_CREAT OR O_TRUNC
       in Ok (\<lparr>fa_fdArray = (replicate numFDs None)
                 [0 := Some (HBFDEntry (FileFDEntry in_fd O_RDONLY input 0 False)),
                  1 := Some (HBFDEntry (FileFDEntry out_fd out_flags output 0 False)),
                  2 := Some (HBFDEntry (FileFDEntry err_fd out_flags errout 0 False))],
               fa_input = input, fa_output = output, fa_errout = errout\<rparr>, h))))"

fun file_offsets :: "'h posix \<Rightarrow> fd_entry option list \<Rightarrow> 'h \<Rightarrow> fd_entry option list \<times> 'h" where
  "file_offsets H [] h = ([], h)"
| "file_offsets H (fdp # fds) h =
     (case fdp of
        Some (HBFDEntry e) \<Rightarrow>
          (case hb_kind e of
             File name _ \<Rightarrow>
               (case px_lseek H (hb_simFD e) 0 SEEK_CUR h of (off, h) \<Rightarrow>
                case file_offsets H fds h of (fds, h) \<Rightarrow> (Some (HBFDEntry (e\<lparr>hb_kind := File name (word_of_int off)\<rparr>)) # fds, h))
           | _ \<Rightarrow> (case file_offsets H fds h of (fds, h) \<Rightarrow> (fdp # fds, h)))
      | _ \<Rightarrow> (case file_offsets H fds h of (fds, h) \<Rightarrow> (fdp # fds, h)))"

definition updateFileOffsets :: "'h posix \<Rightarrow> fd_array \<times> 'h \<Rightarrow> fd_array \<times> 'h" where
  "updateFileOffsets H = (\<lambda>(fa, h). case file_offsets H (fa_fdArray fa) h of (fds, h) \<Rightarrow> (fa\<lparr>fa_fdArray := fds\<rparr>, h))"

definition seek_file :: "'h posix \<Rightarrow> int \<Rightarrow> 64 word \<Rightarrow> 'h \<Rightarrow> 'h res" where
  "seek_file H sim_fd off h = (case px_lseek H sim_fd (sint off) SEEK_SET h of (r, h) \<Rightarrow> if r < 0 then Err Fatal else Ok h)"

text \<open>
  One of the three standard descriptors of a restored table. A name that differs from the checkpointed one replaces it.
  An entry that is not a file is dereferenced through a null pointer.
\<close>

definition restored_name :: "string \<Rightarrow> hb_entry \<Rightarrow> (string \<times> 64 word) res" where
  "restored_name given e = (case hb_kind e of File name off \<Rightarrow> Ok (if given \<noteq> name then (given, 0) else (name, off)) | _ \<Rightarrow> Err Undefined)"

definition restore_std ::
    "'h posix \<Rightarrow> (string \<rightharpoonup> int) \<Rightarrow> (string \<Rightarrow> 'h \<Rightarrow> (int \<times> 'h) res) \<Rightarrow> (string \<times> int) option \<Rightarrow> string \<Rightarrow>
     fd_entry option \<Rightarrow> 'h \<Rightarrow> ((hb_entry \<times> string) \<times> 'h) res" where
  "restore_std H dict opener same given fde h =
     (case fde of
        Some (HBFDEntry e) \<Rightarrow>
          bind_res (restored_name given e) (\<lambda>(name, off).
            case (case same of Some (n, fd) \<Rightarrow> if n = name then Some fd else dict name | None \<Rightarrow> dict name) of
              Some fd \<Rightarrow> Ok ((e\<lparr>hb_kind := File name off, hb_simFD := fd\<rparr>, name), h)
            | None \<Rightarrow>
                bind_res (opener name h) (\<lambda>(fd, h).
                bind_res (seek_file H fd off h) (\<lambda>h.
                  Ok ((e\<lparr>hb_kind := File name off, hb_simFD := fd\<rparr>, name), h))))
      | _ \<Rightarrow> Err Undefined)"

text \<open>The other descriptors, by index: a pipe is made again for its read end, which knows the descriptor of the write end.\<close>

definition pipe_entry :: "int \<Rightarrow> fd_entry option list \<Rightarrow> hb_entry res" where
  "pipe_entry fd fds =
     (if 0 \<le> fd \<and> fd < int (length fds) then
        case fds ! nat fd of
          Some (HBFDEntry e) \<Rightarrow> (case hb_kind e of Pipe _ _ \<Rightarrow> Ok e | _ \<Rightarrow> Err Undefined)
        | _ \<Rightarrow> Err Undefined
      else Err Undefined)"

fun restore_rest :: "'h posix \<Rightarrow> nat list \<Rightarrow> fd_entry option list \<Rightarrow> 'h \<Rightarrow> (fd_entry option list \<times> 'h) res" where
  "restore_rest H [] fds h = Ok (fds, h)"
| "restore_rest H (tgt_fd # rest) fds h =
     (case fds ! tgt_fd of
        None \<Rightarrow> restore_rest H rest fds h
      | Some (DeviceFDEntry _ _ _) \<Rightarrow> Err Fatal
      | Some (HBFDEntry e) \<Rightarrow>
          (case hb_kind e of
             Pipe prs Write_End \<Rightarrow> restore_rest H rest fds h
           | Pipe prs Read_End \<Rightarrow>
               (case px_pipe H h of
                  (None, h) \<Rightarrow> Err Fatal
                | (Some (r, w), h) \<Rightarrow>
                    let fds = fds[tgt_fd := Some (HBFDEntry (e\<lparr>hb_simFD := r\<rparr>))]
                    in bind_res (pipe_entry prs fds) (\<lambda>we.
                         restore_rest H rest (fds[nat prs := Some (HBFDEntry (we\<lparr>hb_simFD := w\<rparr>))]) h))
           | File name off \<Rightarrow>
               bind_res (openFile H name (hb_flags e) 436 h) (\<lambda>(sim_fd, h).
               bind_res (seek_file H sim_fd off h) (\<lambda>h.
                 restore_rest H rest (fds[tgt_fd := Some (HBFDEntry (e\<lparr>hb_simFD := sim_fd\<rparr>))]) h))
           | _ \<Rightarrow> restore_rest H rest fds h))"

definition restoreFileOffsets :: "string \<Rightarrow> 'h posix \<Rightarrow> fd_array \<times> 'h \<Rightarrow> (fd_array \<times> 'h) res" where
  "restoreFileOffsets dir H = (\<lambda>(fa, h).
     bind_res (restore_std H imap (openInputFile H) None (fa_input fa) (fa_fdArray fa ! 0) h) (\<lambda>((e0, _), h).
     bind_res (restore_std H oemap (openOutputFile dir H) None (fa_output fa) (fa_fdArray fa ! 1) h) (\<lambda>((e1, n1), h).
     bind_res (restore_std H oemap (openOutputFile dir H) (Some (n1, hb_simFD e1)) (fa_errout fa) (fa_fdArray fa ! 2) h) (\<lambda>((e2, _), h).
     bind_res (restore_rest H [3..<length (fa_fdArray fa)]
                 ((fa_fdArray fa)[0 := Some (HBFDEntry e0), 1 := Some (HBFDEntry e1), 2 := Some (HBFDEntry e2)]) h) (\<lambda>(fds, h).
       Ok (fa\<lparr>fa_fdArray := fds\<rparr>, h))))))"

definition allocFD :: "fd_entry \<Rightarrow> fd_array \<Rightarrow> (fd_array \<times> int) res" where
  "allocFD fdp fa =
     (case find (\<lambda>i. fa_fdArray fa ! i = None) [0..<length (fa_fdArray fa)] of
        Some i \<Rightarrow> Ok (fa\<lparr>fa_fdArray := (fa_fdArray fa)[i := Some fdp]\<rparr>, int i)
      | None \<Rightarrow> Err Fatal)"

definition getFDEntry :: "int \<Rightarrow> fd_array \<Rightarrow> fd_entry option res" where
  "getFDEntry tgt_fd fa =
     assert_that (0 \<le> tgt_fd \<and> tgt_fd < int (length (fa_fdArray fa))) (Ok (fa_fdArray fa ! nat tgt_fd))"

definition setFDEntry :: "int \<Rightarrow> fd_entry option \<Rightarrow> fd_array \<Rightarrow> fd_array res" where
  "setFDEntry tgt_fd fdep fa =
     assert_that (0 \<le> tgt_fd \<and> tgt_fd < int (length (fa_fdArray fa)))
       (Ok (fa\<lparr>fa_fdArray := (fa_fdArray fa)[nat tgt_fd := fdep]\<rparr>))"

definition closeFDEntry :: "'h posix \<Rightarrow> int \<Rightarrow> fd_array \<times> 'h \<Rightarrow> (fd_array \<times> 'h) \<times> int" where
  "closeFDEntry H tgt_fd = (\<lambda>(fa, h).
     if tgt_fd \<ge> int (length (fa_fdArray fa)) \<or> tgt_fd < 0 then ((fa, h), - EBADF)
     else
       let sim_fd = (case fa_fdArray fa ! nat tgt_fd of Some (HBFDEntry e) \<Rightarrow> hb_simFD e | _ \<Rightarrow> - 1);
           (status, h) = (if sim_fd > 2 then px_close H sim_fd h else (0, h))
       in ((if status = 0 then fa\<lparr>fa_fdArray := (fa_fdArray fa)[nat tgt_fd := None]\<rparr> else fa, h), status))"

section \<open>System calls on the table\<close>

text \<open>A cast to a host-backed entry.\<close>

definition hb_at :: "int \<Rightarrow> fd_array \<Rightarrow> hb_entry option res" where
  "hb_at tgt_fd fa = bind_res (getFDEntry tgt_fd fa) (\<lambda>fde. Ok (case fde of Some (HBFDEntry e) \<Rightarrow> Some e | _ \<Rightarrow> None))"

definition closeFunc :: "'h posix \<Rightarrow> int \<Rightarrow> fd_array \<times> 'h \<Rightarrow> ((fd_array \<times> 'h) \<times> int) res" where
  "closeFunc H tgt_fd st = Ok (closeFDEntry H tgt_fd st)"

definition lseekFunc :: "'h posix \<Rightarrow> int \<Rightarrow> 64 word \<Rightarrow> int \<Rightarrow> fd_array \<times> 'h \<Rightarrow> ((fd_array \<times> 'h) \<times> int) res" where
  "lseekFunc H tgt_fd offs whence = (\<lambda>(fa, h).
     bind_res (hb_at tgt_fd fa) (\<lambda>ffdp.
       case ffdp of
         Some e \<Rightarrow>
           (case hb_kind e of
              File _ _ \<Rightarrow> (case px_lseek H (hb_simFD e) (sint offs) whence h of (r, h) \<Rightarrow>
                 Ok ((fa, h), if r = - 1 then - px_errno H h else r))
            | _ \<Rightarrow> Ok ((fa, h), - EBADF))
       | None \<Rightarrow> Ok ((fa, h), - EBADF)))"

definition dupFunc :: "'h posix \<Rightarrow> int \<Rightarrow> fd_array \<times> 'h \<Rightarrow> ((fd_array \<times> 'h) \<times> int) res" where
  "dupFunc H tgt_fd = (\<lambda>(fa, h).
     bind_res (hb_at tgt_fd fa) (\<lambda>old_hbfdp.
       case old_hbfdp of
         None \<Rightarrow> Ok ((fa, h), - EBADF)
       | Some e \<Rightarrow>
           (case px_dup H (hb_simFD e) h of (result, h) \<Rightarrow>
              if result = - 1 then Ok ((fa, h), - px_errno H h)
              else bind_res (allocFD (HBFDEntry ((hb_clone e)\<lparr>hb_simFD := result, hb_closeOnExec := False\<rparr>)) fa)
                     (\<lambda>(fa, fd). Ok ((fa, h), fd)))))"

definition dup2Func :: "'h posix \<Rightarrow> int \<Rightarrow> int \<Rightarrow> fd_array \<times> 'h \<Rightarrow> ((fd_array \<times> 'h) \<times> int) res" where
  "dup2Func H old_tgt_fd new_tgt_fd = (\<lambda>(fa, h).
     bind_res (hb_at old_tgt_fd fa) (\<lambda>old_hbp.
       case old_hbp of
         None \<Rightarrow> Ok ((fa, h), - EBADF)
       | Some e \<Rightarrow>
           (case px_open H ''/dev/null'' O_RDONLY 0 h of (null_fd, h) \<Rightarrow>
            case px_dup2 H (hb_simFD e) null_fd h of (res_fd, h) \<Rightarrow>
              if res_fd = - 1 then Ok ((fa, h), - px_errno H h)
              else
                bind_res (hb_at new_tgt_fd fa) (\<lambda>new_hbp.
                  let (fa, h) = (if new_hbp \<noteq> None then fst (closeFDEntry H new_tgt_fd (fa, h)) else (fa, h))
                  in bind_res (allocFD (HBFDEntry ((hb_clone e)\<lparr>hb_simFD := res_fd, hb_closeOnExec := False\<rparr>)) fa)
                       (\<lambda>(fa, fd). Ok ((fa, h), fd))))))"

definition fcntlFunc :: "'h posix \<Rightarrow> int \<Rightarrow> int \<Rightarrow> int \<Rightarrow> fd_array \<times> 'h \<Rightarrow> ((fd_array \<times> 'h) \<times> int) res" where
  "fcntlFunc H tgt_fd cmd arg = (\<lambda>(fa, h).
     bind_res (hb_at tgt_fd fa) (\<lambda>hbfdp.
       case hbfdp of
         None \<Rightarrow> Ok ((fa, h), - EBADF)
       | Some e \<Rightarrow>
           if cmd = 1 then Ok ((fa, h), of_bool (hb_closeOnExec e))
           else if cmd = 2 then
             Ok ((fa\<lparr>fa_fdArray := (fa_fdArray fa)[nat tgt_fd := Some (HBFDEntry (e\<lparr>hb_closeOnExec := arg \<noteq> 0\<rparr>))]\<rparr>, h), 0)
           else if cmd = 3 \<or> cmd = 4 then
             (case px_fcntl H (hb_simFD e) cmd arg h of (rv, h) \<Rightarrow> Ok ((fa, h), if rv = - 1 then - px_errno H h else rv))
           else Ok ((fa, h), 0)))"

definition fcntl64Func :: "'h posix \<Rightarrow> int \<Rightarrow> int \<Rightarrow> fd_array \<times> 'h \<Rightarrow> ((fd_array \<times> 'h) \<times> int) res" where
  "fcntl64Func H tgt_fd cmd = (\<lambda>(fa, h).
     bind_res (hb_at tgt_fd fa) (\<lambda>hbfdp.
       case hbfdp of
         None \<Rightarrow> Ok ((fa, h), - EBADF)
       | Some e \<Rightarrow>
           if cmd = 33 \<or> cmd = 34 \<or> cmd = 35 then Ok ((fa, h), - EMFILE)
           else (case px_fcntl2 H (hb_simFD e) cmd h of (rv, h) \<Rightarrow> Ok ((fa, h), rv))))"

text \<open>
  The two descriptors of a new pipe, before the numbers are stored in the memory of the process.
\<close>

definition pipe_fds :: "'h posix \<Rightarrow> fd_array \<times> 'h \<Rightarrow> ((fd_array \<times> 'h) \<times> (int \<times> int) option) res" where
  "pipe_fds H = (\<lambda>(fa, h).
     case px_pipe H h of
       (None, h) \<Rightarrow> Ok ((fa, h), None)
     | (Some (r, w), h) \<Rightarrow>
         bind_res (allocFD (HBFDEntry (PipeFDEntry r O_WRONLY Read_End False)) fa) (\<lambda>(fa, fd0).
         bind_res (allocFD (HBFDEntry (PipeFDEntry w O_RDONLY Write_End False)) fa) (\<lambda>(fa, fd1).
           Ok ((fa\<lparr>fa_fdArray := (fa_fdArray fa)[nat fd0 :=
                  Some (HBFDEntry ((PipeFDEntry r O_WRONLY Read_End False)\<lparr>hb_kind := Pipe fd1 Read_End\<rparr>))]\<rparr>, h), Some (fd0, fd1)))))"

text \<open>The last thread of a group closes everything.\<close>

fun close_all :: "'h posix \<Rightarrow> nat list \<Rightarrow> fd_array \<times> 'h \<Rightarrow> fd_array \<times> 'h" where
  "close_all H [] st = st"
| "close_all H (i # is) st =
     close_all H is (if fa_fdArray (fst st) ! i \<noteq> None then fst (closeFDEntry H (int i) st) else st)"

text \<open>The descriptors in \<open>clone\<close> when they are not shared: \<open>fds\<close> is the table of the original, \<open>nfds\<close> that of the clone.\<close>

fun clone_fds :: "'h posix \<Rightarrow> nat list \<Rightarrow> fd_entry option list \<Rightarrow> fd_entry option list \<Rightarrow> 'h \<Rightarrow> (fd_entry option list \<times> 'h) res" where
  "clone_fds H [] fds nfds h = Ok (nfds, h)"
| "clone_fds H (tgt_fd # rest) fds nfds h =
     (case fds ! tgt_fd of
        None \<Rightarrow> clone_fds H rest fds (nfds[tgt_fd := None]) h
      | Some (DeviceFDEntry c d n) \<Rightarrow> clone_fds H rest fds (nfds[tgt_fd := Some (fde_clone (DeviceFDEntry c d n))]) h
      | Some (HBFDEntry e) \<Rightarrow>
          if hb_simFD e \<le> 2 then clone_fds H rest fds (nfds[tgt_fd := Some (HBFDEntry (hb_clone e))]) h
          else (case px_dup H (hb_simFD e) h of (np_sim_fd, h) \<Rightarrow>
                  assert_that (np_sim_fd \<noteq> - 1)
                    (clone_fds H rest fds (nfds[tgt_fd := Some (HBFDEntry ((hb_clone e)\<lparr>hb_simFD := np_sim_fd\<rparr>))]) h)))"

definition clone_files :: "'h posix \<Rightarrow> fd_array \<Rightarrow> fd_array \<times> 'h \<Rightarrow> (fd_array \<times> 'h) res" where
  "clone_files H fa = (\<lambda>(nfa, h).
     bind_res (clone_fds H [0..<length (fa_fdArray fa)] (fa_fdArray fa) (fa_fdArray nfa) h)
       (\<lambda>(nfds, h). Ok (nfa\<lparr>fa_fdArray := nfds\<rparr>, h)))"

text \<open>
  The laws of the host: a new descriptor was not open before, a failed call changes nothing, closing closes one
  descriptor, and \<open>fcntl\<close>, which some commands use to make a new descriptor, closes none.
\<close>

definition fresh_fd :: "('h \<Rightarrow> int set) \<Rightarrow> int \<times> 'h \<Rightarrow> 'h \<Rightarrow> bool" where
  "fresh_fd opn r h = (case r of (fd, h') \<Rightarrow>
     if fd = - 1 then opn h' = opn h else 0 \<le> fd \<and> fd \<notin> opn h \<and> opn h' = insert fd (opn h))"

definition posix_ok :: "'h posix \<Rightarrow> ('h \<Rightarrow> int set) \<Rightarrow> bool" where
  "posix_ok H opn \<longleftrightarrow>
     (\<forall>n f m h. fresh_fd opn (px_open H n f m h) h) \<and>
     (\<forall>fd h. fresh_fd opn (px_dup H fd h) h) \<and>
     (\<forall>old new h. case px_dup2 H old new h of (r, h') \<Rightarrow>
        if r = - 1 then opn h' = opn h else r = new \<and> 0 \<le> new \<and> opn h' = insert new (opn h)) \<and>
     (\<forall>h. case px_pipe H h of
        (None, h') \<Rightarrow> opn h' = opn h
      | (Some (r, w), h') \<Rightarrow> r \<noteq> w \<and> r \<notin> opn h \<and> w \<notin> opn h \<and> opn h' = {r, w} \<union> opn h) \<and>
     (\<forall>fd h. case px_close H fd h of (r, h') \<Rightarrow> opn h' = (if r = 0 then opn h - {fd} else opn h)) \<and>
     (\<forall>fd off wh h. opn (snd (px_lseek H fd off wh h)) = opn h) \<and>
     (\<forall>fd cmd arg h. opn h \<subseteq> opn (snd (px_fcntl H fd cmd arg h))) \<and>
     (\<forall>fd cmd h. opn h \<subseteq> opn (snd (px_fcntl2 H fd cmd h))) \<and> (\<forall>h. 0 \<le> px_errno H h)"

text \<open>The descriptors of the host that an entry and a table own. The standard descriptors belong to the simulator.\<close>

definition simfds_of :: "fd_entry option \<Rightarrow> int list" where
  "simfds_of fde = (case fde of Some (HBFDEntry e) \<Rightarrow> if hb_simFD e > 2 then [hb_simFD e] else [] | _ \<Rightarrow> [])"

definition simfds :: "fd_array \<Rightarrow> int list" where
  "simfds fa = concat (map simfds_of (fa_fdArray fa))"

text \<open>
  A table is well formed when it has its fixed size and every descriptor of the host it owns is open and owned once.
  The descriptors \<open>rest\<close> belong to other tables.
\<close>

definition table_ok :: "int set \<Rightarrow> int list \<Rightarrow> fd_array \<Rightarrow> bool" where
  "table_ok opn rest fa \<longleftrightarrow>
     length (fa_fdArray fa) = numFDs \<and> distinct (simfds fa @ rest) \<and> set (simfds fa @ rest) \<subseteq> opn"

datatype fd_call =
    Close int | Lseek int "64 word" int | Dup int | Dup2 int int | Fcntl int int int | Fcntl64 int int | Make_Pipe

fun fd_exec :: "'h posix \<Rightarrow> fd_call \<Rightarrow> fd_array \<times> 'h \<Rightarrow> ((fd_array \<times> 'h) \<times> int) res" where
  "fd_exec H (Close fd) st = closeFunc H fd st"
| "fd_exec H (Lseek fd offs whence) st = lseekFunc H fd offs whence st"
| "fd_exec H (Dup fd) st = dupFunc H fd st"
| "fd_exec H (Dup2 old new) st = dup2Func H old new st"
| "fd_exec H (Fcntl fd cmd arg) st = fcntlFunc H fd cmd arg st"
| "fd_exec H (Fcntl64 fd cmd) st = fcntl64Func H fd cmd st"
| "fd_exec H Make_Pipe st =
     bind_res (pipe_fds H st) (\<lambda>(st, r). Ok (st, case r of None \<Rightarrow> - px_errno H (snd st) | Some (fd0, fd1) \<Rightarrow> fd0))"

fun fd_execs :: "'h posix \<Rightarrow> fd_call list \<Rightarrow> fd_array \<times> 'h \<Rightarrow> (fd_array \<times> 'h) res" where
  "fd_execs H [] st = Ok st"
| "fd_execs H (c # cs) st = bind_res (fd_exec H c st) (\<lambda>(st, _). fd_execs H cs st)"

text \<open>A host that hands out the descriptor after the largest open one.\<close>

definition next_fd :: "int list \<Rightarrow> int" where
  "next_fd h = foldr max h 2 + 1"

definition posix_demo :: "int list posix" where
  "posix_demo = \<lparr>px_open = \<lambda>n f m h. (next_fd h, next_fd h # h),
     px_close = \<lambda>fd h. if fd \<in> set h then (0, removeAll fd h) else (- 1, h),
     px_dup = \<lambda>fd h. if fd \<in> set h then (next_fd h, next_fd h # h) else (- 1, h),
     px_dup2 = \<lambda>old new h. if old \<in> set h \<and> new \<in> set h \<and> 0 \<le> new then (new, h) else (- 1, h),
     px_pipe = \<lambda>h. (Some (next_fd h, next_fd h + 1), (next_fd h + 1) # next_fd h # h),
     px_lseek = \<lambda>fd off wh h. (off, h), px_fcntl = \<lambda>fd cmd arg h. (0, h), px_fcntl2 = \<lambda>fd cmd h. (0, h), px_errno = \<lambda>h. 9\<rparr>"

definition table_demo :: fd_array where
  "table_demo = \<lparr>fa_fdArray = (replicate numFDs None)
       [0 := Some (HBFDEntry (FileFDEntry 0 O_RDONLY ''cin'' 0 False)), 1 := Some (HBFDEntry (FileFDEntry 1 O_WRONLY ''cout'' 0 False)),
        2 := Some (HBFDEntry (FileFDEntry 2 O_WRONLY ''cerr'' 0 False)), 3 := Some (HBFDEntry (FileFDEntry 7 O_RDONLY ''data'' 0 True))],
     fa_input = ''cin'', fa_output = ''cout'', fa_errout = ''cerr''\<rparr>"

text \<open>
  What a clone gets for an entry: the same entry without close-on-exec, with a descriptor out of \<open>new\<close> where the
  original owns one.
\<close>

fun fd_copy :: "int set \<Rightarrow> fd_entry option \<Rightarrow> fd_entry option \<Rightarrow> bool" where
  "fd_copy new None x \<longleftrightarrow> x = None"
| "fd_copy new (Some (DeviceFDEntry c d n)) x \<longleftrightarrow> x = Some (DeviceFDEntry False d n)"
| "fd_copy new (Some (HBFDEntry e)) x \<longleftrightarrow>
     (case x of
        Some (HBFDEntry e') \<Rightarrow> e' = e\<lparr>hb_closeOnExec := False, hb_simFD := hb_simFD e'\<rparr> \<and>
          (if hb_simFD e \<le> 2 then hb_simFD e' = hb_simFD e else hb_simFD e' \<in> new)
      | _ \<Rightarrow> False)"

section \<open>Well-formed tables\<close>

lemma simfds_slot:
  assumes "i < length (fa_fdArray fa)"
  obtains A B where "simfds fa = A @ simfds_of (fa_fdArray fa ! i) @ B"
    "\<And>x. simfds (fa\<lparr>fa_fdArray := (fa_fdArray fa)[i := x]\<rparr>) = A @ simfds_of x @ B"
proof -
  let ?es = "fa_fdArray fa"
  have "simfds fa = concat (map simfds_of (take i ?es)) @ simfds_of (?es ! i) @ concat (map simfds_of (drop (Suc i) ?es))"
    using arg_cong [OF id_take_nth_drop [OF assms], of "\<lambda>es. concat (map simfds_of es)"] by (simp add: simfds_def)
  moreover have "\<And>x. simfds (fa\<lparr>fa_fdArray := ?es[i := x]\<rparr>) =
      concat (map simfds_of (take i ?es)) @ simfds_of x @ concat (map simfds_of (drop (Suc i) ?es))"
    by (simp add: simfds_def upd_conv_take_nth_drop [OF assms])
  ultimately show thesis by (rule that)
qed

lemma table_ok_put:
  assumes "table_ok opn rest fa" "i < numFDs" "set (simfds_of x) \<inter> opn \<subseteq> set (simfds_of (fa_fdArray fa ! i))"
  shows "table_ok (opn \<union> set (simfds_of x)) rest (fa\<lparr>fa_fdArray := (fa_fdArray fa)[i := x]\<rparr>)"
proof -
  have i: "i < length (fa_fdArray fa)" using assms(1,2) by (simp add: table_ok_def)
  obtain A B where ab: "simfds fa = A @ simfds_of (fa_fdArray fa ! i) @ B"
    "\<And>x. simfds (fa\<lparr>fa_fdArray := (fa_fdArray fa)[i := x]\<rparr>) = A @ simfds_of x @ B"
    by (rule simfds_slot [OF i]) blast
  have d: "distinct (simfds_of x)" by (simp add: simfds_of_def split: option.split fd_entry.split)
  have "distinct (simfds fa @ rest)" "set (simfds fa @ rest) \<subseteq> opn" using assms(1) by (simp_all add: table_ok_def)
  then have "distinct (A @ simfds_of x @ B @ rest)" "set (A @ simfds_of x @ B @ rest) \<subseteq> opn \<union> set (simfds_of x)"
    using assms(3) d unfolding ab(1) by auto
  then show ?thesis using assms(1) by (simp add: table_ok_def ab(2))
qed

lemma table_ok_drop:
  assumes "table_ok opn rest fa" "i < numFDs"
  shows "table_ok (opn - set (simfds_of (fa_fdArray fa ! i))) rest (fa\<lparr>fa_fdArray := (fa_fdArray fa)[i := None]\<rparr>)"
proof -
  have i: "i < length (fa_fdArray fa)" using assms by (simp add: table_ok_def)
  obtain A B where ab: "simfds fa = A @ simfds_of (fa_fdArray fa ! i) @ B"
    "\<And>x. simfds (fa\<lparr>fa_fdArray := (fa_fdArray fa)[i := x]\<rparr>) = A @ simfds_of x @ B"
    by (rule simfds_slot [OF i]) blast
  have "distinct (simfds fa @ rest)" "set (simfds fa @ rest) \<subseteq> opn" using assms(1) by (simp_all add: table_ok_def)
  then have "distinct (A @ B @ rest)" "set (A @ B @ rest) \<subseteq> opn - set (simfds_of (fa_fdArray fa ! i))" unfolding ab(1) by auto
  moreover have "simfds_of None = []" by (simp add: simfds_of_def)
  ultimately show ?thesis using assms(1) by (simp add: table_ok_def ab(2))
qed

lemma table_ok_mono: "table_ok opn rest fa \<Longrightarrow> opn \<subseteq> opn' \<Longrightarrow> table_ok opn' rest fa"
  by (auto simp: table_ok_def)

lemma allocFD_first:
  assumes "allocFD e fa = Ok (fa', fd)"
  shows "\<exists>i. fd = int i \<and> i < length (fa_fdArray fa) \<and> fa_fdArray fa ! i = None \<and> (\<forall>j<i. fa_fdArray fa ! j \<noteq> None) \<and>
    fa' = fa\<lparr>fa_fdArray := (fa_fdArray fa)[i := Some e]\<rparr>"
proof -
  obtain i where f: "find (\<lambda>i. fa_fdArray fa ! i = None) [0..<length (fa_fdArray fa)] = Some i"
    and e: "fd = int i" "fa' = fa\<lparr>fa_fdArray := (fa_fdArray fa)[i := Some e]\<rparr>"
    using assms by (auto simp: allocFD_def split: option.splits)
  from f have "i < length (fa_fdArray fa)" "fa_fdArray fa ! i = None" "\<forall>j<i. fa_fdArray fa ! j \<noteq> None"
    by (auto simp: find_Some_iff)
  with e show ?thesis by blast
qed

lemma allocFD_ok:
  assumes "allocFD (HBFDEntry e) fa = Ok (fa', fd)" "table_ok opn rest fa" "hb_simFD e \<notin> opn"
  shows "table_ok (insert (hb_simFD e) opn) rest fa'"
proof -
  obtain i where i: "i < length (fa_fdArray fa)" "fa_fdArray fa ! i = None" "fa' = fa\<lparr>fa_fdArray := (fa_fdArray fa)[i := Some (HBFDEntry e)]\<rparr>"
    using allocFD_first [OF assms(1)] by blast
  have s: "set (simfds_of (Some (HBFDEntry e))) \<subseteq> {hb_simFD e}" by (auto simp: simfds_of_def)
  have "table_ok (opn \<union> set (simfds_of (Some (HBFDEntry e)))) rest fa'"
    unfolding i(3) by (rule table_ok_put) (use assms(2,3) i s in \<open>auto simp: table_ok_def\<close>)
  then show ?thesis by (rule table_ok_mono) (use s in auto)
qed

lemma posix_okD:
  assumes "posix_ok H opn"
  shows "px_open H n f m h = (fd, h') \<Longrightarrow> if fd = - 1 then opn h' = opn h else fd \<notin> opn h \<and> opn h' = insert fd (opn h)"
    and "px_dup H old h = (fd, h') \<Longrightarrow> if fd = - 1 then opn h' = opn h else fd \<notin> opn h \<and> opn h' = insert fd (opn h)"
    and "px_dup2 H old new h = (fd, h') \<Longrightarrow> if fd = - 1 then opn h' = opn h else fd = new \<and> 0 \<le> new \<and> opn h' = insert new (opn h)"
    and "px_pipe H h = (None, h') \<Longrightarrow> opn h' = opn h"
    and "px_pipe H h = (Some (r, w), h') \<Longrightarrow> r \<noteq> w \<and> r \<notin> opn h \<and> w \<notin> opn h \<and> opn h' = {r, w} \<union> opn h"
    and "px_close H old h = (st, h') \<Longrightarrow> opn h' = (if st = 0 then opn h - {old} else opn h)"
    and "px_lseek H old off wh h = (st, h') \<Longrightarrow> opn h' = opn h"
    and "px_fcntl H old cmd arg h = (st, h') \<Longrightarrow> opn h \<subseteq> opn h'"
    and "px_fcntl2 H old cmd h = (st, h') \<Longrightarrow> opn h \<subseteq> opn h'"
proof -
  have *: "fresh_fd opn (px_open H n f m h) h" "fresh_fd opn (px_dup H old h) h"
    "case px_dup2 H old new h of (r, h') \<Rightarrow> if r = - 1 then opn h' = opn h else r = new \<and> 0 \<le> new \<and> opn h' = insert new (opn h)"
    "case px_pipe H h of (None, h') \<Rightarrow> opn h' = opn h
      | (Some (r, w), h') \<Rightarrow> r \<noteq> w \<and> r \<notin> opn h \<and> w \<notin> opn h \<and> opn h' = {r, w} \<union> opn h"
    "case px_close H old h of (r, h') \<Rightarrow> opn h' = (if r = 0 then opn h - {old} else opn h)"
    "opn (snd (px_lseek H old off wh h)) = opn h" "opn h \<subseteq> opn (snd (px_fcntl H old cmd arg h))" "opn h \<subseteq> opn (snd (px_fcntl2 H old cmd h))"
    using assms by (simp_all only: posix_ok_def)
  show "px_open H n f m h = (fd, h') \<Longrightarrow> if fd = - 1 then opn h' = opn h else fd \<notin> opn h \<and> opn h' = insert fd (opn h)"
    "px_dup H old h = (fd, h') \<Longrightarrow> if fd = - 1 then opn h' = opn h else fd \<notin> opn h \<and> opn h' = insert fd (opn h)"
    using *(1,2) by (auto simp: fresh_fd_def)
  show "px_dup2 H old new h = (fd, h') \<Longrightarrow> if fd = - 1 then opn h' = opn h else fd = new \<and> 0 \<le> new \<and> opn h' = insert new (opn h)"
    using *(3) by simp
  show "px_pipe H h = (None, h') \<Longrightarrow> opn h' = opn h"
    "px_pipe H h = (Some (r, w), h') \<Longrightarrow> r \<noteq> w \<and> r \<notin> opn h \<and> w \<notin> opn h \<and> opn h' = {r, w} \<union> opn h"
    using *(4) by simp_all
  show "px_close H old h = (st, h') \<Longrightarrow> opn h' = (if st = 0 then opn h - {old} else opn h)" using *(5) by simp
  show "px_lseek H old off wh h = (st, h') \<Longrightarrow> opn h' = opn h" "px_fcntl H old cmd arg h = (st, h') \<Longrightarrow> opn h \<subseteq> opn h'"
    "px_fcntl2 H old cmd h = (st, h') \<Longrightarrow> opn h \<subseteq> opn h'" using *(6-8) by simp_all
qed

lemma posix_same:
  assumes "posix_ok H opn"
  shows "opn (snd (px_lseek H old off wh h)) = opn h" "opn h \<subseteq> opn (snd (px_fcntl2 H old cmd h))"
    "0 \<le> px_errno H h"
  using assms by (simp_all only: posix_ok_def)

lemma closeFDEntry_ok:
  assumes "posix_ok H opn" "closeFDEntry H fd (fa, h) = ((fa', h'), r)" "table_ok (opn h) rest fa"
  shows "table_ok (opn h') rest fa' \<and> opn h' \<subseteq> opn h"
proof (cases "fd \<ge> int (length (fa_fdArray fa)) \<or> fd < 0")
  case True
  then show ?thesis using assms(2,3) by (auto simp: closeFDEntry_def)
next
  case False
  let ?e = "fa_fdArray fa ! nat fd"
  have n: "nat fd < numFDs" using False assms(3) by (auto simp: table_ok_def)
  let ?sim = "case ?e of Some (HBFDEntry e) \<Rightarrow> hb_simFD e | _ \<Rightarrow> - 1"
  show ?thesis
  proof (cases "?sim > 2")
    case True
    then have s: "simfds_of ?e = [?sim]" by (auto simp: simfds_of_def split: option.splits fd_entry.splits)
    obtain st h1 where c: "px_close H ?sim h = (st, h1)" by (cases "px_close H ?sim h")
    have "opn h1 = (if st = 0 then opn h - {?sim} else opn h)" by (rule posix_okD(6) [OF assms(1) c])
    then show ?thesis using assms(2,3) False True c s table_ok_drop [OF assms(3) n]
      by (auto simp: closeFDEntry_def Let_def split: if_splits)
  next
    case no: False
    then have s: "simfds_of ?e = []" by (auto simp: simfds_of_def split: option.splits fd_entry.splits)
    have "fa' = fa\<lparr>fa_fdArray := (fa_fdArray fa)[nat fd := None]\<rparr>" "h' = h"
      using assms(2) False no by (auto simp: closeFDEntry_def Let_def)
    then show ?thesis using table_ok_drop [OF assms(3) n] s by simp
  qed
qed

lemma hb_at_entry:
  assumes "hb_at fd fa = Ok (Some e)"
  shows "0 \<le> fd" "nat fd < length (fa_fdArray fa)" "fa_fdArray fa ! nat fd = Some (HBFDEntry e)"
  using assms by (auto simp: hb_at_def getFDEntry_def res_simps split: option.splits fd_entry.splits)

lemma dupFunc_ok:
  assumes "posix_ok H opn" "dupFunc H fd (fa, h) = Ok ((fa', h'), r)" "table_ok (opn h) rest fa"
  shows "table_ok (opn h') rest fa'"
proof -
  obtain oe where a: "hb_at fd fa = Ok oe" using assms(2) by (cases "hb_at fd fa") (auto simp: dupFunc_def)
  show ?thesis
  proof (cases oe)
    case None
    then show ?thesis using a assms(2,3) by (simp add: dupFunc_def)
  next
    case (Some e)
    obtain res h1 where d: "px_dup H (hb_simFD e) h = (res, h1)" by (cases "px_dup H (hb_simFD e) h")
    note o = posix_okD(2) [OF assms(1) d]
    show ?thesis
    proof (cases "res = - 1")
      case True
      then show ?thesis using a Some d o assms(2,3) by (simp add: dupFunc_def)
    next
      case False
      then have al: "allocFD (HBFDEntry ((hb_clone e)\<lparr>hb_simFD := res, hb_closeOnExec := False\<rparr>)) fa = Ok (fa', r)" "h' = h1"
        using a Some d assms(2) by (auto simp: dupFunc_def res_simps split: prod.splits)
      from allocFD_ok [OF al(1) assms(3)] show ?thesis using al(2) o False by simp
    qed
  qed
qed

lemma dup2Func_ok:
  assumes "posix_ok H opn" "dup2Func H old new (fa, h) = Ok ((fa', h'), r)" "table_ok (opn h) rest fa"
  shows "table_ok (opn h') rest fa'"
proof -
  obtain oe where a: "hb_at old fa = Ok oe" using assms(2) by (cases "hb_at old fa") (auto simp: dup2Func_def)
  show ?thesis
  proof (cases oe)
    case None
    then show ?thesis using a assms(2,3) by (simp add: dup2Func_def)
  next
    case (Some e)
    obtain n h1 where op: "px_open H ''/dev/null'' O_RDONLY 0 h = (n, h1)" by (cases "px_open H ''/dev/null'' O_RDONLY 0 h")
    obtain f h2 where d: "px_dup2 H (hb_simFD e) n h1 = (f, h2)" by (cases "px_dup2 H (hb_simFD e) n h1")
    note o1 = posix_okD(1) [OF assms(1) op] and o2 = posix_okD(3) [OF assms(1) d]
    show ?thesis
    proof (cases "f = - 1")
      case True
      then have "fa' = fa" "h' = h2" using a Some op d assms(2) by (simp_all add: dup2Func_def)
      moreover have "opn h \<subseteq> opn h2" using o1 o2 True by (auto split: if_splits)
      ultimately show ?thesis using table_ok_mono [OF assms(3)] by simp
    next
      case False
      then have f: "f = n" "0 \<le> n" "opn h2 = insert n (opn h1)" using o2 by simp_all
      have n: "n \<notin> opn h" "opn h2 = insert n (opn h)" using o1 f by (auto split: if_splits)
      obtain ne where ne: "hb_at new fa = Ok ne"
        using a Some op d False assms(2) by (cases "hb_at new fa") (auto simp: dup2Func_def)
      obtain fa3 h3 where st: "(if ne \<noteq> None then fst (closeFDEntry H new (fa, h2)) else (fa, h2)) = (fa3, h3)"
        by (cases "if ne \<noteq> None then fst (closeFDEntry H new (fa, h2)) else (fa, h2)")
      have al: "allocFD (HBFDEntry ((hb_clone e)\<lparr>hb_simFD := f, hb_closeOnExec := False\<rparr>)) fa3 = Ok (fa', r)" "h' = h3"
        using a Some op d False assms(2) ne st by (auto simp: dup2Func_def res_simps split: prod.splits)
      have "table_ok (opn h2) (n # rest) fa" using assms(3) n by (auto simp: table_ok_def)
      then have "table_ok (opn h3) (n # rest) fa3"
        using closeFDEntry_ok [OF assms(1), of new fa h2 fa3 h3 "snd (closeFDEntry H new (fa, h2))"] st
        by (cases "ne = None"; cases "closeFDEntry H new (fa, h2)") auto
      then have "table_ok (opn h' - {n}) rest fa3" "n \<in> opn h'" unfolding al(2) by (auto simp: table_ok_def)
      from allocFD_ok [OF al(1) this(1)] this(2) f(1) show ?thesis by (simp add: insert_absorb)
    qed
  qed
qed

lemma pipe_fds_ok:
  assumes "posix_ok H opn" "pipe_fds H (fa, h) = Ok ((fa', h'), r)" "table_ok (opn h) rest fa"
  shows "table_ok (opn h') rest fa'"
proof (cases "px_pipe H h")
  case (Pair p h1)
  show ?thesis
  proof (cases p)
    case None
    then show ?thesis using Pair assms posix_okD(4) [OF assms(1)] by (auto simp: pipe_fds_def)
  next
    case (Some rw)
    obtain a b where rw: "rw = (a, b)" by (cases rw)
    have o: "a \<noteq> b" "a \<notin> opn h" "b \<notin> opn h" "opn h1 = {a, b} \<union> opn h" using posix_okD(5) [OF assms(1)] Pair Some rw by auto
    let ?e = "PipeFDEntry a O_WRONLY Read_End False"
    obtain fa1 fd0 fa2 fd1 where al: "allocFD (HBFDEntry ?e) fa = Ok (fa1, fd0)"
      "allocFD (HBFDEntry (PipeFDEntry b O_RDONLY Write_End False)) fa1 = Ok (fa2, fd1)" "h' = h1"
      "fa' = fa2\<lparr>fa_fdArray := (fa_fdArray fa2)[nat fd0 := Some (HBFDEntry (?e\<lparr>hb_kind := Pipe fd1 Read_End\<rparr>))]\<rparr>"
      using assms(2) Pair Some rw by (auto simp: pipe_fds_def res_simps split: prod.splits)
    have t1: "table_ok (insert a (opn h)) rest fa1" using allocFD_ok [OF al(1) assms(3)] o(2) by (simp add: PipeFDEntry_def)
    have t2: "table_ok (insert b (insert a (opn h))) rest fa2"
      using allocFD_ok [OF al(2) t1] o(1,3) by (simp add: PipeFDEntry_def)
    obtain i where i: "fd0 = int i" "i < length (fa_fdArray fa)" "fa1 = fa\<lparr>fa_fdArray := (fa_fdArray fa)[i := Some (HBFDEntry ?e)]\<rparr>"
      using allocFD_first [OF al(1)] by blast
    obtain j where j: "fa_fdArray fa1 ! j = None" "fa2 = fa1\<lparr>fa_fdArray := (fa_fdArray fa1)[j := Some (HBFDEntry (PipeFDEntry b O_RDONLY Write_End False))]\<rparr>"
      using allocFD_first [OF al(2)] by blast
    have "i \<noteq> j" using i(2,3) j(1) by auto
    then have e: "fa_fdArray fa2 ! i = Some (HBFDEntry ?e)" using i(2,3) j(2) by simp
    have s: "simfds_of (Some (HBFDEntry (?e\<lparr>hb_kind := Pipe fd1 Read_End\<rparr>))) = simfds_of (fa_fdArray fa2 ! nat fd0)"
      unfolding i(1) nat_int e by (simp add: simfds_of_def)
    have n: "nat fd0 < numFDs" using i assms(3) by (simp add: table_ok_def)
    from table_ok_put [OF t2 n, of "Some (HBFDEntry (?e\<lparr>hb_kind := Pipe fd1 Read_End\<rparr>))"]
    have "table_ok (insert b (insert a (opn h)) \<union> set (simfds_of (Some (HBFDEntry (?e\<lparr>hb_kind := Pipe fd1 Read_End\<rparr>))))) rest fa'"
      unfolding s al(4) by simp
    then show ?thesis by (rule table_ok_mono) (auto simp: al(3) o(4) simfds_of_def PipeFDEntry_def)
  qed
qed

lemma fcntl_ok:
  assumes "posix_ok H opn" "fcntlFunc H fd cmd arg (fa, h) = Ok ((fa', h'), r)" "table_ok (opn h) rest fa"
  shows "table_ok (opn h') rest fa'"
proof -
  obtain oe where a: "hb_at fd fa = Ok oe" using assms(2) by (cases "hb_at fd fa") (auto simp: fcntlFunc_def)
  show ?thesis
  proof (cases oe)
    case None
    then show ?thesis using a assms(2,3) by (simp add: fcntlFunc_def)
  next
    case (Some e)
    obtain rv h1 where d: "px_fcntl H (hb_simFD e) cmd arg h = (rv, h1)" by (cases "px_fcntl H (hb_simFD e) cmd arg h")
    let ?x = "Some (HBFDEntry (e\<lparr>hb_closeOnExec := arg \<noteq> 0\<rparr>))"
    show ?thesis
    proof (cases "cmd = 2")
      case False
      then have "fa' = fa" "opn h \<subseteq> opn h'"
        using a Some d assms(2) posix_okD(8) [OF assms(1) d] by (auto simp: fcntlFunc_def split: if_splits)
      then show ?thesis using table_ok_mono [OF assms(3)] by simp
    next
      case True
      then have st: "fa' = fa\<lparr>fa_fdArray := (fa_fdArray fa)[nat fd := ?x]\<rparr>" "h' = h"
        using a Some assms(2) by (auto simp: fcntlFunc_def)
      have e: "nat fd < numFDs" "fa_fdArray fa ! nat fd = Some (HBFDEntry e)"
        using hb_at_entry [of fd fa e] a Some assms(3) by (simp_all add: table_ok_def)
      have s: "simfds_of ?x = simfds_of (fa_fdArray fa ! nat fd)" unfolding e(2) by (simp add: simfds_of_def)
      obtain A B where "simfds fa = A @ simfds_of (fa_fdArray fa ! nat fd) @ B"
        by (rule simfds_slot [of "nat fd" fa]) (use e(1) assms(3) in \<open>auto simp: table_ok_def\<close>)
      then have "set (simfds_of ?x) \<subseteq> opn h" using assms(3) unfolding s by (auto simp: table_ok_def)
      then show ?thesis using table_ok_put [OF assms(3) e(1), of ?x] s st by (simp add: sup_absorb1)
    qed
  qed
qed

lemma lseekFunc_same:
  assumes "posix_ok H opn" "lseekFunc H fd offs wh (fa, h) = Ok ((fa', h'), r)"
  shows "fa' = fa \<and> opn h' = opn h"
proof -
  obtain oe where a: "hb_at fd fa = Ok oe" using assms(2) by (cases "hb_at fd fa") (auto simp: lseekFunc_def)
  show ?thesis
  proof (cases oe)
    case (Some e)
    then show ?thesis using a assms(2) posix_same(1) [OF assms(1), of "hb_simFD e" "sint offs" wh h]
      by (cases "hb_kind e") (auto simp: lseekFunc_def case_prod_beta)
  qed (use a assms(2) in \<open>simp add: lseekFunc_def\<close>)
qed

lemma fcntl64Func_same:
  assumes "posix_ok H opn" "fcntl64Func H fd cmd (fa, h) = Ok ((fa', h'), r)"
  shows "fa' = fa \<and> opn h \<subseteq> opn h'"
proof -
  obtain oe where a: "hb_at fd fa = Ok oe" using assms(2) by (cases "hb_at fd fa") (auto simp: fcntl64Func_def)
  show ?thesis
  proof (cases oe)
    case (Some e)
    obtain rv h1 where d: "px_fcntl2 H (hb_simFD e) cmd h = (rv, h1)" by (cases "px_fcntl2 H (hb_simFD e) cmd h")
    then show ?thesis using a Some assms(2) posix_okD(9) [OF assms(1) d] by (auto simp: fcntl64Func_def split: if_splits)
  qed (use a assms(2) in \<open>simp add: fcntl64Func_def\<close>)
qed

lemma fd_exec_ok:
  assumes "posix_ok H opn" "fd_exec H c (fa, h) = Ok ((fa', h'), r)" "table_ok (opn h) rest fa"
  shows "table_ok (opn h') rest fa'"
proof (cases c)
  case (Close fd)
  then have "closeFDEntry H fd (fa, h) = ((fa', h'), r)" using assms(2) by (simp add: closeFunc_def)
  from closeFDEntry_ok [OF assms(1) this assms(3)] show ?thesis by simp
next
  case (Lseek fd offs wh)
  then have "lseekFunc H fd offs wh (fa, h) = Ok ((fa', h'), r)" using assms(2) by simp
  from lseekFunc_same [OF assms(1) this] have "fa' = fa \<and> opn h' = opn h" .
  then show ?thesis using assms(3) by simp
next
  case (Dup fd)
  then show ?thesis using dupFunc_ok [OF assms(1) _ assms(3)] assms(2) by simp
next
  case (Dup2 old new)
  then show ?thesis using dup2Func_ok [OF assms(1) _ assms(3)] assms(2) by simp
next
  case (Fcntl fd cmd arg)
  then show ?thesis using fcntl_ok [OF assms(1) _ assms(3)] assms(2) by simp
next
  case (Fcntl64 fd cmd)
  then have "fa' = fa \<and> opn h \<subseteq> opn h'" using fcntl64Func_same [OF assms(1)] assms(2) by simp
  then show ?thesis using table_ok_mono [OF assms(3)] by simp
next
  case Make_Pipe
  then obtain q where "pipe_fds H (fa, h) = Ok ((fa', h'), q)" using assms(2) by (auto simp: res_simps split: prod.splits)
  then show ?thesis by (rule pipe_fds_ok [OF assms(1) _ assms(3)])
qed

lemma fd_execs_ok:
  assumes "posix_ok H opn" "table_ok (opn h) rest fa" "fd_execs H cs (fa, h) = Ok (fa', h')"
  shows "table_ok (opn h') rest fa'"
  using assms(2,3)
proof (induction cs arbitrary: fa h)
  case (Cons c cs)
  obtain fa1 h1 r where e: "fd_exec H c (fa, h) = Ok ((fa1, h1), r)" "fd_execs H cs (fa1, h1) = Ok (fa', h')"
    using Cons.prems(2) by (auto simp: res_simps split: prod.splits)
  show ?case by (rule Cons.IH [OF fd_exec_ok [OF assms(1) e(1) Cons.prems(1)] e(2)])
qed simp

lemma next_fd_fresh: "x \<in> set h \<Longrightarrow> x < next_fd h" "2 < next_fd h"
  by (induction h) (auto simp: next_fd_def)

lemma posix_demo_ok: "posix_ok posix_demo set"
proof -
  have n: "next_fd h \<noteq> - 1" "0 \<le> next_fd h" "next_fd h \<notin> set h" "next_fd h + 1 \<notin> set h" for h
    using next_fd_fresh(2) [of h] next_fd_fresh(1) [of _ h] by force+
  show ?thesis
    unfolding posix_ok_def by (intro conjI allI) (simp_all add: posix_demo_def fresh_fd_def n insert_absorb insert_commute)
qed

lemma simfds_replicate: "concat (map simfds_of (replicate n None)) = []"
  by (induction n) (simp_all add: simfds_of_def)

lemma table_demo_ok: "table_ok (set [0, 1, 2, 7]) [] table_demo"
proof -
  have r: "replicate numFDs None = None # None # None # None # replicate 1020 None"
    by (simp add: numFDs_def numeral_eq_Suc)
  have "simfds table_demo = [7]"
    unfolding simfds_def table_demo_def r by (simp add: simfds_replicate simfds_of_def FileFDEntry_def numeral_eq_Suc)
  then show ?thesis by (simp add: table_ok_def table_demo_def numFDs_def)
qed

lemma allocFD_at:
  assumes "i < length (fa_fdArray fa)" "fa_fdArray fa ! i = None" "\<forall>j<i. fa_fdArray fa ! j \<noteq> None"
  shows "allocFD e fa = Ok (fa\<lparr>fa_fdArray := (fa_fdArray fa)[i := Some e]\<rparr>, int i)"
proof -
  have "find (\<lambda>i. fa_fdArray fa ! i = None) [0..<length (fa_fdArray fa)] = Some i"
    unfolding find_Some_iff using assms by (intro exI [of _ i]) auto
  then show ?thesis by (simp add: allocFD_def)
qed

lemma table_demo_nth:
  "fa_fdArray table_demo ! 3 = Some (HBFDEntry (FileFDEntry 7 O_RDONLY ''data'' 0 True))"
  "fa_fdArray table_demo ! 4 = None" "j < 4 \<Longrightarrow> fa_fdArray table_demo ! j \<noteq> None" "length (fa_fdArray table_demo) = 1024"
  by (auto simp: table_demo_def numFDs_def nth_list_update less_Suc_eq numeral_eq_Suc)

text \<open>
  C16. \<open>dup2\<close> puts the new descriptor into the lowest free slot instead of the one that was asked
  for: as long as a lower slot is free, the result is a different descriptor.
\<close>

theorem dup2_ignores_target:
  assumes "posix_ok H opn" "dup2Func H old new (fa, h) = Ok ((fa', h'), r)" "int i < new" "i < length (fa_fdArray fa)"
    and "fa_fdArray fa ! i = None"
  shows "r \<noteq> new"
proof -
  obtain oe where a: "hb_at old fa = Ok oe" using assms(2) by (cases "hb_at old fa") (auto simp: dup2Func_def)
  have er: "- px_errno H h2 \<noteq> new" "- EBADF \<noteq> new" for h2
    using posix_same(3) [OF assms(1), of h2] assms(3) by (auto simp: EBADF_def)
  show ?thesis
  proof (cases oe)
    case None
    then show ?thesis using a assms(2) er(2) by (simp add: dup2Func_def)
  next
    case (Some e)
    obtain n h1 where op: "px_open H ''/dev/null'' O_RDONLY 0 h = (n, h1)" by (cases "px_open H ''/dev/null'' O_RDONLY 0 h")
    obtain f h2 where d: "px_dup2 H (hb_simFD e) n h1 = (f, h2)" by (cases "px_dup2 H (hb_simFD e) n h1")
    show ?thesis
    proof (cases "f = - 1")
      case True
      then show ?thesis using a Some op d assms(2) er(1) by (auto simp: dup2Func_def)
    next
      case False
      obtain ne where ne: "hb_at new fa = Ok ne"
        using a Some op d False assms(2) by (cases "hb_at new fa") (auto simp: dup2Func_def)
      obtain fa3 h3 where st: "(if ne \<noteq> None then fst (closeFDEntry H new (fa, h2)) else (fa, h2)) = (fa3, h3)"
        by (cases "if ne \<noteq> None then fst (closeFDEntry H new (fa, h2)) else (fa, h2)")
      have al: "allocFD (HBFDEntry ((hb_clone e)\<lparr>hb_simFD := f, hb_closeOnExec := False\<rparr>)) fa3 = Ok (fa', r)"
        using a Some op d False assms(2) ne st by (auto simp: dup2Func_def res_simps split: prod.splits)
      have "fa_fdArray fa3 ! i = None"
        using st assms(3-5) by (auto simp: closeFDEntry_def Let_def case_prod_beta nth_list_update split: if_splits)
      moreover obtain j where "r = int j" "\<forall>k<j. fa_fdArray fa3 ! k \<noteq> None" using allocFD_first [OF al] by blast
      ultimately have "\<not> i < j" "r = int j" by auto
      then have "r \<le> int i" by simp
      then show ?thesis using assms(3) by simp
    qed
  qed
qed

theorem dup2_ignores_target_witness:
  "\<exists>st. dup2Func posix_demo 3 9 (table_demo, [0, 1, 2, 7]) = Ok (st, 4) \<and> (4 :: int) \<noteq> 9"
proof -
  have a: "hb_at 3 table_demo = Ok (Some (FileFDEntry 7 O_RDONLY ''data'' 0 True))" "hb_at 9 table_demo = Ok None"
    using table_demo_nth by (simp_all add: hb_at_def getFDEntry_def) (simp add: table_demo_def numFDs_def)
  have "px_open posix_demo n f m [0, 1, 2, 7] = (8, [8, 0, 1, 2, 7])" for n f m by (simp add: posix_demo_def next_fd_def)
  moreover have "px_dup2 posix_demo 7 8 [8, 0, 1, 2, 7] = (8, [8, 0, 1, 2, 7])" by (simp add: posix_demo_def)
  ultimately have e: "\<exists>fa' h'. dup2Func posix_demo 3 9 (table_demo, [0, 1, 2, 7]) = Ok ((fa', h'), 4)"
    using a allocFD_at [of 4 table_demo] table_demo_nth by (simp add: dup2Func_def FileFDEntry_def)
  then obtain fa' h' where "dup2Func posix_demo 3 9 (table_demo, [0, 1, 2, 7]) = Ok ((fa', h'), 4)" by blast
  from this dup2_ignores_target [OF posix_demo_ok this, of 4] table_demo_nth(2,4) show ?thesis by auto
qed

text \<open>
  A descriptor outside of the table makes every call but \<open>close\<close> fail an assertion of the
  simulator instead of returning an error to the program.
\<close>

theorem bad_descriptor_asserts:
  assumes "fd < 0 \<or> int (length (fa_fdArray fa)) \<le> fd"
  shows "dupFunc H fd (fa, h) = Err Assert_Failed \<and> dup2Func H fd new (fa, h) = Err Assert_Failed \<and>
    lseekFunc H fd offs whence (fa, h) = Err Assert_Failed \<and> fcntlFunc H fd cmd arg (fa, h) = Err Assert_Failed \<and>
    closeFunc H fd (fa, h) = Ok ((fa, h), - EBADF)"
proof -
  have "hb_at fd fa = Err Assert_Failed" using assms by (auto simp: hb_at_def getFDEntry_def)
  then show ?thesis
    using assms by (auto simp: dupFunc_def dup2Func_def lseekFunc_def fcntlFunc_def closeFunc_def closeFDEntry_def)
qed

theorem bad_descriptor_asserts_witness:
  "dupFunc posix_demo (- 1) (table_demo, [0, 1, 2, 7]) = Err Assert_Failed"
  using bad_descriptor_asserts [of "- 1" table_demo posix_demo "[0, 1, 2, 7]"] by simp

lemma fd_copy_mono: "fd_copy new a x \<Longrightarrow> new \<subseteq> new' \<Longrightarrow> fd_copy new' a x"
  by (induction new a x rule: fd_copy.induct) (auto split: option.splits fd_entry.splits if_splits)

lemma fd_copy_simfds: "fd_copy new a x \<Longrightarrow> set (simfds_of x) \<subseteq> new"
  by (induction new a x rule: fd_copy.induct) (auto simp: simfds_of_def split: option.splits fd_entry.splits if_splits)

lemma clone_fds_step:
  assumes "posix_ok H opn" "clone_fds H (i # is) fds nfds h = Ok (nfds', h')"
  shows "\<exists>x h1. clone_fds H is fds (nfds[i := x]) h1 = Ok (nfds', h') \<and> fd_copy (opn h1 - opn h) (fds ! i) x \<and> opn h \<subseteq> opn h1"
proof (cases "fds ! i")
  case None
  then show ?thesis using assms(2) by (intro exI [of _ None] exI [of _ h]) simp
next
  case (Some e)
  show ?thesis
  proof (cases e)
    case (DeviceFDEntry c d n)
    then show ?thesis using assms(2) Some by (intro exI [of _ "Some (DeviceFDEntry False d n)"] exI [of _ h]) simp
  next
    case (HBFDEntry b)
    show ?thesis
    proof (cases "hb_simFD b \<le> 2")
      case True
      then show ?thesis using assms(2) Some HBFDEntry
        by (intro exI [of _ "Some (fd_entry.HBFDEntry (hb_clone b))"] exI [of _ h]) (simp add: hb_clone_def)
    next
      case False
      obtain fd h1 where d: "px_dup H (hb_simFD b) h = (fd, h1)" by (cases "px_dup H (hb_simFD b) h")
      have r: "fd \<noteq> - 1" "clone_fds H is fds (nfds[i := Some (fd_entry.HBFDEntry ((hb_clone b)\<lparr>hb_simFD := fd\<rparr>))]) h1 = Ok (nfds', h')"
        using False Some HBFDEntry assms(2) d by (simp_all add: res_simps)
      have "fd \<in> opn h1 - opn h" "opn h \<subseteq> opn h1" using posix_okD(2) [OF assms(1) d] r(1) by auto
      then show ?thesis using r(2) Some HBFDEntry False
        by (intro exI [of _ "Some (fd_entry.HBFDEntry ((hb_clone b)\<lparr>hb_simFD := fd\<rparr>))"] exI [of _ h1]) (simp add: hb_clone_def)
    qed
  qed
qed

lemma clone_fds_ok:
  assumes "posix_ok H opn" "distinct is" "set is \<subseteq> {..<length fds}" "length nfds = length fds"
    and "clone_fds H is fds nfds h = Ok (nfds', h')"
  shows "length nfds' = length fds \<and> opn h \<subseteq> opn h' \<and> (\<forall>i. i \<notin> set is \<longrightarrow> nfds' ! i = nfds ! i) \<and>
    (\<forall>i\<in>set is. fd_copy (opn h' - opn h) (fds ! i) (nfds' ! i)) \<and>
    (\<forall>i\<in>set is. \<forall>j\<in>set is. i \<noteq> j \<longrightarrow> set (simfds_of (nfds' ! i)) \<inter> set (simfds_of (nfds' ! j)) = {})"
  using assms(2-5)
proof (induction "is" arbitrary: nfds h)
  case Nil
  then show ?case by simp
next
  case (Cons i "is")
  have i: "i < length fds" "i \<notin> set is" "distinct is" "set is \<subseteq> {..<length fds}" using Cons.prems(1,2) by auto
  obtain x h1 where x: "clone_fds H is fds (nfds[i := x]) h1 = Ok (nfds', h')" "fd_copy (opn h1 - opn h) (fds ! i) x" "opn h \<subseteq> opn h1"
    using clone_fds_step [OF assms(1) Cons.prems(4)] by blast
  have "length (nfds[i := x]) = length fds" using Cons.prems(3) by simp
  note ih = Cons.IH [OF i(3,4) this x(1)]
  have xi: "nfds' ! i = x" using ih i(1,2) Cons.prems(3) by simp
  have old: "set (simfds_of x) \<subseteq> opn h1" using fd_copy_simfds [OF x(2)] by blast
  have new: "set (simfds_of (nfds' ! j)) \<inter> opn h1 = {}" if "j \<in> set is" for j
    using ih that fd_copy_simfds [of "opn h' - opn h1" "fds ! j" "nfds' ! j"] by blast
  have "fd_copy (opn h' - opn h) (fds ! j) (nfds' ! j)" if "j \<in> set (i # is)" for j
  proof (cases "j = i")
    case True
    have "opn h1 - opn h \<subseteq> opn h' - opn h" using ih by blast
    then show ?thesis using fd_copy_mono [OF x(2)] True xi by simp
  next
    case False
    then have "fd_copy (opn h' - opn h1) (fds ! j) (nfds' ! j)" using ih that by simp
    moreover have "opn h' - opn h1 \<subseteq> opn h' - opn h" using x(3) by blast
    ultimately show ?thesis by (rule fd_copy_mono)
  qed
  moreover have "set (simfds_of (nfds' ! j)) \<inter> set (simfds_of (nfds' ! k)) = {}" if "j \<in> set (i # is)" "k \<in> set (i # is)" "j \<noteq> k" for j k
  proof (cases "j \<in> set is \<and> k \<in> set is")
    case True
    then show ?thesis using ih that(3) by blast
  next
    case False
    then show ?thesis using that xi old new by auto
  qed
  moreover have "nfds' ! j = nfds ! j" if "j \<notin> set (i # is)" for j using ih that by simp
  ultimately show ?case using ih x(3) by blast
qed

lemma distinct_simfds:
  assumes "\<forall>i<length es. \<forall>j<length es. i \<noteq> j \<longrightarrow> set (simfds_of (es ! i)) \<inter> set (simfds_of (es ! j)) = {}"
  shows "distinct (concat (map simfds_of es))"
  using assms
proof (induction es)
  case (Cons e es)
  have "set (simfds_of e) \<inter> set (simfds_of (es ! j)) = {}" if "j < length es" for j
    using Cons.prems [rule_format, of 0 "Suc j"] that by simp
  then have "set (simfds_of e) \<inter> set (simfds_of x) = {}" if "x \<in> set es" for x using that by (metis in_set_conv_nth)
  then have "set (simfds_of e) \<inter> set (concat (map simfds_of es)) = {}" by auto
  moreover have "distinct (concat (map simfds_of es))"
  proof (rule Cons.IH, intro allI impI)
    fix i j assume "i < length es" "j < length es" "i \<noteq> j"
    then show "set (simfds_of (es ! i)) \<inter> set (simfds_of (es ! j)) = {}"
      using Cons.prems [rule_format, of "Suc i" "Suc j"] by simp
  qed
  moreover have "distinct (simfds_of e)" by (simp add: simfds_of_def split: option.split fd_entry.split)
  ultimately show ?case by simp
qed simp

text \<open>
  C14. A clone that does not share its descriptors gets a copy of every entry, with
  close-on-exec switched off and with a descriptor of the host of its own for every one the original owns, so that closing
  in one process does not close in the other.
\<close>

theorem clone_files_independent:
  assumes "posix_ok H opn" "table_ok (opn h) rest fa" "length (fa_fdArray nfa) = numFDs" "clone_files H fa (nfa, h) = Ok (nfa', h')"
  shows "table_ok (opn h') (simfds fa @ rest) nfa' \<and> table_ok (opn h') rest fa \<and>
    (\<forall>i<numFDs. fd_copy (opn h' - opn h) (fa_fdArray fa ! i) (fa_fdArray nfa' ! i))"
proof -
  let ?es = "fa_fdArray fa"
  have len: "length ?es = numFDs" using assms(2) by (simp add: table_ok_def)
  obtain nfds where c: "clone_fds H [0..<length ?es] ?es (fa_fdArray nfa) h = Ok (nfds, h')" "nfa' = nfa\<lparr>fa_fdArray := nfds\<rparr>"
    using assms(4) by (auto simp: clone_files_def res_simps)
  have "set [0..<length ?es] \<subseteq> {..<length ?es}" "length (fa_fdArray nfa) = length ?es" using assms(3) len by auto
  note all = clone_fds_ok [OF assms(1) distinct_upt this c(1)]
  have k: "length nfds = numFDs" "opn h \<subseteq> opn h'" using all len by simp_all
  have copy: "\<forall>i<numFDs. fd_copy (opn h' - opn h) (?es ! i) (nfds ! i)" using all len by simp
  have sub: "set (simfds nfa') \<subseteq> opn h' - opn h"
  proof
    fix fd assume "fd \<in> set (simfds nfa')"
    then obtain x where "x \<in> set nfds" "fd \<in> set (simfds_of x)" unfolding simfds_def c(2) by auto
    then obtain i where i: "i < length nfds" "fd \<in> set (simfds_of (nfds ! i))" by (metis in_set_conv_nth)
    have "fd_copy (opn h' - opn h) (?es ! i) (nfds ! i)" using copy i(1) k(1) by simp
    from fd_copy_simfds [OF this] i(2) show "fd \<in> opn h' - opn h" by blast
  qed
  have d: "distinct (simfds nfa')" unfolding simfds_def c(2) using all by (intro distinct_simfds) simp_all
  have t: "distinct (simfds fa @ rest)" "set (simfds fa @ rest) \<subseteq> opn h" using assms(2) by (simp_all add: table_ok_def)
  have "table_ok (opn h') (simfds fa @ rest) nfa'"
  proof -
    have "set (simfds nfa' @ simfds fa @ rest) \<subseteq> opn h'" using sub t(2) k(2) by auto
    moreover have "distinct (simfds nfa' @ simfds fa @ rest)" using d sub t by auto
    ultimately show ?thesis using k(1) c(2) by (simp add: table_ok_def)
  qed
  moreover have "table_ok (opn h') rest fa" by (rule table_ok_mono [OF assms(2) k(2)])
  ultimately show ?thesis using copy c(2) by simp
qed

lemma clone_fds_total:
  assumes "posix_ok H opn" "\<forall>fd h. fd \<in> opn h \<longrightarrow> fst (px_dup H fd h) \<noteq> - 1" "\<forall>i\<in>set is. set (simfds_of (fds ! i)) \<subseteq> opn h"
  shows "returns (clone_fds H is fds nfds h)"
  using assms(3)
proof (induction "is" arbitrary: nfds h)
  case (Cons i "is")
  show ?case
  proof (cases "fds ! i")
    case None
    then show ?thesis using Cons by simp
  next
    case (Some e)
    show ?thesis
    proof (cases e)
      case (DeviceFDEntry c d n)
      then show ?thesis using Cons Some by simp
    next
      case (HBFDEntry b)
      show ?thesis
      proof (cases "hb_simFD b \<le> 2")
        case True
        then show ?thesis using Cons Some HBFDEntry by simp
      next
        case False
        obtain fd h1 where d: "px_dup H (hb_simFD b) h = (fd, h1)" by (cases "px_dup H (hb_simFD b) h")
        have "hb_simFD b \<in> opn h" using Cons.prems Some HBFDEntry False by (simp add: simfds_of_def)
        then have "fd \<noteq> - 1" using assms(2) d by (metis fst_conv)
        moreover have "\<forall>i\<in>set is. set (simfds_of (fds ! i)) \<subseteq> opn h1"
          using Cons.prems posix_okD(2) [OF assms(1) d] \<open>fd \<noteq> - 1\<close> by auto
        ultimately show ?thesis using Cons.IH Some HBFDEntry False d by simp
      qed
    qed
  qed
qed (simp add: returns_def)

theorem clone_files_independent_witness:
  "\<exists>nfa' h'. clone_files posix_demo table_demo (table_demo, [0, 1, 2, 7]) = Ok (nfa', h') \<and>
     table_ok (set h') (simfds table_demo @ []) nfa'"
proof -
  let ?h = "[0, 1, 2, 7 :: int]" and ?es = "fa_fdArray table_demo"
  have t: "table_ok (set ?h) [] table_demo" by (rule table_demo_ok)
  have "\<forall>fd h. fd \<in> set h \<longrightarrow> fst (px_dup posix_demo fd h) \<noteq> - 1"
  proof (intro allI impI)
    fix fd :: int and h assume "fd \<in> set h"
    then show "fst (px_dup posix_demo fd h) \<noteq> - 1" using next_fd_fresh(2) [of h] by (simp add: posix_demo_def)
  qed
  moreover have "\<forall>i\<in>set [0..<length ?es]. set (simfds_of (?es ! i)) \<subseteq> set ?h"
  proof
    fix i assume "i \<in> set [0..<length ?es]"
    then have "set (simfds_of (?es ! i)) \<subseteq> set (simfds table_demo)" by (force simp: simfds_def)
    then show "set (simfds_of (?es ! i)) \<subseteq> set ?h" using t unfolding table_ok_def by auto
  qed
  ultimately have "returns (clone_fds posix_demo [0..<length ?es] ?es ?es ?h)" by (rule clone_fds_total [OF posix_demo_ok])
  then obtain nfds h' where "clone_fds posix_demo [0..<length ?es] ?es ?es ?h = Ok (nfds, h')" by (auto simp: returns_def)
  then have c: "clone_files posix_demo table_demo (table_demo, ?h) = Ok (table_demo\<lparr>fa_fdArray := nfds\<rparr>, h')" by (simp add: clone_files_def)
  have "length ?es = numFDs" using t by (simp add: table_ok_def)
  from clone_files_independent [OF posix_demo_ok t this c] c show ?thesis by blast
qed

lemma openFile_fresh:
  assumes "posix_ok H opn" "openFile H n f m h = Ok (fd, h')"
  shows "0 \<le> fd \<and> fd \<notin> opn h \<and> opn h' = insert fd (opn h)"
proof -
  have "fresh_fd opn (px_open H n f m h) h" using assms(1) by (simp only: posix_ok_def)
  then show ?thesis using assms(2) by (auto simp: openFile_def fresh_fd_def split: if_splits prod.splits)
qed

lemma std_fd_fresh:
  assumes "posix_ok H opn" "std_fd dict opener name h = Ok (fd, h')" "\<And>n h. \<exists>m f d. opener n h = openFile H m f d h"
  shows "if dict name = None then 0 \<le> fd \<and> fd \<notin> opn h \<and> opn h' = insert fd (opn h) else dict name = Some fd \<and> h' = h"
proof (cases "dict name")
  case None
  obtain m f d where "opener name h = openFile H m f d h" using assms(3) by blast
  then show ?thesis using None assms(2) openFile_fresh [OF assms(1)] by (auto simp: std_fd_def)
qed (use assms(2) in \<open>simp add: std_fd_def\<close>)

lemma std_files:
  assumes "posix_ok H opn"
  shows "std_fd imap (openInputFile H) name h = Ok (fd, h') \<Longrightarrow> if imap name = None then 0 \<le> fd \<and> fd \<notin> opn h \<and> opn h' = insert fd (opn h) else fd \<le> 2 \<and> h' = h"
    and "std_fd oemap (openOutputFile dir H) name h = Ok (fd, h') \<Longrightarrow> if oemap name = None then 0 \<le> fd \<and> fd \<notin> opn h \<and> opn h' = insert fd (opn h) else fd \<le> 2 \<and> h' = h"
proof -
  have le: "imap name = Some fd \<Longrightarrow> fd \<le> 2" "oemap name = Some fd \<Longrightarrow> fd \<le> 2" by (auto simp: imap_def oemap_def split: if_splits)
  have op: "\<exists>m f d. openInputFile H n h = openFile H m f d h" "\<exists>m f d. openOutputFile dir H n h = openFile H m f d h" for n h
    by (auto simp: openInputFile_def openOutputFile_def)
  show "std_fd imap (openInputFile H) name h = Ok (fd, h') \<Longrightarrow> if imap name = None then 0 \<le> fd \<and> fd \<notin> opn h \<and> opn h' = insert fd (opn h) else fd \<le> 2 \<and> h' = h"
    using std_fd_fresh [OF assms _ op(1)] le(1) by (auto split: if_splits)
  show "std_fd oemap (openOutputFile dir H) name h = Ok (fd, h') \<Longrightarrow> if oemap name = None then 0 \<le> fd \<and> fd \<notin> opn h \<and> opn h' = insert fd (opn h) else fd \<le> 2 \<and> h' = h"
    using std_fd_fresh [OF assms _ op(2)] le(2) by (auto split: if_splits)
qed

lemma FDArray_steps:
  assumes "FDArray dir H input output errout h = Ok (fa, h')"
  obtains fd0 fd1 fd2 h0 h1 where "std_fd imap (openInputFile H) input h = Ok (fd0, h0)"
    "std_fd oemap (openOutputFile dir H) output h0 = Ok (fd1, h1)"
    "(if output = errout then Ok (fd1, h1) else std_fd oemap (openOutputFile dir H) errout h1) = Ok (fd2, h')"
    "fa_fdArray fa = Some (HBFDEntry (FileFDEntry fd0 O_RDONLY input 0 False)) #
       Some (HBFDEntry (FileFDEntry fd1 (O_WRONLY OR O_CREAT OR O_TRUNC) output 0 False)) #
       Some (HBFDEntry (FileFDEntry fd2 (O_WRONLY OR O_CREAT OR O_TRUNC) errout 0 False)) # replicate 1021 None"
proof -
  have rep: "replicate numFDs (None :: fd_entry option) = None # None # None # replicate 1021 None"
    by (simp add: numFDs_def numeral_eq_Suc)
  obtain fd0 h0 where 0: "std_fd imap (openInputFile H) input h = Ok (fd0, h0)"
    using assms by (cases "std_fd imap (openInputFile H) input h") (auto simp: FDArray_def)
  obtain fd1 h1 where 1: "std_fd oemap (openOutputFile dir H) output h0 = Ok (fd1, h1)"
    using assms 0 by (cases "std_fd oemap (openOutputFile dir H) output h0") (auto simp: FDArray_def)
  obtain fd2 h2 where 2: "(if output = errout then Ok (fd1, h1) else std_fd oemap (openOutputFile dir H) errout h1) = Ok (fd2, h2)"
    using assms 0 1 by (cases "if output = errout then Ok (fd1, h1) else std_fd oemap (openOutputFile dir H) errout h1")
      (auto simp: FDArray_def)
  have "h2 = h'" "fa_fdArray fa = Some (HBFDEntry (FileFDEntry fd0 O_RDONLY input 0 False)) #
       Some (HBFDEntry (FileFDEntry fd1 (O_WRONLY OR O_CREAT OR O_TRUNC) output 0 False)) #
       Some (HBFDEntry (FileFDEntry fd2 (O_WRONLY OR O_CREAT OR O_TRUNC) errout 0 False)) # replicate 1021 None"
    using assms by (auto simp: FDArray_def 0 1 2 Let_def rep numeral_eq_Suc)
  then show thesis using 0 1 2 that by blast
qed

lemma FDArray_ok:
  assumes "posix_ok H opn" "FDArray dir H input output errout h = Ok (fa, h')" "output = errout \<Longrightarrow> oemap output \<noteq> None"
    and "distinct rest" "set rest \<subseteq> opn h"
  shows "table_ok (opn h') rest fa"
proof -
  obtain fd0 fd1 fd2 h0 h1 where st: "std_fd imap (openInputFile H) input h = Ok (fd0, h0)"
    "std_fd oemap (openOutputFile dir H) output h0 = Ok (fd1, h1)"
    "(if output = errout then Ok (fd1, h1) else std_fd oemap (openOutputFile dir H) errout h1) = Ok (fd2, h')"
    "fa_fdArray fa = Some (HBFDEntry (FileFDEntry fd0 O_RDONLY input 0 False)) #
       Some (HBFDEntry (FileFDEntry fd1 (O_WRONLY OR O_CREAT OR O_TRUNC) output 0 False)) #
       Some (HBFDEntry (FileFDEntry fd2 (O_WRONLY OR O_CREAT OR O_TRUNC) errout 0 False)) # replicate 1021 None"
    by (rule FDArray_steps [OF assms(2)])
  let ?own = "\<lambda>fd. if fd > 2 then [fd] else []"
  have own: "simfds fa = ?own fd0 @ ?own fd1 @ ?own fd2"
    by (simp add: simfds_def st(4) simfds_of_def FileFDEntry_def simfds_replicate)
  have f0: "if fd0 > 2 then fd0 \<notin> opn h \<and> opn h0 = insert fd0 (opn h) else opn h \<subseteq> opn h0"
    using std_files(1) [OF assms(1) st(1)] by (auto split: if_splits)
  have f1: "if fd1 > 2 then fd1 \<notin> opn h0 \<and> opn h1 = insert fd1 (opn h0) else opn h0 \<subseteq> opn h1"
    using std_files(2) [OF assms(1) st(2)] by (auto split: if_splits)
  have f2: "if fd2 > 2 then fd2 \<notin> opn h1 \<and> opn h' = insert fd2 (opn h1) else opn h1 \<subseteq> opn h'"
  proof (cases "output = errout")
    case True
    then have "fd2 = fd1" "h' = h1" "fd1 \<le> 2" using st(3) std_files(2) [OF assms(1) st(2)] assms(3) by auto
    then show ?thesis by simp
  next
    case False
    then have "std_fd oemap (openOutputFile dir H) errout h1 = Ok (fd2, h')" using st(3) by simp
    from std_files(2) [OF assms(1) this] show ?thesis by (auto split: if_splits)
  qed
  have "length (fa_fdArray fa) = numFDs" by (simp add: st(4) numFDs_def)
  moreover have "distinct (simfds fa @ rest)" "set (simfds fa @ rest) \<subseteq> opn h'"
    unfolding own using f0 f1 f2 assms(4,5) by (auto split: if_splits)
  ultimately show ?thesis by (simp add: table_ok_def)
qed


text \<open>
  C15. Where a process is given one file for its output and its error output, both entries
  name one descriptor of the host, and closing the output closes the error output too: its entry stays in the table and
  names a descriptor that is no longer open.
\<close>

theorem shared_output_closed:
  assumes "posix_ok H opn" "FDArray dir H input f f h0 = Ok (fa, h)" "oemap f = None" "{0, 1, 2} \<subseteq> opn h0"
    and "closeFunc H 1 (fa, h) = Ok ((fa', h'), 0)"
  shows "\<exists>e. hb_at 2 fa' = Ok (Some e) \<and> 2 < hb_simFD e \<and> hb_simFD e \<notin> opn h'"
proof -
  obtain fd0 fd1 fd2 h0' h1 where st: "std_fd imap (openInputFile H) input h0 = Ok (fd0, h0')"
    "std_fd oemap (openOutputFile dir H) f h0' = Ok (fd1, h1)"
    "(if f = f then Ok (fd1, h1) else std_fd oemap (openOutputFile dir H) f h1) = Ok (fd2, h)"
    "fa_fdArray fa = Some (HBFDEntry (FileFDEntry fd0 O_RDONLY input 0 False)) #
       Some (HBFDEntry (FileFDEntry fd1 (O_WRONLY OR O_CREAT OR O_TRUNC) f 0 False)) #
       Some (HBFDEntry (FileFDEntry fd2 (O_WRONLY OR O_CREAT OR O_TRUNC) f 0 False)) # replicate 1021 None"
    by (rule FDArray_steps [OF assms(2)])
  have f0: "opn h0 \<subseteq> opn h0'" using std_files(1) [OF assms(1) st(1)] by (auto split: if_splits)
  have f1: "0 \<le> fd1" "fd1 \<notin> opn h0'" using std_files(2) [OF assms(1) st(2)] assms(3) by simp_all
  have big: "2 < fd1"
  proof (rule ccontr)
    assume "\<not> 2 < fd1"
    then have "fd1 \<in> {0, 1, 2}" using f1(1) by auto
    then show False using f0 f1(2) assms(4) by blast
  qed
  have eq: "fd2 = fd1" using st(3) by simp
  obtain r h2 where c: "px_close H fd1 h = (r, h2)" by (cases "px_close H fd1 h")
  have cl: "closeFDEntry H 1 (fa, h) = ((fa', h'), 0)" using assms(5) by (simp add: closeFunc_def)
  have "r = 0" "h' = h2" "fa' = fa\<lparr>fa_fdArray := (fa_fdArray fa)[1 := None]\<rparr>"
    using cl c big by (simp_all add: closeFDEntry_def st(4) FileFDEntry_def split: if_splits)
  then show ?thesis using posix_okD(6) [OF assms(1) c] big
    by (simp add: hb_at_def getFDEntry_def st(4) eq FileFDEntry_def)
qed

lemma FDArray_demo:
  "FDArray ''out/'' posix_demo ''cin'' ''cout'' ''cerr'' [0, 1, 2] = Ok (\<lparr>fa_fdArray =
       Some (HBFDEntry (FileFDEntry 0 O_RDONLY ''cin'' 0 False)) #
       Some (HBFDEntry (FileFDEntry 1 (O_WRONLY OR O_CREAT OR O_TRUNC) ''cout'' 0 False)) #
       Some (HBFDEntry (FileFDEntry 2 (O_WRONLY OR O_CREAT OR O_TRUNC) ''cerr'' 0 False)) # replicate 1021 None,
     fa_input = ''cin'', fa_output = ''cout'', fa_errout = ''cerr''\<rparr>, [0, 1, 2])"
  "FDArray ''out/'' posix_demo ''cin'' ''log'' ''log'' [0, 1, 2] = Ok (\<lparr>fa_fdArray =
       Some (HBFDEntry (FileFDEntry 0 O_RDONLY ''cin'' 0 False)) #
       Some (HBFDEntry (FileFDEntry 3 (O_WRONLY OR O_CREAT OR O_TRUNC) ''log'' 0 False)) #
       Some (HBFDEntry (FileFDEntry 3 (O_WRONLY OR O_CREAT OR O_TRUNC) ''log'' 0 False)) # replicate 1021 None,
     fa_input = ''cin'', fa_output = ''log'', fa_errout = ''log''\<rparr>, [3, 0, 1, 2])"
proof -
  have rep: "replicate numFDs (None :: fd_entry option) = None # None # None # replicate 1021 None"
    by (simp add: numFDs_def numeral_eq_Suc)
  show "FDArray ''out/'' posix_demo ''cin'' ''cout'' ''cerr'' [0, 1, 2] = Ok (\<lparr>fa_fdArray =
       Some (HBFDEntry (FileFDEntry 0 O_RDONLY ''cin'' 0 False)) #
       Some (HBFDEntry (FileFDEntry 1 (O_WRONLY OR O_CREAT OR O_TRUNC) ''cout'' 0 False)) #
       Some (HBFDEntry (FileFDEntry 2 (O_WRONLY OR O_CREAT OR O_TRUNC) ''cerr'' 0 False)) # replicate 1021 None,
     fa_input = ''cin'', fa_output = ''cout'', fa_errout = ''cerr''\<rparr>, [0, 1, 2])"
    by (simp add: FDArray_def std_fd_def imap_def oemap_def Let_def rep)
  show "FDArray ''out/'' posix_demo ''cin'' ''log'' ''log'' [0, 1, 2] = Ok (\<lparr>fa_fdArray =
       Some (HBFDEntry (FileFDEntry 0 O_RDONLY ''cin'' 0 False)) #
       Some (HBFDEntry (FileFDEntry 3 (O_WRONLY OR O_CREAT OR O_TRUNC) ''log'' 0 False)) #
       Some (HBFDEntry (FileFDEntry 3 (O_WRONLY OR O_CREAT OR O_TRUNC) ''log'' 0 False)) # replicate 1021 None,
     fa_input = ''cin'', fa_output = ''log'', fa_errout = ''log''\<rparr>, [3, 0, 1, 2])"
    by (simp add: FDArray_def std_fd_def imap_def oemap_def Let_def rep openOutputFile_def openFile_def posix_demo_def next_fd_def)
qed


theorem shared_output_closed_witness:
  "\<exists>fa h fa' h' e. FDArray ''out/'' posix_demo ''cin'' ''log'' ''log'' [0, 1, 2] = Ok (fa, h) \<and>
     closeFunc posix_demo 1 (fa, h) = Ok ((fa', h'), 0) \<and> hb_at 2 fa' = Ok (Some e) \<and> 2 < hb_simFD e \<and> hb_simFD e \<notin> set h'"
proof -
  obtain fa where fa: "FDArray ''out/'' posix_demo ''cin'' ''log'' ''log'' [0, 1, 2] = Ok (fa, [3, 0, 1, 2])"
    "fa_fdArray fa = Some (HBFDEntry (FileFDEntry 0 O_RDONLY ''cin'' 0 False)) #
     Some (HBFDEntry (FileFDEntry 3 (O_WRONLY OR O_CREAT OR O_TRUNC) ''log'' 0 False)) #
     Some (HBFDEntry (FileFDEntry 3 (O_WRONLY OR O_CREAT OR O_TRUNC) ''log'' 0 False)) # replicate 1021 None"
    using FDArray_demo(2) by simp
  obtain fa' where c: "closeFunc posix_demo 1 (fa, [3, 0, 1, 2]) = Ok ((fa', [0, 1, 2]), 0)"
    by (simp add: closeFunc_def closeFDEntry_def fa(2) FileFDEntry_def posix_demo_def)
  have "oemap ''log'' = None" "{0, 1, 2} \<subseteq> set [0, 1, 2 :: int]" by (simp_all add: oemap_def)
  from shared_output_closed [OF posix_demo_ok fa(1) this c] fa(1) c show ?thesis by blast
qed

end
