(* ===== verification/Syscalls.thy ===== *)
theory Syscalls
  imports Process_Memory Fd_Array
begin

text \<open>
  The system calls that change an address space: \<open>brk\<close> and \<open>munmap\<close> of \<open>src/sim/syscall_emul.cc\<close>, \<open>mmap\<close> and \<open>mremap\<close> of
  \<open>src/sim/syscall_emul.hh\<close>, with the flags of Linux on 64-bit ARM.

  A call takes the thread that makes it and returns the encoded value of its \<open>SyscallReturn\<close>.
\<close>

unbundle bit_operations_syntax

section \<open>Values and flags\<close>

definition EINVAL :: int where "EINVAL = 22"
definition ENOMEM :: int where "ENOMEM = 12"

definition sys_error :: "int \<Rightarrow> addr" where
  "sys_error e = word_of_int (- e)"

definition successful :: "addr \<Rightarrow> bool" where
  "successful r \<longleftrightarrow> 0 \<le> sint r \<or> sint r \<le> - 4096"

definition TGT_MAP_SHARED :: "32 word" where "TGT_MAP_SHARED = 0x00001"
definition TGT_MAP_PRIVATE :: "32 word" where "TGT_MAP_PRIVATE = 0x00002"
definition TGT_MAP_ANONYMOUS :: "32 word" where "TGT_MAP_ANONYMOUS = 0x00020"
definition TGT_MAP_FIXED :: "32 word" where "TGT_MAP_FIXED = 0x00010"
definition TGT_MREMAP_MAYMOVE :: addr where "TGT_MREMAP_MAYMOVE = 0x1"
definition TGT_MREMAP_FIXED :: addr where "TGT_MREMAP_FIXED = 0x2"

definition mmapGrowsDown :: bool where "mmapGrowsDown = True"

section \<open>The memory state of the calling process\<close>

type_synonym space = "mem_state \<times> page_table \<times> thread list"

text \<open>
  An operation of a memory state works on the page table of the process that owns it and on the TLBs of all threads.
\<close>

definition on_space :: "nat \<Rightarrow> (space \<Rightarrow> (space \<times> 'a) run) \<Rightarrow> se \<Rightarrow> (se \<times> 'a) run" where
  "on_space mid f s =
     bind_run (Some (deref (se_mss s mid))) (\<lambda>ms.
     bind_run (Some (deref (se_procs s (ms_ownerProcess ms)))) (\<lambda>owner.
     bind_run (Some (deref (se_pts s (p_pTable owner)))) (\<lambda>pt.
     bind_run (f (ms, pt, se_threads s)) (\<lambda>((ms, pt, ths), r).
       Done (s\<lparr>se_mss := (se_mss s)(mid \<mapsto> ms), se_pts := (se_pts s)(p_pTable owner \<mapsto> pt), se_threads := ths\<rparr>, r)))))"

definition caller :: "nat \<Rightarrow> se \<Rightarrow> (nat \<times> process) res" where
  "caller cid s =
     bind_res (thread_at cid s) (\<lambda>th. bind_res (deref (se_procs s (th_process th))) (\<lambda>pr. Ok (th_process th, pr)))"

section \<open>The calls\<close>

definition brkFunc :: "host \<Rightarrow> nat \<Rightarrow> addr \<Rightarrow> se \<Rightarrow> (se \<times> addr) run" where
  "brkFunc h cid new_brk s =
     bind_run (Some (caller cid s)) (\<lambda>(p, pr).
       on_space (p_memState pr) (\<lambda>(ms, pt, ths).
         let brk_point = ms_brkPoint ms
         in if new_brk = 0 \<or> new_brk = brk_point then Done ((ms, pt, ths), brk_point)
            else bind_run (updateBrkRegion h pt brk_point new_brk ms) (\<lambda>ms. Done ((ms, pt, ths), ms_brkPoint ms))) s)"

definition munmapFunc :: "nat \<Rightarrow> addr \<Rightarrow> addr \<Rightarrow> se \<Rightarrow> (se \<times> addr) run" where
  "munmapFunc cid start len s =
     bind_run (Some (caller cid s)) (\<lambda>(p, pr).
       if start AND (PageBytes - 1) \<noteq> 0 \<or> len = 0 then Done (s, sys_error EINVAL)
       else bind_run (Some (roundUp len PageBytes)) (\<lambda>len.
              on_space (p_memState pr) (\<lambda>sp. bind_run (unmapRegion start len sp) (\<lambda>sp. Done (sp, 0))) s))"

text \<open>
  \<open>mremap\<close>: the address in \<open>provided\<close> is read only when \<open>MREMAP_FIXED\<close> asks for it.
\<close>

definition mremap_grow :: "sys_params \<Rightarrow> host \<Rightarrow> nat \<Rightarrow> nat \<Rightarrow> addr \<Rightarrow> addr \<Rightarrow> addr \<Rightarrow> bool \<Rightarrow> bool \<Rightarrow> addr \<Rightarrow> se \<Rightarrow> (se \<times> addr) run" where
  "mremap_grow P h p mid start old_length new_length use_provided may_move provided s =
     bind_run (Some (deref (se_mss s mid))) (\<lambda>ms.
       let mmap_end = ms_mmapEnd ms; diff = new_length - old_length
       in if start + old_length = mmap_end \<and> (\<not> use_provided \<or> provided = start) then
            on_space mid (\<lambda>(ms, pt, ths).
              bind_run (mapRegion h pt mmap_end diff ''remapped'' (- 1) 0 ms) (\<lambda>ms.
                Done ((setMmapEnd (mmap_end + diff) ms, pt, ths), start))) s
          else if \<not> use_provided \<and> \<not> may_move then Done (s, sys_error ENOMEM)
          else
            let new_start = (if use_provided then provided
                             else if mmapGrowsDown then mmap_end - new_length else mmap_end);
                s = (if use_provided then s
                     else s\<lparr>se_mss := (se_mss s)(mid \<mapsto> setMmapEnd (if mmapGrowsDown then new_start else mmap_end + new_length) ms)\<rparr>)
            in bind_run (Some (allocateMem P p (new_start + old_length) (sint diff) use_provided s)) (\<lambda>s.
                 on_space mid (\<lambda>sp. bind_run (remapRegion start new_start old_length sp) (\<lambda>sp. Done (sp, new_start))) s))"

definition mremap_shrink :: "nat \<Rightarrow> addr \<Rightarrow> addr \<Rightarrow> addr \<Rightarrow> bool \<Rightarrow> addr \<Rightarrow> se \<Rightarrow> (se \<times> addr) run" where
  "mremap_shrink mid start old_length new_length use_provided provided s =
     bind_run (if use_provided \<and> provided \<noteq> start
               then on_space mid (\<lambda>sp. bind_run (remapRegion start provided new_length sp) (\<lambda>sp. Done (sp, ()))) s
               else Done (s, ())) (\<lambda>(s, _).
     bind_run (if new_length \<noteq> old_length
               then on_space mid (\<lambda>sp. bind_run (unmapRegion (start + new_length) (old_length - new_length) sp) (\<lambda>sp. Done (sp, ()))) s
               else Done (s, ())) (\<lambda>(s, _).
       Done (s, if use_provided then provided else start)))"

definition mremapFunc :: "sys_params \<Rightarrow> host \<Rightarrow> nat \<Rightarrow> addr \<Rightarrow> addr \<Rightarrow> addr \<Rightarrow> addr \<Rightarrow> addr \<Rightarrow> se \<Rightarrow> (se \<times> addr) run" where
  "mremapFunc P h cid start old_length new_length flags vararg s =
     bind_run (Some (caller cid s)) (\<lambda>(p, pr).
       let use_provided = (flags AND TGT_MREMAP_FIXED \<noteq> 0); provided = (if use_provided then vararg else 0)
       in if start mod PageBytes \<noteq> 0 \<or> provided mod PageBytes \<noteq> 0 then Done (s, sys_error EINVAL)
          else bind_run (Some (roundUp new_length PageBytes)) (\<lambda>new_length.
            if new_length > old_length
            then mremap_grow P h p (p_memState pr) start old_length new_length use_provided (flags AND TGT_MREMAP_MAYMOVE \<noteq> 0) provided s
            else mremap_shrink (p_memState pr) start old_length new_length use_provided provided s))"

text \<open>
  \<open>mmap\<close>: \<open>fa\<close> is the table of descriptors of the process, and \<open>drv\<close> the \<open>mmap\<close> of an emulated device driver. The symbols of
  libraries that the dynamic loader maps go into a table of the debugger, which is not part of the state.
\<close>

type_synonym driver_mmap = "nat \<Rightarrow> nat \<Rightarrow> addr \<Rightarrow> addr \<Rightarrow> 32 word \<Rightarrow> 32 word \<Rightarrow> int \<Rightarrow> addr \<Rightarrow> se \<Rightarrow> (se \<times> addr) run"

definition mmap_region :: "host \<Rightarrow> 32 word \<Rightarrow> addr \<Rightarrow> addr \<Rightarrow> string \<Rightarrow> int \<Rightarrow> addr \<Rightarrow> space \<Rightarrow> (space \<times> addr) run" where
  "mmap_region h flags start len region_name sim_fd offset = (\<lambda>(ms, pt, ths).
     bind_run (if flags AND TGT_MAP_FIXED = 0 then
                 bind_run (if start \<noteq> 0 then ms_isUnmapped pt ms start len else Done False) (\<lambda>free.
                   if free then Done (ms, start) else extendMmap pt mmapGrowsDown len ms)
               else Done (ms, start)) (\<lambda>(ms, start).
     bind_run (if flags AND TGT_MAP_FIXED \<noteq> 0 then unmapRegion start len (ms, pt, ths) else Done (ms, pt, ths)) (\<lambda>(ms, pt, ths).
     bind_run (mapRegion h pt start len region_name sim_fd (sint offset) ms) (\<lambda>ms.
       Done ((ms, pt, ths), start)))))"

definition mmapFunc :: "host \<Rightarrow> driver_mmap \<Rightarrow> fd_array \<Rightarrow> nat \<Rightarrow> addr \<Rightarrow> addr \<Rightarrow> 32 word \<Rightarrow> 32 word \<Rightarrow> int \<Rightarrow> addr \<Rightarrow> se \<Rightarrow> (se \<times> addr) run" where
  "mmapFunc h drv fa cid start len prot flags tgt_fd offset s =
     bind_run (Some (caller cid s)) (\<lambda>(p, pr).
       if start AND (PageBytes - 1) \<noteq> 0 \<or> offset AND (PageBytes - 1) \<noteq> 0 \<or>
          flags AND TGT_MAP_PRIVATE \<noteq> 0 \<and> flags AND TGT_MAP_SHARED \<noteq> 0 \<or>
          flags AND TGT_MAP_PRIVATE = 0 \<and> flags AND TGT_MAP_SHARED = 0 \<or> len = 0
       then Done (s, sys_error EINVAL)
       else bind_run (Some (roundUp len PageBytes)) (\<lambda>len.
         if flags AND TGT_MAP_ANONYMOUS \<noteq> 0 then
           on_space (p_memState pr) (mmap_region h flags start len ''anon'' (- 1) offset) s
         else bind_run (Some (getFDEntry tgt_fd fa)) (\<lambda>fdep.
           case fdep of
             Some (DeviceFDEntry _ driver _) \<Rightarrow> drv driver cid start len prot flags tgt_fd offset s
           | Some (HBFDEntry e) \<Rightarrow>
               (case hb_kind e of
                  File name _ \<Rightarrow> on_space (p_memState pr) (mmap_region h flags start len name (hb_simFD e) offset) s
                | _ \<Rightarrow> Done (s, sys_error EBADF))
           | None \<Rightarrow> Done (s, sys_error EBADF))))"

section \<open>The calls in full\<close>

lemma caller_running: "running s cid p pr pt \<Longrightarrow> caller cid s = Ok (p, pr)"
  by (simp add: running_def caller_def thread_at_def deref_def)

lemma on_space_served:
  assumes "served s p pr ms" "se_pts s (p_pTable pr) = Some pt" "f (ms, pt, se_threads s) = Done ((ms', pt', ths'), r)"
  shows "on_space (p_memState pr) f s =
    Done (s\<lparr>se_mss := (se_mss s)(p_memState pr \<mapsto> ms'), se_pts := (se_pts s)(p_pTable pr \<mapsto> pt'), se_threads := ths'\<rparr>, r)"
  using assms by (simp add: on_space_def served_def deref_def)

lemma page_mask: "(x :: addr) AND (PageBytes - 1) = take_bit 12 x" "x mod PageBytes = take_bit 12 x"
proof -
  have p: "PageBytes = 4096" by (simp add: PageBytes_def PageShift_def)
  show "x AND (PageBytes - 1) = take_bit 12 x" by (simp add: p take_bit_eq_mask mask_eq_decr_exp)
  show "x mod PageBytes = take_bit 12 x" using take_bit_eq_mod [of 12 x] by (simp add: p)
qed

lemma roundUp_region:
  assumes "take_bit 12 start = 0" "len \<noteq> 0" "unat start + unat len + 4095 < 2 ^ 64"
  obtains l where "roundUp len PageBytes = Ok l" "region 12 start l" "unat len \<le> unat l" "unat l < unat len + 4096"
proof -
  have pb: "isPowerOf2 PageBytes" "unat PageBytes = 4096" by (simp_all add: PageBytes_def PageShift_def isPowerOf2_def)
  obtain l where l: "roundUp len PageBytes = Ok l" "4096 dvd unat l" "unat len \<le> unat l" "unat l < unat len + 4096"
    using roundUp_spec [OF pb(1), of len] assms(3) pb(2) by auto
  have "unat (take_bit 12 l) = 0" using l(2) unat_take_bit [of 12 l] by (simp add: dvd_eq_mod_eq_0)
  then have al: "take_bit 12 l = 0" by (simp add: unat_eq_0)
  have "0 < unat len" using assms(2) by (simp add: unat_gt_0)
  moreover have "unat (start + l) = unat start + unat l" using assms(3) l(4) by (simp add: unat_word_ariths)
  ultimately have "start < start + l" using l(3) by (simp add: word_less_nat_alt)
  then show ?thesis using that [OF l(1)] al assms(1) l(3,4) by (simp add: region_def)
qed

text \<open>
  C3. \<open>munmap\<close> refuses a start that is not page aligned and a length of zero without any effect. Otherwise it
  removes exactly the pages that the region touches from the areas and from the page table of the process, and changes nothing
  of any other process.
\<close>

theorem munmap_exact:
  assumes "running s cid p pr pt" "served s p pr ms" "space_ok 12 ms pt" "threads_ok (se_threads s)" "unat start + unat len + 4095 < 2 ^ 64"
  shows "if take_bit 12 start \<noteq> 0 \<or> len = 0 then munmapFunc cid start len s = Done (s, sys_error EINVAL) \<and> \<not> successful (sys_error EINVAL)
    else \<exists>l vs pt' ths'. unat len \<le> unat l \<and> unat l < unat len + 4096 \<and>
      munmapFunc cid start len s = Done (s\<lparr>se_mss := (se_mss s)(p_memState pr \<mapsto> ms\<lparr>ms_vmaList := vs\<rparr>),
        se_pts := (se_pts s)(p_pTable pr \<mapsto> pt'), se_threads := ths'\<rparr>, 0) \<and>
      space_ok 12 (ms\<lparr>ms_vmaList := vs\<rparr>) pt' \<and> areas vs = outside {start..<start + l} (areas (ms_vmaList ms)) \<and>
      (\<forall>x. pt_translate pt' x = (if x \<in> {start..<start + l} then None else pt_translate pt x))"
proof (cases "take_bit 12 start \<noteq> 0 \<or> len = 0")
  case True
  have "\<not> successful (sys_error EINVAL)" by (simp add: successful_def sys_error_def EINVAL_def)
  with True show ?thesis using caller_running [OF assms(1)] by (auto simp: munmapFunc_def page_mask)
next
  case False
  then obtain l where l: "roundUp len PageBytes = Ok l" "region 12 start l" "unat len \<le> unat l" "unat l < unat len + 4096"
    using roundUp_region [OF _ _ assms(5)] by blast
  obtain vs pt' ths' where u: "unmapRegion start l (ms, pt, se_threads s) = Done (ms\<lparr>ms_vmaList := vs\<rparr>, pt', ths')"
    "space_ok 12 (ms\<lparr>ms_vmaList := vs\<rparr>) pt'" "areas vs = outside {start..<start + l} (areas (ms_vmaList ms))"
    "\<forall>x. pt_translate pt' x = (if x \<in> {start..<start + l} then None else pt_translate pt x)"
    using unmapRegion_ok [OF assms(3) l(2) assms(4)] by (elim exE conjE) (rule that)
  have t: "se_pts s (p_pTable pr) = Some pt" using assms(1) by (simp add: running_def)
  have f: "(\<lambda>sp. bind_run (unmapRegion start l sp) (\<lambda>sp. Done (sp, 0))) (ms, pt, se_threads s) =
      Done ((ms\<lparr>ms_vmaList := vs\<rparr>, pt', ths'), 0 :: addr)" by (simp add: u(1))
  have "munmapFunc cid start len s = Done (s\<lparr>se_mss := (se_mss s)(p_memState pr \<mapsto> ms\<lparr>ms_vmaList := vs\<rparr>),
        se_pts := (se_pts s)(p_pTable pr \<mapsto> pt'), se_threads := ths'\<rparr>, 0)"
    using False caller_running [OF assms(1)] on_space_served [OF assms(2) t, of "\<lambda>sp. bind_run (unmapRegion start l sp) (\<lambda>sp. Done (sp, 0))", OF f] l(1)
    by (simp add: munmapFunc_def page_mask)
  with l(3,4) u(2-4) show ?thesis unfolding if_not_P [OF False] by (intro exI conjI)
qed

lemma demo_space:
  "threads_ok (se_threads se_demo)" "region 12 0x11000 0x1000" "take_bit 12 (0x11000 :: addr) = 0"
  by (simp_all add: threads_ok_def se_demo_simps th_demo_def tlb_se_def region_def)

theorem munmap_exact_witness:
  "\<exists>s' pt'. munmapFunc 0 0x11000 5 se_demo = Done (s', 0) \<and> se_pts s' 0 = Some pt' \<and> pt_translate pt' 0x11004 = None"
proof -
  have len: "unat (0x11000 :: addr) + unat (5 :: addr) + 4095 < 2 ^ 64" by simp
  have ne: "\<not> (take_bit 12 (0x11000 :: addr) \<noteq> 0 \<or> (5 :: addr) = 0)" by simp
  obtain l vs pt' ths' where l: "unat (5 :: addr) \<le> unat l" "unat l < unat (5 :: addr) + 4096" and
    m: "munmapFunc 0 0x11000 5 se_demo = Done (se_demo\<lparr>se_mss := (se_mss se_demo)(p_memState (proc_demo 0) \<mapsto> ms_demo\<lparr>ms_vmaList := vs\<rparr>),
        se_pts := (se_pts se_demo)(p_pTable (proc_demo 0) \<mapsto> pt'), se_threads := ths'\<rparr>, 0)" and
    x: "\<forall>x. pt_translate pt' x = (if x \<in> {0x11000..<0x11000 + l} then None else pt_translate pt_demo x)"
    using munmap_exact [OF se_demo_running(1) served_demo ms_demo_ok demo_space(1) len] unfolding if_not_P [OF ne]
    by (elim exE conjE) (rule that)
  have u: "unat (0x11000 + l) = 0x11000 + unat l" using l(2) by (simp add: unat_word_ariths)
  have "(0x11004 :: addr) \<in> {0x11000..<0x11000 + l}" using l(1) u by (simp add: word_less_nat_alt word_le_nat_alt)
  then have "pt_translate pt' 0x11004 = None" using x by metis
  then show ?thesis using m by (auto simp: se_demo_simps)
qed

text \<open>
  C5. The length is rounded up to whole pages without a test for overflow: a length within the last page of
  the address space becomes zero, and \<open>munmap\<close> then removes every page of the process, and reports success.
\<close>

theorem munmap_wrap_clears:
  assumes "running s cid p pr pt" "served s p pr ms" "space_ok 12 ms pt" "threads_ok (se_threads s)"
    and "take_bit 12 start = 0" "2 ^ 64 - 4096 < unat len" "\<forall>v\<in>set (ms_vmaList ms). \<not> (v_start v < start \<and> start < v_end v)"
  shows "\<exists>s' pt'. munmapFunc cid start len s = Done (s', 0) \<and> se_mss s' = se_mss s \<and> se_pts s' (p_pTable pr) = Some pt' \<and>
    (\<forall>x. pt_translate pt' x = None)"
proof -
  have sp: "pt_ok 12 pt" "ms_pageBytes ms = 2 ^ 12" "\<forall>v\<in>set (ms_vmaList ms). vma_wf v"
    using assms(3) by (auto simp: space_ok_def vmas_ok_def)
  have un: "unmap_vmas (AddrRange start start) [] (ms_vmaList ms) = Ok (ms_vmaList ms)"
    using unmap_vmas_empty [of "ms_vmaList ms" start "[]"] assms(7) sp(3) by simp
  obtain pt' where pt': "unmap_pages (2 ^ 12) start 0 pt = Done pt'" "\<forall>x. pt_translate pt' x = None"
    using unmap_all [OF sp(1) assms(5)] by blast
  obtain ths' where "flush_threads (se_threads s) = Ok ths'" using flush_threads_ok [OF assms(4)] by blast
  then have f: "(\<lambda>sp. bind_run (unmapRegion start 0 sp) (\<lambda>sp. Done (sp, 0))) (ms, pt, se_threads s) = Done ((ms, pt', ths'), 0 :: addr)"
    using un pt'(1) sp(2) by (simp add: unmapRegion_def)
  have t: "se_pts s (p_pTable pr) = Some pt" "se_mss s (p_memState pr) = Some ms" using assms(1,2) by (simp_all add: running_def served_def)
  have pb: "PageBytes = 4096" "isPowerOf2 PageBytes" by (simp_all add: PageBytes_def PageShift_def isPowerOf2_def)
  define r where "r = len + 4095"
  have "unat r = (unat len + 4095) mod 18446744073709551616" by (simp add: r_def unat_word_ariths)
  also have "\<dots> = (unat len + 4095 - 18446744073709551616) mod 18446744073709551616" using assms(6) by (intro le_mod_geq) simp
  also have "\<dots> = unat len + 4095 - 18446744073709551616" using unat_64 [of len] by (intro mod_less) simp
  finally have "unat r < 4096" using unat_64 [of len] by simp
  then have "unat (take_bit 12 r) = unat r" by (simp only: unat_take_bit) simp
  then have "take_bit 12 r = r" by (rule unsigned_word_eqI)
  then have "r AND NOT 4095 = 0" using and_not_mask_minus [of r 12] by (simp add: mask_eq_decr_exp)
  moreover have "PageBytes - 1 = (4095 :: addr)" unfolding pb(1) by simp
  ultimately have "roundUp len PageBytes = Ok 0"
    unfolding roundUp_def by (simp only: pb(2) assert_that_True Let_def r_def [symmetric])
  moreover have "len \<noteq> 0" using assms(6) by auto
  ultimately have "munmapFunc cid start len s = Done (s\<lparr>se_mss := (se_mss s)(p_memState pr \<mapsto> ms),
      se_pts := (se_pts s)(p_pTable pr \<mapsto> pt'), se_threads := ths'\<rparr>, 0)"
    using caller_running [OF assms(1)] assms(5)
      on_space_served [OF assms(2) t(1), of "\<lambda>sp. bind_run (unmapRegion start 0 sp) (\<lambda>sp. Done (sp, 0))", OF f]
    by (simp add: munmapFunc_def page_mask)
  then show ?thesis using pt'(2) t(2) by (intro exI conjI) (assumption, simp_all add: map_upd_triv)
qed

theorem munmap_wrap_clears_witness:
  "\<exists>s' pt'. munmapFunc 0 0x20000 0xffffffffffffffff se_demo = Done (s', 0) \<and> se_pts s' 0 = Some pt' \<and> pt_translate pt' 0x11004 = None"
proof -
  have a: "take_bit 12 (0x20000 :: addr) = 0" "2 ^ 64 - 4096 < unat (0xffffffffffffffff :: addr)" by simp_all
  have v: "\<forall>v\<in>set (ms_vmaList ms_demo). \<not> (v_start v < 0x20000 \<and> 0x20000 < v_end v)"
    by (simp add: ms_demo_areas vma_demo_def v_start_def v_end_def)
  from munmap_wrap_clears [OF se_demo_running(1) served_demo ms_demo_ok demo_space(1) a v] show ?thesis
    by (auto simp: se_demo_simps)
qed

lemma roundUp_whole:
  assumes "take_bit 12 (len :: addr) = 0"
  shows "roundUp len PageBytes = Ok len"
proof -
  have pb: "PageBytes - 1 = (4095 :: addr)" "isPowerOf2 PageBytes" by (simp_all add: PageBytes_def PageShift_def isPowerOf2_def)
  have "take_bit 12 (len + 4095) = 4095" using take_bit_page_add [OF assms, of 4095] by simp
  then have "(len + 4095) AND NOT 4095 = len" using and_not_mask_minus [of "len + 4095" 12] by (simp add: mask_eq_decr_exp)
  then show ?thesis unfolding roundUp_def by (simp only: pb assert_that_True Let_def)
qed



end
