(* ===== verification/Sys_Steps.thy ===== *)
theory Sys_Steps
  imports Syscalls
begin

text \<open>
  A system of processes as a transition system: the system calls of \<open>Syscalls\<close>, accesses through the proxies, page faults and
  clones are its steps. The locale \<open>space_op\<close> is the contract of an operation on a memory state, interpreted for the operations
  behind \<open>brk\<close>, \<open>munmap\<close> and \<open>mmap\<close>: they add no frame to a page table and move none across the border of the NVM window. The
  invariant of memory holds in every reachable state.
\<close>

unbundle bit_operations_syntax

section \<open>The steps of a system of processes\<close>

text \<open>
  A change of a page table that adds no frame: every page of the new table is one of the old table, at the same or at
  another address on the same side of the border of the NVM window, and no two pages of the new table are the same.
\<close>

definition shuffle :: "page_table \<Rightarrow> page_table \<Rightarrow> bool" where
  "shuffle pt pt' \<longleftrightarrow> (\<exists>g. inj_on g (dom (pt_translate pt')) \<and>
     (\<forall>x\<in>dom (pt_translate pt'). pt_translate pt (g x) = pt_translate pt' x \<and> nvm_page (g x) = nvm_page x))"

text \<open>The invariant of the store, with the page size that all memory states share.\<close>

definition world :: "sys_params \<Rightarrow> se \<Rightarrow> bool" where
  "world P s \<longleftrightarrow> se_ok P s \<and> (\<forall>mid ms. se_mss s mid = Some ms \<longrightarrow> ms_pageBytes ms = 4096)"

text \<open>A move of whole pages that keeps every page on its side of the border of the NVM window.\<close>

definition same_side :: "addr \<Rightarrow> addr \<Rightarrow> addr \<Rightarrow> bool" where
  "same_side a b len \<longleftrightarrow> take_bit 12 len = 0 \<and> len \<noteq> 0 \<and> (\<forall>x. x - a < len \<longrightarrow> nvm_page (x + (b - a)) = nvm_page x)"

definition tables :: "se \<Rightarrow> sys_alloc \<times> (nat \<rightharpoonup> page_table) \<times> (nat \<rightharpoonup> mem_state)" where
  "tables s = (se_sys s, se_pts s, se_mss s)"

text \<open>What the threads of the system do: system calls, accesses to memory, page faults, and clones.\<close>

datatype event =
    Brk nat addr
  | Munmap nat addr addr
  | Mmap fd_array nat addr addr "32 word" "32 word" int addr
  | Mremap nat addr addr addr addr addr
  | Load nat addr nat
  | Store nat addr "8 word list"
  | Page_Fault nat addr
  | Clone_Process nat nat nat nat bool "addr list"

fun exec :: "sys_params \<Rightarrow> host \<Rightarrow> driver_mmap \<Rightarrow> event \<Rightarrow> se \<Rightarrow> se run" where
  "exec P h drv (Brk cid new_brk) s = bind_run (brkFunc h cid new_brk s) (\<lambda>(s, _). Done s)"
| "exec P h drv (Munmap cid start len) s = bind_run (munmapFunc cid start len s) (\<lambda>(s, _). Done s)"
| "exec P h drv (Mmap fa cid start len prot flags fd off) s = bind_run (mmapFunc h drv fa cid start len prot flags fd off s) (\<lambda>(s, _). Done s)"
| "exec P h drv (Mremap cid start old_len new_len flags va) s = bind_run (mremapFunc P h cid start old_len new_len flags va s) (\<lambda>(s, _). Done s)"
| "exec P h drv (Load cid a n) s = bind_run (readBlob P (virtProxy P) cid a n s) (\<lambda>(s, _). Done s)"
| "exec P h drv (Store cid a bs) s = writeBlob P (virtProxy P) cid a bs s"
| "exec P h drv (Page_Fault p a) s = bind_run (fixupFault P p a s) (\<lambda>(s, _). Done s)"
| "exec P h drv (Clone_Process p np otc ntc clone_vm order) s = clone_memory P p np otc ntc clone_vm order s"

text \<open>An address below the stack and within its limit, with frames left for the pages up to the stack.\<close>

definition below_stack :: "sys_params \<Rightarrow> mem_state \<Rightarrow> page_table \<Rightarrow> addr \<Rightarrow> sys_alloc \<Rightarrow> bool" where
  "below_stack P ms pt a sys \<longleftrightarrow> a \<notin> covered (ms_vmaList ms) \<and> a < ms_stackMin ms \<and> ms_stackBase ms - ms_maxStackSize ms \<le> a \<and>
     ms_maxStackSize ms \<le> ms_stackBase ms \<and> ms_stackMin ms \<le> ms_stackBase ms \<and>
     take_bit 12 (ms_stackMin ms) = 0 \<and> take_bit 12 (ms_stackBase ms - ms_maxStackSize ms) = 0 \<and>
     (\<forall>x\<in>{a - take_bit 12 a..<ms_stackMin ms}. pt_translate pt x = None) \<and>
     (\<exists>n. unat (ms_stackMin ms - (a - take_bit 12 a)) = n * 4096 \<and> room P n sys)"

text \<open>
  The steps that are considered. Every call of \<open>brk\<close> and \<open>munmap\<close> and every read is, and every \<open>mmap\<close> that is not handed to a
  device driver. A step that may add pages finds frames left for them, and goes to addresses that the process may use.
  \<open>mremap\<close> does not grow a region and moves pages only on their side of the border of the NVM window.
\<close>

fun legal :: "sys_params \<Rightarrow> event \<Rightarrow> se \<Rightarrow> bool" where
  "legal P (Brk cid new_brk) s \<longleftrightarrow> True"
| "legal P (Munmap cid start len) s \<longleftrightarrow> True"
| "legal P (Mmap fa cid start len prot flags fd off) s \<longleftrightarrow> flags AND TGT_MAP_ANONYMOUS \<noteq> 0 \<or>
     (\<forall>c d n. getFDEntry fd fa \<noteq> Ok (Some (DeviceFDEntry c d n)))"
| "legal P (Mremap cid start old_len new_len flags va) s \<longleftrightarrow>
     (\<forall>l. roundUp new_len PageBytes = Ok l \<longrightarrow> l \<le> old_len \<and> (flags AND TGT_MREMAP_FIXED = 0 \<or> va = start \<or> same_side start va l))"
| "legal P (Load cid a n) s \<longleftrightarrow> True"
| "legal P (Store cid a bs) s \<longleftrightarrow> (\<exists>p pr pt. running s cid p pr pt \<and> room P (length bs div 4096 + 2) (se_sys s) \<and> length bs < 2 ^ 32 \<and>
     (\<forall>x\<in>set (byte_addrs a (length bs)). plain_at s cid x \<and> (pt_translate pt x \<noteq> None \<or> can_fault cid x s)))"
| "legal P (Page_Fault p a) s \<longleftrightarrow> (\<exists>pr ms pt. served s p pr ms \<and> se_pts s (p_pTable pr) = Some pt \<and>
     (pt_translate pt a = None \<and> room P 1 (se_sys s) \<and>
        (a \<in> covered (ms_vmaList ms) \<or> ms_stackMin ms \<le> a \<and> a < ms_stackBase ms) \<and>
        (\<forall>c\<in>set (p_contextIds pr). \<forall>x\<in>page_span 12 (a - take_bit 12 a) 1. plain_at s c x) \<or>
      below_stack P ms pt a (se_sys s)))"
| "legal P (Clone_Process p np otc ntc clone_vm order) s \<longleftrightarrow> clone_vm \<or>
     (\<exists>pr pt npr npt ms nms. running s otc p pr pt \<and> running s ntc np npr npt \<and> room P (length order) (se_sys s) \<and>
        p_pTable pr \<noteq> p_pTable npr \<and> p_memState pr \<noteq> p_memState npr \<and>
        se_mss s (p_memState pr) = Some ms \<and> se_mss s (p_memState npr) = Some nms \<and>
        distinct order \<and> set order = dom (pTable pt) \<and> (\<forall>v\<in>set order. take_bit 12 v = 0) \<and> (\<forall>x. pt_translate npt x = None) \<and>
        (\<forall>x. plain_at s otc x \<and> plain_at s ntc x \<or> pt_translate pt x = None))"

inductive se_step :: "sys_params \<Rightarrow> host \<Rightarrow> driver_mmap \<Rightarrow> se \<Rightarrow> se \<Rightarrow> bool" for P h drv where
  step_event: "legal P e s \<Longrightarrow> exec P h drv e s = Done s' \<Longrightarrow> se_step P h drv s s'"

inductive se_reach :: "sys_params \<Rightarrow> host \<Rightarrow> driver_mmap \<Rightarrow> se \<Rightarrow> se \<Rightarrow> bool" for P h drv where
  reach_refl: "se_reach P h drv s s"
| reach_step: "se_reach P h drv s s1 \<Longrightarrow> se_step P h drv s1 s2 \<Longrightarrow> se_reach P h drv s s2"

inductive_cases stepE: "se_step P h drv s s'"

section \<open>Changes that add no frame\<close>

lemma shuffle_refl: "shuffle pt pt"
  unfolding shuffle_def by (rule exI [of _ id]) simp

lemma shuffle_trans:
  assumes "shuffle pt pt1" "shuffle pt1 pt2"
  shows "shuffle pt pt2"
proof -
  obtain g where g: "inj_on g (dom (pt_translate pt1))"
    "\<And>x. x \<in> dom (pt_translate pt1) \<Longrightarrow> pt_translate pt (g x) = pt_translate pt1 x \<and> nvm_page (g x) = nvm_page x"
    using assms(1) unfolding shuffle_def by blast
  obtain f where f: "inj_on f (dom (pt_translate pt2))"
    "\<And>x. x \<in> dom (pt_translate pt2) \<Longrightarrow> pt_translate pt1 (f x) = pt_translate pt2 x \<and> nvm_page (f x) = nvm_page x"
    using assms(2) unfolding shuffle_def by blast
  have d: "f x \<in> dom (pt_translate pt1)" if "x \<in> dom (pt_translate pt2)" for x using f(2) [OF that] that by auto
  have "inj_on (g \<circ> f) (dom (pt_translate pt2))"
    by (rule comp_inj_on [OF f(1) inj_on_subset [OF g(1)]]) (use d in blast)
  moreover have "pt_translate pt ((g \<circ> f) x) = pt_translate pt2 x \<and> nvm_page ((g \<circ> f) x) = nvm_page x"
    if "x \<in> dom (pt_translate pt2)" for x
    using f(2) [OF that] g(2) [OF d [OF that]] by simp
  ultimately show ?thesis unfolding shuffle_def by blast
qed

lemma shuffle_less:
  assumes "\<And>x y. pt_translate pt' x = Some y \<Longrightarrow> pt_translate pt x = Some y"
  shows "shuffle pt pt'"
  unfolding shuffle_def by (rule exI [of _ id]) (auto simp: assms)

lemma se_ok_shuffle:
  assumes "se_ok P s" "se_pts s t = Some pt" "pt_ok 12 pt'" "shuffle pt pt'" "se_sys s' = se_sys s" "se_pts s' = (se_pts s)(t \<mapsto> pt')"
  shows "se_ok P s'"
proof -
  obtain g where g: "inj_on g (dom (pt_translate pt'))"
    "\<And>x. x \<in> dom (pt_translate pt') \<Longrightarrow> pt_translate pt (g x) = pt_translate pt' x \<and> nvm_page (g x) = nvm_page x"
    using assms(4) unfolding shuffle_def by blast
  define f where "f u = (if u = t then g else id)" for u :: nat
  have old: "\<exists>pt0. se_pts s u = Some pt0 \<and> pt_translate pt0 (f u x) = Some y \<and> nvm_page (f u x) = nvm_page x"
    if "se_pts s' u = Some ptu" "pt_translate ptu x = Some y" for u ptu x y
    using that assms(2,6) g(2) [of x] by (cases "u = t") (auto simp: f_def)
  have inj: "x = x'" if "se_pts s' u = Some ptu" "pt_translate ptu x = Some y" "pt_translate ptu x' = Some y" "f u x = f u x'" for u ptu x x' y
    using that assms(6) g(1) by (cases "u = t") (auto simp: f_def inj_on_def)
  show ?thesis
  proof (rule se_okI [OF se_ok_params [OF assms(1)]])
    show "unat (pagePtr (se_sys s')) < 2 ^ 51" using assms(1,5) by (simp add: se_ok_def)
  next
    fix u ptu assume "se_pts s' u = Some ptu"
    then show "pt_ok 12 ptu" using assms(3,6) se_okD(1) [OF assms(1)] by (auto split: if_splits)
  next
    fix u ptu x y assume "se_pts s' u = Some ptu" "pt_translate ptu x = Some y"
    from old [OF this] show "y \<in> owned (se_sys s') \<and> (in_nvm y \<longleftrightarrow> nvm_page x)" using se_okD(2,3) [OF assms(1)] assms(5) by metis
  next
    fix u ptu u' ptu' x x' y
    assume 1: "se_pts s' u = Some ptu" "pt_translate ptu x = Some y" and 2: "se_pts s' u' = Some ptu'" "pt_translate ptu' x' = Some y"
    obtain p1 p2 where "se_pts s u = Some p1" "pt_translate p1 (f u x) = Some y" "se_pts s u' = Some p2" "pt_translate p2 (f u' x') = Some y"
      using old [OF 1] old [OF 2] by blast
    then have "u = u'" "f u x = f u' x'" using se_okD(4,5) [OF assms(1)] by blast+
    then show "u = u' \<and> x = x'" using inj [OF 1] 2 1(1) by auto
  qed
qed

text \<open>The contract of an operation on the memory state of a process.\<close>

locale space_op =
  fixes f :: "space \<Rightarrow> (space \<times> 'a) run"
  assumes keeps: "f (ms, pt, ths) = Done ((ms', pt', ths'), r) \<Longrightarrow> ms_pageBytes ms = 4096 \<Longrightarrow> pt_ok 12 pt \<Longrightarrow>
    ms_pageBytes ms' = 4096 \<and> pt_ok 12 pt' \<and> shuffle pt pt'"
begin

lemma on_space_world:
  assumes "world P s" "on_space mid f s = Done (s', r)"
  shows "world P s'"
proof -
  obtain ms where ms: "se_mss s mid = Some ms" using assms(2) by (cases "se_mss s mid") (simp_all add: on_space_def deref_def)
  obtain ow where ow: "se_procs s (ms_ownerProcess ms) = Some ow"
    using assms(2) ms by (cases "se_procs s (ms_ownerProcess ms)") (simp_all add: on_space_def deref_def)
  obtain pt where pt: "se_pts s (p_pTable ow) = Some pt"
    using assms(2) ms ow by (cases "se_pts s (p_pTable ow)") (simp_all add: on_space_def deref_def)
  have run: "bind_run (f (ms, pt, se_threads s)) (\<lambda>((ms, pt, ths), r).
      Done (s\<lparr>se_mss := (se_mss s)(mid \<mapsto> ms), se_pts := (se_pts s)(p_pTable ow \<mapsto> pt), se_threads := ths\<rparr>, r)) = Done (s', r)"
    using assms(2) ms ow pt by (simp add: on_space_def deref_def)
  obtain ms' pt' ths' where f: "f (ms, pt, se_threads s) = Done ((ms', pt', ths'), r)"
    and s': "s' = s\<lparr>se_mss := (se_mss s)(mid \<mapsto> ms'), se_pts := (se_pts s)(p_pTable ow \<mapsto> pt'), se_threads := ths'\<rparr>"
    using run by (auto simp: bind_run_eq_Done)
  have ok: "se_ok P s" "ms_pageBytes ms = 4096" using assms(1) ms by (simp_all add: world_def)
  note k = keeps [OF f ok(2) se_okD(1) [OF ok(1) pt]]
  have "se_ok P s'" using k by (intro se_ok_shuffle [OF ok(1) pt]) (simp_all add: s')
  then show ?thesis using assms(1) k by (auto simp: world_def s')
qed

end

section \<open>The loops over pages\<close>

lemma unmap_page_shuffle:
  assumes "unmap_page 4096 a pt = Ok pt'" "pt_ok 12 pt"
  shows "pt_ok 12 pt' \<and> shuffle pt pt'"
proof -
  have al: "take_bit 12 a = 0"
    using assms by (auto simp: unmap_page_def pt_isUnmapped_def res_simps pageOffset_take_bit)
  obtain pt1 where "unmap_page (2 ^ 12) a pt = Ok pt1" "pt_ok 12 pt1"
    "\<forall>x. pt_translate pt1 x = (if x \<in> page_span 12 a 1 then None else pt_translate pt x)"
    using unmap_page_eq [OF assms(2) al] by blast
  then show ?thesis using assms(1) by (auto intro!: shuffle_less) (metis option.distinct(1))
qed

lemma unmap_pages_shuffle:
  assumes "unmap_pages 4096 a len pt = Done pt'" "pt_ok 12 pt"
  shows "pt_ok 12 pt' \<and> shuffle pt pt'"
proof -
  define Q where "Q pb pt r \<longleftrightarrow> (\<forall>pt'. pb = 4096 \<longrightarrow> r = Ok pt' \<longrightarrow> pt_ok 12 pt \<longrightarrow> pt_ok 12 pt' \<and> shuffle pt pt')"
    for pb :: addr and pt and r :: "page_table res"
  have "Q 4096 pt (Ok pt')"
  proof (rule unmap_pages.raw_induct [where P = "\<lambda>pb a len pt r. Q pb pt r", OF _ assms(1)])
    fix f pb a len pt r
    assume IH: "\<And>pb a len pt r. f pb a len pt = Some r \<Longrightarrow> Q pb pt r"
      and st: "bind_run (Some (unmap_page pb a pt)) (\<lambda>pt. let start_addr = a + pb; len = len - pb
          in if 0 < len then f pb start_addr len pt else Done pt) = Some r"
    show "Q pb pt r"
      unfolding Q_def
    proof (intro allI impI)
      fix pt' assume pb: "pb = 4096" and r: "r = Ok pt'" and ok: "pt_ok 12 pt"
      obtain pt1 where pt1: "unmap_page 4096 a pt = Ok pt1" using st pb r by (cases "unmap_page 4096 a pt") simp_all
      note first = unmap_page_shuffle [OF pt1 ok]
      show "pt_ok 12 pt' \<and> shuffle pt pt'"
      proof (cases "0 < len - 4096")
        case True
        then have "f pb (a + 4096) (len - 4096) pt1 = Some r" using st pb pt1 by (simp add: Let_def)
        from IH [OF this] show ?thesis using pb r first shuffle_trans [of pt pt1 pt'] by (auto simp: Q_def)
      next
        case False
        then show ?thesis using st pb pt1 r first by (simp add: Let_def)
      qed
    qed
  qed
  then show ?thesis using assms(2) by (simp add: Q_def)
qed

lemma remap_page_shuffle:
  assumes "remap_page 4096 a b pt = Ok pt'" "pt_ok 12 pt" "nvm_page b = nvm_page a"
  shows "pt_ok 12 pt' \<and> shuffle pt pt'"
proof -
  obtain un where un: "pt_isUnmapped pt a 4096 = Ok un" using assms(1) by (auto simp: remap_page_def res_simps)
  have al: "take_bit 12 a = 0" using un assms(2) by (auto simp: pt_isUnmapped_def res_simps pageOffset_take_bit)
  show ?thesis
  proof (cases un)
    case True
    then show ?thesis using assms(1,2) un by (auto simp: remap_page_def intro: shuffle_refl)
  next
    case False
    then have re: "pt_remap pt a 4096 b = Ok pt'" using assms(1) un by (simp add: remap_page_def)
    have bl: "take_bit 12 b = 0" using re assms(2) by (auto simp: pt_remap_def res_simps pageOffset_take_bit)
    have "page_loop (2 ^ 12) 4096 (remap_step (pageSize pt)) (a, b, pTable pt) = iter_res 1 (remap_step (pageSize pt)) (a, b, pTable pt)"
      using page_loop_iter [of 12 4096] npages_page [of 12] by simp
    then have "pTable pt b = None"
      using re assms(2) by (auto simp: pt_remap_def res_simps pt_ok_def remap_step_def split: option.splits)
    then have none: "pt_translate pt b = None"
      using pageAlign_minus [OF assms(2), of b] bl by (simp add: pt_translate_alt)
    obtain pt1 where pt1: "remap_page (2 ^ 12) a b pt = Ok pt1" "pt_ok 12 pt1" and
      tr: "\<forall>x. pt_translate pt1 x = (if x \<in> page_span 12 b 1 then pt_translate pt (a + (x - b))
         else if x \<in> page_span 12 a 1 then None else pt_translate pt x)"
      using remap_page_eq [OF assms(2) al bl none] by blast
    define g where "g x = (if x \<in> page_span 12 b 1 then a + (x - b) else x)" for x
    have eq: "pt1 = pt'" using pt1(1) assms(1) by simp
    have mv: "a + (x - b) \<in> page_span 12 a 1" if "x \<in> page_span 12 b 1" for x using that by (simp add: page_span_def)
    have sides: "in_nvm a = in_nvm b" using assms(3) al bl by (simp add: nvm_page_def)
    have "inj_on g (dom (pt_translate pt'))"
    proof (rule inj_onI)
      fix x y assume d: "x \<in> dom (pt_translate pt')" "y \<in> dom (pt_translate pt')" "g x = g y"
      have out: "z \<notin> page_span 12 a 1" if "z \<in> dom (pt_translate pt')" "z \<notin> page_span 12 b 1" for z
        using that tr eq by auto
      show "x = y"
        using d(3) mv [of x] mv [of y] out [OF d(1)] out [OF d(2)]
        by (cases "x \<in> page_span 12 b 1"; cases "y \<in> page_span 12 b 1") (auto simp: g_def)
    qed
    moreover have "pt_translate pt (g x) = pt_translate pt' x \<and> nvm_page (g x) = nvm_page x" if "x \<in> dom (pt_translate pt')" for x
    proof (cases "x \<in> page_span 12 b 1")
      case True
      then show ?thesis using tr eq nvm_page_in_page [OF bl True] nvm_page_in_page [OF al mv [OF True]] sides by (simp add: g_def)
    next
      case False
      then have "x \<notin> page_span 12 a 1" using that tr eq by auto
      then show ?thesis using False tr eq by (simp add: g_def)
    qed
    ultimately show ?thesis using pt1(2) eq unfolding shuffle_def by blast
  qed
qed

lemma same_side_step:
  assumes "same_side a b len" "0 < len - 4096"
  shows "same_side (a + 4096) (b + 4096) (len - 4096)"
proof -
  have l: "take_bit 12 len = 0" "len \<noteq> 0" using assms(1) by (simp_all add: same_side_def)
  have "4096 \<le> len"
  proof (rule ccontr)
    assume "\<not> 4096 \<le> len"
    then have "unat len < 4096" by (simp add: word_le_nat_alt)
    moreover have "unat len mod 4096 = 0" using unat_take_bit [of 12 len] l(1) by simp
    ultimately show False using l(2) by (simp add: unat_eq_0)
  qed
  then have u: "unat (len - 4096) = unat len - 4096" "4096 \<le> unat len" by (simp_all add: unat_sub_if' word_le_nat_alt)
  have "x - a < len" if "x - (a + 4096) < len - 4096" for x
  proof -
    define y where "y = x - (a + 4096)"
    have e: "x - a = y + 4096" by (simp add: y_def)
    have "unat y + 4096 < unat len" using that u by (simp add: word_less_nat_alt y_def)
    then have "unat (y + 4096) < unat len" using unat_64 [of len] by (simp add: unat_word_ariths)
    then show ?thesis unfolding e by (simp only: word_less_nat_alt)
  qed
  moreover have "take_bit 12 (len - 4096) = 0"
  proof -
    have "unat len mod 4096 = 0" using unat_take_bit [of 12 len] l(1) by simp
    then have "(unat len - 4096) mod 4096 = 0" by (metis dvd_diff_nat dvd_refl mod_0_imp_dvd mod_eq_0_iff_dvd)
    then have "unat (take_bit 12 (len - 4096)) = 0" using unat_take_bit [of 12 "len - 4096"] u(1) by simp
    then show ?thesis by (simp add: unat_eq_0)
  qed
  ultimately show ?thesis using assms by (simp add: same_side_def word_gt_0)
qed

lemma remap_pages_shuffle:
  assumes "remap_pages 4096 a b len pt = Done pt'" "pt_ok 12 pt" "same_side a b len"
  shows "pt_ok 12 pt' \<and> shuffle pt pt'"
proof -
  define Q where "Q pb a b len pt r \<longleftrightarrow> (\<forall>pt'. pb = 4096 \<longrightarrow> r = Ok pt' \<longrightarrow> pt_ok 12 pt \<longrightarrow> same_side a b len \<longrightarrow>
      pt_ok 12 pt' \<and> shuffle pt pt')" for pb a b len :: addr and pt and r :: "page_table res"
  have "Q 4096 a b len pt (Ok pt')"
  proof (rule remap_pages.raw_induct [where P = Q, OF _ assms(1)])
    fix f pb a b len pt r
    assume IH: "\<And>pb a b len pt r. f pb a b len pt = Some r \<Longrightarrow> Q pb a b len pt r"
      and st: "bind_run (Some (remap_page pb a b pt)) (\<lambda>pt. let start_addr = a + pb; new_start_addr = b + pb; len = len - pb
          in if 0 < len then f pb start_addr new_start_addr len pt else Done pt) = Some r"
    show "Q pb a b len pt r"
      unfolding Q_def
    proof (intro allI impI)
      fix pt' assume pb: "pb = 4096" and r: "r = Ok pt'" and ok: "pt_ok 12 pt" and sd: "same_side a b len"
      have "a - a < len" using sd by (simp add: same_side_def word_gt_0)
      then have n: "nvm_page b = nvm_page a" using sd unfolding same_side_def by (metis add_diff_cancel_left' diff_add_cancel add.commute)
      obtain pt1 where pt1: "remap_page 4096 a b pt = Ok pt1" using st pb r by (cases "remap_page 4096 a b pt") simp_all
      note first = remap_page_shuffle [OF pt1 ok n]
      show "pt_ok 12 pt' \<and> shuffle pt pt'"
      proof (cases "0 < len - 4096")
        case True
        then have "f pb (a + 4096) (b + 4096) (len - 4096) pt1 = Some r" using st pb pt1 by (simp add: Let_def)
        from IH [OF this] show ?thesis
          using pb r first same_side_step [OF sd True] shuffle_trans [of pt pt1 pt'] by (auto simp: Q_def)
      next
        case False
        then show ?thesis using st pb pt1 r first by (simp add: Let_def)
      qed
    qed
  qed
  then show ?thesis using assms(2,3) by (simp add: Q_def)
qed

section \<open>The operations on a memory state\<close>

lemma unmapRegion_shuffle:
  assumes "unmapRegion a len (ms, pt, ths) = Done (ms', pt', ths')" "ms_pageBytes ms = 4096" "pt_ok 12 pt"
  shows "ms_pageBytes ms' = 4096 \<and> pt_ok 12 pt' \<and> shuffle pt pt'"
  using assms unmap_pages_shuffle by (auto simp: unmapRegion_def bind_run_eq_Done Let_def)

lemma remapRegion_shuffle:
  assumes "remapRegion a b len (ms, pt, ths) = Done (ms', pt', ths')" "ms_pageBytes ms = 4096" "pt_ok 12 pt" "same_side a b len"
  shows "ms_pageBytes ms' = 4096 \<and> pt_ok 12 pt' \<and> shuffle pt pt'"
  using assms remap_pages_shuffle by (auto simp: remapRegion_def bind_run_eq_Done Let_def)

lemma mapRegion_pageBytes: "mapRegion h pt a len n fd off ms = Done ms' \<Longrightarrow> ms_pageBytes ms' = ms_pageBytes ms"
  by (auto simp: mapRegion_def bind_run_eq_Done res_simps)

lemma updateBrkRegion_pageBytes: "updateBrkRegion h pt old new ms = Done ms' \<Longrightarrow> ms_pageBytes ms' = ms_pageBytes ms"
  by (auto simp: updateBrkRegion_def bind_run_eq_Done Let_def dest: mapRegion_pageBytes split: if_splits)

interpretation unmap_op: space_op "\<lambda>sp. bind_run (unmapRegion start len sp) (\<lambda>sp. Done (sp, v))" for start len v
  by unfold_locales (auto simp: bind_run_eq_Done dest: unmapRegion_shuffle)

interpretation brk_op: space_op "\<lambda>(ms, pt, ths). let brk_point = ms_brkPoint ms
    in if new_brk = 0 \<or> new_brk = brk_point then Done ((ms, pt, ths), brk_point)
       else bind_run (updateBrkRegion h pt brk_point new_brk ms) (\<lambda>ms. Done ((ms, pt, ths), ms_brkPoint ms))" for h new_brk
  by unfold_locales (auto simp: bind_run_eq_Done Let_def intro: shuffle_refl dest: updateBrkRegion_pageBytes split: if_splits)

interpretation mmap_op: space_op "mmap_region h flags start len name fd off" for h flags start len name fd off
proof
  fix ms pt ths ms' pt' ths' r
  assume f: "mmap_region h flags start len name fd off (ms, pt, ths) = Done ((ms', pt', ths'), r)"
    and pb: "ms_pageBytes ms = 4096" and ok: "pt_ok 12 pt"
  show "ms_pageBytes ms' = 4096 \<and> pt_ok 12 pt' \<and> shuffle pt pt'"
  proof (cases "flags AND TGT_MAP_FIXED = 0")
    case True
    then show ?thesis using f pb ok
      by (auto simp: mmap_region_def bind_run_eq_Done extendMmap_def intro: shuffle_refl dest!: mapRegion_pageBytes split: if_splits)
  next
    case False
    then obtain ms1 ths1 where "unmapRegion start len (ms, pt, ths) = Done (ms1, pt', ths1)" "ms_pageBytes ms' = ms_pageBytes ms1"
      using f by (auto simp: mmap_region_def bind_run_eq_Done dest!: mapRegion_pageBytes)
    then show ?thesis using unmapRegion_shuffle pb ok by metis
  qed
qed

lemma remap_op: "same_side start new len \<Longrightarrow> space_op (\<lambda>sp. bind_run (remapRegion start new len sp) (\<lambda>sp. Done (sp, v)))"
  by unfold_locales (auto simp: bind_run_eq_Done dest: remapRegion_shuffle)

section \<open>Reads\<close>

lemma world_tables: "tables s' = tables s \<Longrightarrow> world P s' = world P s"
  by (simp add: tables_def world_def se_ok_def)

lemma tryTLBsOnce_tables: "tryTLBsOnce cid req mode s = Ok (s', req', ok) \<Longrightarrow> tables s' = tables s"
  by (auto simp: tryTLBsOnce_def res_simps tables_def split: prod.splits if_splits)

lemma tryTLBs_read_tables:
  assumes "tryTLBs (virtProxy P) cid req Read s = Done (s', req', ok)"
  shows "tables s' = tables s"
proof -
  obtain s1 req1 ok1 where once: "tryTLBsOnce cid req Read s = Ok (s1, req1, ok1)"
    using assms by (cases "tryTLBsOnce cid req Read s") (auto simp: tryTLBs_def)
  have "s' = s1" using assms once by (auto simp: tryTLBs_def bind_run_eq_Done virtProxy_def fixupAddr_def split: if_splits)
  then show ?thesis using tryTLBsOnce_tables [OF once] by simp
qed

lemma read_piece_tables:
  assumes "read_piece P (virtProxy P) cid a n (s, q) = Done ((s', q'), ok)"
  shows "tables s' = tables s"
  using assms tryTLBs_read_tables by (auto simp: read_piece_def bind_run_eq_Done split: if_splits)

lemma try_pieces_tables:
  assumes "try_pieces (read_piece P (virtProxy P) cid) cs (s, q) = Done ((s', q'), ok)"
  shows "tables s' = tables s"
  using assms
proof (induction cs arbitrary: s q)
  case (Cons c cs)
  obtain a n where c: "c = (a, n)" by (cases c)
  obtain s1 q1 ok1 where 1: "read_piece P (virtProxy P) cid a n (s, q) = Done ((s1, q1), ok1)"
    and 2: "(if ok1 then try_pieces (read_piece P (virtProxy P) cid) cs (s1, q1) else Done ((s1, q1), False)) = Done ((s', q'), ok)"
    using Cons.prems by (auto simp: c bind_run_eq_Done)
  show ?case using read_piece_tables [OF 1] 2 Cons.IH by (cases ok1) auto
qed simp

lemma readBlob_tables:
  assumes "readBlob P (virtProxy P) cid a n s = Done (s', bs)"
  shows "tables s' = tables s"
  using assms try_pieces_tables
  by (auto simp: readBlob_def tryReadBlob_def try_chunks_def bind_run_eq_Done split: if_splits)

lemma brkFunc_world: "world P s \<Longrightarrow> brkFunc h cid b s = Done (s', r) \<Longrightarrow> world P s'"
  by (auto simp: brkFunc_def bind_run_eq_Done dest: brk_op.on_space_world)

lemma munmapFunc_world: "world P s \<Longrightarrow> munmapFunc cid a l s = Done (s', r) \<Longrightarrow> world P s'"
  by (auto simp: munmapFunc_def bind_run_eq_Done dest: unmap_op.on_space_world split: if_splits)

lemma mmapFunc_world:
  assumes "world P s" "mmapFunc h drv fa cid a l prot flags fd off s = Done (s', r)"
    and "flags AND TGT_MAP_ANONYMOUS \<noteq> 0 \<or> (\<forall>c d n. getFDEntry fd fa \<noteq> Ok (Some (DeviceFDEntry c d n)))"
  shows "world P s'"
proof -
  obtain p pr where c: "caller cid s = Ok (p, pr)" using assms(2) by (cases "caller cid s") (auto simp: mmapFunc_def)
  define bad where "bad \<longleftrightarrow> a AND (PageBytes - 1) \<noteq> 0 \<or> off AND (PageBytes - 1) \<noteq> 0 \<or>
    flags AND TGT_MAP_PRIVATE \<noteq> 0 \<and> flags AND TGT_MAP_SHARED \<noteq> 0 \<or>
    flags AND TGT_MAP_PRIVATE = 0 \<and> flags AND TGT_MAP_SHARED = 0 \<or> l = 0"
  define anon where "anon \<longleftrightarrow> flags AND TGT_MAP_ANONYMOUS \<noteq> 0"
  note def = mmapFunc_def [of h drv fa cid a l prot flags fd off s, unfolded c, folded bad_def anon_def]
  have os: "on_space m (mmap_region h flags a len name sim_fd off) s = Done (s', r) \<Longrightarrow> world P s'" for m len name sim_fd
    by (rule mmap_op.on_space_world [OF assms(1)])
  show ?thesis
  proof (cases bad)
    case True
    then have "s' = s" using assms(2) unfolding def by simp
    then show ?thesis using assms(1) by simp
  next
    case ok: False
    then obtain len where len: "roundUp l PageBytes = Ok len" using assms(2) unfolding def by (cases "roundUp l PageBytes") simp_all
    show ?thesis
    proof (cases anon)
      case True
      then show ?thesis using assms(2) ok len os unfolding def by simp
    next
      case False
      then obtain fde where f: "getFDEntry fd fa = Ok fde"
        using assms(2) ok len unfolding def by (cases "getFDEntry fd fa") simp_all
      have dev: "fde \<noteq> Some (DeviceFDEntry x y z)" for x y z using assms(3) False f by (auto simp: anon_def)
      have "on_space (p_memState pr) (mmap_region h flags a len name sim_fd off) s = Done (s', r) \<or> s' = s"
        if "fde = Some (HBFDEntry e)" "hb_kind e = File name off'" "sim_fd = hb_simFD e" for e name off' sim_fd
        using assms(2) ok len False f that unfolding def by simp
      moreover have "s' = s" if "\<nexists>e name off'. fde = Some (HBFDEntry e) \<and> hb_kind e = File name off'"
        using assms(2) ok len False f dev that unfolding def
        by (cases fde; cases "the fde"; cases "hb_kind (case the fde of HBFDEntry e \<Rightarrow> e)") auto
      ultimately show ?thesis using os assms(1) by metis
    qed
  qed
qed

lemma mremapFunc_world:
  assumes "world P s" "mremapFunc P h cid start old_len new_len flags va s = Done (s', r)" "legal P (Mremap cid start old_len new_len flags va) s"
  shows "world P s'"
proof -
  define fixed where "fixed = (flags AND TGT_MREMAP_FIXED \<noteq> 0)"
  define pa where "pa = (if fixed then va else 0)"
  obtain p pr where c: "caller cid s = Ok (p, pr)" using assms(2) by (cases "caller cid s") (auto simp: mremapFunc_def)
  define m where "m = p_memState pr"
  note def = mremapFunc_def [of P h cid start old_len new_len flags va s, unfolded Let_def, folded fixed_def, folded pa_def, unfolded c]
  show ?thesis
  proof (cases "start mod PageBytes \<noteq> 0 \<or> pa mod PageBytes \<noteq> 0")
    case True
    then have "s' = s" using assms(2) unfolding def by simp
    then show ?thesis using assms(1) by simp
  next
    case False
    obtain l where l: "roundUp new_len PageBytes = Ok l"
      using assms(2) False unfolding def by (cases "roundUp new_len PageBytes") simp_all
    have g: "l \<le> old_len" "\<not> fixed \<or> va = start \<or> same_side start va l" using assms(3) l unfolding fixed_def by simp_all
    have sh: "mremap_shrink m start old_len l fixed pa s = Done (s', r)"
      using assms(2) False l g(1) unfolding def m_def by (simp add: not_less [symmetric])
    obtain s1 where 1: "(if fixed \<and> pa \<noteq> start then on_space m (\<lambda>sp. bind_run (remapRegion start pa l sp) (\<lambda>sp. Done (sp, ()))) s
        else Done (s, ())) = Done (s1, ())"
      and 2: "(if l \<noteq> old_len then on_space m (\<lambda>sp. bind_run (unmapRegion (start + l) (old_len - l) sp) (\<lambda>sp. Done (sp, ()))) s1
        else Done (s1, ())) = Done (s', ())"
      using sh unfolding mremap_shrink_def bind_run_eq_Done by (elim exE conjE) (auto simp only: split: prod.splits, auto simp: bind_run_eq_Done)
    have "world P s1"
    proof (cases "fixed \<and> pa \<noteq> start")
      case True
      then have "same_side start pa l" using g(2) by (auto simp: pa_def)
      from space_op.on_space_world [OF remap_op [OF this] assms(1)] 1 True show ?thesis by simp
    next
      case False
      then show ?thesis using 1 assms(1) by auto
    qed
    then show ?thesis using 2 unmap_op.on_space_world [of P s1] by (cases "l = old_len") simp_all
  qed
qed

lemma store_world:
  assumes "world P s" "legal P (Store cid a bs) s" "writeBlob P (virtProxy P) cid a bs s = Done s'"
  shows "world P s'"
proof -
  obtain p pr pt where g: "running s cid p pr pt" "room P (length bs div 4096 + 2) (se_sys s)" "length bs < 2 ^ 32"
    "\<forall>x\<in>set (byte_addrs a (length bs)). plain_at s cid x \<and> (pt_translate pt x \<noteq> None \<or> can_fault cid x s)"
    using assms(2) by (simp only: legal.simps) (elim exE conjE, rule that)
  have "se_ok P s" "room P (length bs div 4096 + 2 + 0) (se_sys s)" using assms(1) g(2) by (simp_all add: world_def)
  then obtain s1 where s1: "tryWriteBlob P (virtProxy P) cid a bs s = Done (s1, True)" "se_ok P s1"
    "extends (p_pTable pr) (set (byte_addrs a (length bs))) s s1"
    using next_page.write_blob [OF _ _ g(1,3,4), of P 0] unfolding virtProxy_def by blast
  have "s' = s1" using assms(3) s1(1) by (simp add: writeBlob_def)
  then show ?thesis using s1(2,3) assms(1) by (auto simp: world_def extends_def)
qed

lemma fault_world:
  assumes "world P s" "legal P (Page_Fault p a) s" "fixupFault P p a s = Done (s', b)"
  shows "world P s'"
proof -
  obtain pr ms pt where g: "served s p pr ms" "se_pts s (p_pTable pr) = Some pt" and
    at: "pt_translate pt a = None \<and> room P 1 (se_sys s) \<and> (a \<in> covered (ms_vmaList ms) \<or> ms_stackMin ms \<le> a \<and> a < ms_stackBase ms) \<and>
        (\<forall>c\<in>set (p_contextIds pr). \<forall>x\<in>page_span 12 (a - take_bit 12 a) 1. plain_at s c x) \<or> below_stack P ms pt a (se_sys s)"
    using assms(2) unfolding legal.simps by (elim exE conjE) (rule that)
  have ok: "se_ok P s" using assms(1) by (simp add: world_def)
  let ?s = "s\<lparr>se_mss := (se_mss s)(p_memState pr \<mapsto> ms\<lparr>ms_stackMin := a - take_bit 12 a\<rparr>)\<rparr>"
  have "\<exists>s1. fixupFault P p a s = Done (s1, True) \<and> se_ok P s1 \<and> (extends (p_pTable pr) {} s s1 \<or> extends (p_pTable pr) {} ?s s1)"
  proof (cases "below_stack P ms pt a (se_sys s)")
    case True
    then obtain n where n: "unat (ms_stackMin ms - (a - take_bit 12 a)) = n * 4096" "room P (n + 0) (se_sys s)"
      and st: "a \<notin> covered (ms_vmaList ms)" "a < ms_stackMin ms" "ms_stackBase ms - ms_maxStackSize ms \<le> a"
        "ms_maxStackSize ms \<le> ms_stackBase ms" "ms_stackMin ms \<le> ms_stackBase ms" "take_bit 12 (ms_stackMin ms) = 0"
        "take_bit 12 (ms_stackBase ms - ms_maxStackSize ms) = 0" "\<forall>x\<in>{a - take_bit 12 a..<ms_stackMin ms}. pt_translate pt x = None"
      unfolding below_stack_def by auto
    show ?thesis using fixupFault_grow [OF ok n(2) g st(1-7) n(1) st(8)] by blast
  next
    case False
    then have un: "pt_translate pt a = None" and r: "room P (Suc 0) (se_sys s)" and
      pl: "\<forall>c\<in>set (p_contextIds pr). \<forall>x\<in>page_span 12 (a - take_bit 12 a) 1. plain_at s c x" and
      in_: "a \<in> covered (ms_vmaList ms) \<or> ms_stackMin ms \<le> a \<and> a < ms_stackBase ms"
      using at by simp_all
    show ?thesis
    proof (cases "a \<in> covered (ms_vmaList ms)")
      case True
      then show ?thesis using fixupFault_area [OF ok r g True un pl] by blast
    next
      case False
      then show ?thesis using fixupFault_stack [OF ok r g False _ _ un] in_ by blast
    qed
  qed
  then obtain s1 where s1: "s' = s1" "se_ok P s1" "se_mss s1 = se_mss s \<or> se_mss s1 = se_mss ?s" using assms(3) by (auto simp: extends_def)
  have "ms_pageBytes ms = 4096" using g(1) by (simp add: served_def)
  then show ?thesis using s1 assms(1) by (auto simp: world_def split: if_splits)
qed

lemma clone_world:
  assumes "world P s" "legal P (Clone_Process p np otc ntc clone_vm order) s" "clone_memory P p np otc ntc clone_vm order s = Done s'"
  shows "world P s'"
proof (cases clone_vm)
  case True
  obtain pr npr where "se_procs s p = Some pr" "se_procs s np = Some npr" and
    s': "s' = s\<lparr>se_pts := (se_pts s)(p_pTable npr := None),
      se_procs := (se_procs s)(np \<mapsto> npr\<lparr>p_pTable := p_pTable pr, p_memState := p_memState pr\<rparr>)\<rparr>"
    using assms(3) True by (auto simp: clone_memory_def bind_run_eq_Done deref_def split: option.splits)
  have "se_ok P s'" using assms(1) unfolding world_def se_ok_def s' by (auto split: if_splits)
  then show ?thesis using assms(1) by (simp add: world_def s')
next
  case False
  then obtain pr pt npr npt ms nms where g: "running s otc p pr pt" "running s ntc np npr npt"
      "p_pTable pr \<noteq> p_pTable npr" "p_memState pr \<noteq> p_memState npr"
      "se_mss s (p_memState pr) = Some ms" "se_mss s (p_memState npr) = Some nms" and
    o: "distinct order" "set order = dom (pTable pt)" "\<forall>v\<in>set order. take_bit 12 v = 0" "\<forall>x. pt_translate npt x = None"
      "\<forall>x. plain_at s otc x \<and> plain_at s ntc x \<or> pt_translate pt x = None" and
    r: "room P (length order) (se_sys s)"
    using assms(2) unfolding legal.simps by blast
  have ok: "se_ok P s" "room P (length order + 0) (se_sys s)" using assms(1) r by (simp_all add: world_def)
  let ?s = "s\<lparr>se_mss := (se_mss s)(p_memState npr \<mapsto> ms\<lparr>ms_ownerProcess := ms_ownerProcess nms\<rparr>)\<rparr>"
  obtain s1 where "clone_memory P p np otc ntc False order s = Done s1" "se_ok P s1" "extends (p_pTable npr) {} ?s s1"
    using clone_memory_ok [OF ok g o] by (elim exE conjE) (rule that)
  then have "se_ok P s'" "se_mss s' = se_mss ?s" using assms(3) False by (simp_all add: extends_def)
  then show ?thesis using assms(1) g(5) by (auto simp: world_def)
qed

lemma step_world:
  assumes "se_step P h drv s s'" "world P s"
  shows "world P s'"
proof -
  obtain e where 1: "legal P e s" "exec P h drv e s = Done s'" using assms(1) by (rule stepE)
  show ?thesis
  proof (cases e)
    case (Brk cid b)
    then show ?thesis using 1 assms(2) brkFunc_world by (auto simp: bind_run_eq_Done)
  next
    case (Munmap cid a l)
    then show ?thesis using 1 assms(2) munmapFunc_world by (auto simp: bind_run_eq_Done)
  next
    case (Mmap fa cid a l prot flags fd off)
    then show ?thesis using 1 assms(2) mmapFunc_world by (auto simp: bind_run_eq_Done)
  next
    case (Mremap cid a l l' flags va)
    then show ?thesis using 1 assms(2) mremapFunc_world by (auto simp: bind_run_eq_Done simp del: legal.simps)
  next
    case (Load cid a n)
    then obtain bs where "readBlob P (virtProxy P) cid a n s = Done (s', bs)" using 1(2) by (auto simp: bind_run_eq_Done)
    then show ?thesis using world_tables [OF readBlob_tables] assms(2) by blast
  next
    case (Store cid a bs)
    then show ?thesis using 1 assms(2) store_world by (simp del: legal.simps)
  next
    case (Page_Fault p a)
    then show ?thesis using 1 assms(2) fault_world by (auto simp: bind_run_eq_Done simp del: legal.simps)
  next
    case (Clone_Process p np otc ntc vm order)
    then show ?thesis using 1 assms(2) clone_world by (simp del: legal.simps)
  qed
qed

section \<open>Reachable states\<close>

lemma reach_world: "se_reach P h drv s s' \<Longrightarrow> world P s \<Longrightarrow> world P s'"
  by (induction rule: se_reach.induct) (auto intro: step_world)


lemma munmap_demo: "\<exists>s' r. munmapFunc 0 0x11000 0x1000 se_demo = Done (s', r)"
proof -
  obtain vs pt' ths' where u: "unmapRegion 0x11000 0x1000 (ms_demo, pt_demo, se_threads se_demo) = Done (ms_demo\<lparr>ms_vmaList := vs\<rparr>, pt', ths')"
    using unmapRegion_ok [OF ms_demo_ok demo_space(2,1)] by blast
  have f: "(\<lambda>sp. bind_run (unmapRegion 0x11000 0x1000 sp) (\<lambda>sp. Done (sp, 0))) (ms_demo, pt_demo, se_threads se_demo) =
      Done ((ms_demo\<lparr>ms_vmaList := vs\<rparr>, pt', ths'), 0 :: addr)" by (simp add: u)
  have t: "se_pts se_demo (p_pTable (proc_demo 0)) = Some pt_demo" by (simp add: se_demo_simps)
  have "roundUp 0x1000 PageBytes = Ok 0x1000" by (simp add: PageBytes_def PageShift_def roundUp_def isPowerOf2_def)
  then show ?thesis
    using caller_running [OF se_demo_running(1)]
      on_space_served [OF served_demo t, of "\<lambda>sp. bind_run (unmapRegion 0x11000 0x1000 sp) (\<lambda>sp. Done (sp, 0))", OF f]
    by (simp add: munmapFunc_def page_mask)
qed

lemma demo_pageBytes: "\<forall>mid ms. se_mss se_demo mid = Some ms \<longrightarrow> ms_pageBytes ms = 4096"
  by (auto simp: se_demo_def ms_demo_def MemState_def split: if_splits)


text \<open>
  C4. \<open>mremap\<close> with \<open>MREMAP_FIXED\<close> moves pages to any free place without regard to the NVM window:
  the call succeeds, the frame behind the page stays what it was, and afterwards a page of the NVM window is in DRAM or a
  page outside of it in NVM.
\<close>

theorem mremap_breaks_separation:
  assumes "running s cid p pr pt" "served s p pr ms" "space_ok 12 ms pt" "threads_ok (se_threads s)"
    and "region 12 start len" "region 12 new len" "covered (ms_vmaList ms) \<inter> {new..<new + len} = {}" "{start..<start + len} \<inter> {new..<new + len} = {}"
    and "x \<in> {start..<start + len}" "pt_translate pt x = Some y" "in_nvm y \<longleftrightarrow> nvm_page x" "nvm_page (x + (new - start)) \<noteq> nvm_page x"
  shows "\<exists>s' pt'. mremapFunc P h cid start len len (TGT_MREMAP_MAYMOVE OR TGT_MREMAP_FIXED) new s = Done (s', new) \<and>
    se_pts s' (p_pTable pr) = Some pt' \<and> pt_translate pt' (x + (new - start)) = Some y \<and> \<not> se_ok P s'"
proof -
  have k: "take_bit 12 start = 0" "take_bit 12 new = 0" "take_bit 12 len = 0" "start < start + len" "new < new + len"
    using assms(5,6) by (simp_all add: region_def)
  obtain vs pt' ths' where u: "remapRegion start new len (ms, pt, se_threads s) = Done (ms\<lparr>ms_vmaList := vs\<rparr>, pt', ths')"
    and tr: "\<forall>x. pt_translate pt' x = (if x \<in> {new..<new + len} then pt_translate pt (start + (x - new))
       else if x \<in> {start..<start + len} then None else pt_translate pt x)"
    using remapRegion_ok [OF assms(3,5,6,4,7,8)] by (elim exE conjE) (rule that)
  have f: "(\<lambda>sp. bind_run (remapRegion start new len sp) (\<lambda>sp. Done (sp, ()))) (ms, pt, se_threads s) =
      Done ((ms\<lparr>ms_vmaList := vs\<rparr>, pt', ths'), ())" by (simp add: u)
  have t: "se_pts s (p_pTable pr) = Some pt" using assms(1) by (simp add: running_def)
  let ?s = "s\<lparr>se_mss := (se_mss s)(p_memState pr \<mapsto> ms\<lparr>ms_vmaList := vs\<rparr>), se_pts := (se_pts s)(p_pTable pr \<mapsto> pt'), se_threads := ths'\<rparr>"
  note os = on_space_served [OF assms(2) t, of "\<lambda>sp. bind_run (remapRegion start new len sp) (\<lambda>sp. Done (sp, ()))", OF f]
  have ne: "new \<noteq> start" using assms(8) k(4) by auto
  have fl: "(TGT_MREMAP_MAYMOVE OR TGT_MREMAP_FIXED) AND TGT_MREMAP_FIXED \<noteq> 0" by (simp add: TGT_MREMAP_MAYMOVE_def TGT_MREMAP_FIXED_def)
  note ru = roundUp_whole [OF k(3)]
  have "mremapFunc P h cid start len len (TGT_MREMAP_MAYMOVE OR TGT_MREMAP_FIXED) new s = Done (?s, new)"
  proof -
    have "mremap_shrink (p_memState pr) start len len True new s = Done (?s, new)" using os ne by (simp add: mremap_shrink_def)
    then show ?thesis using k(1,2) fl
      unfolding mremapFunc_def caller_running [OF assms(1)] Let_def page_mask ru by (simp only: bind_run_simps prod.case if_True simp_thms order_less_irrefl if_False)
  qed
  moreover have x': "x + (new - start) \<in> {new..<new + len}"
    unfolding region_shift [OF k(4,5), symmetric] using assms(9) by (rule imageI)
  then have "pt_translate pt' (x + (new - start)) = Some y" using tr [THEN spec, of "x + (new - start)"] assms(10) by simp
  moreover have "\<not> se_ok P ?s"
  proof
    assume "se_ok P ?s"
    moreover have "se_pts ?s (p_pTable pr) = Some pt'" by simp
    ultimately have "in_nvm y \<longleftrightarrow> nvm_page (x + (new - start))" using \<open>pt_translate pt' _ = Some y\<close> by (rule se_okD(3))
    then show False using assms(11,12) by simp
  qed
  ultimately show ?thesis by (intro exI [of _ ?s] exI [of _ pt'] conjI) simp_all
qed

theorem mremap_breaks_separation_witness:
  "\<exists>s' pt'. mremapFunc params_demo host_none 0 0x11000 0x1000 0x1000 (TGT_MREMAP_MAYMOVE OR TGT_MREMAP_FIXED) 0x30000000 se_demo =
       Done (s', 0x30000000) \<and> se_pts s' 0 = Some pt' \<and> pt_translate pt' 0x30000004 = Some 0x5004 \<and> in_nvm 0x30000004 \<and> \<not> in_nvm 0x5004"
proof -
  have a: "region 12 0x30000000 0x1000" by (simp add: region_def)
  have b: "covered (ms_vmaList ms_demo) \<inter> {0x30000000..<0x30000000 + 0x1000} = {}"
    "{0x11000..<0x11000 + 0x1000} \<inter> {0x30000000 :: addr..<0x30000000 + 0x1000} = {}"
    "(0x11004 :: addr) \<in> {0x11000..<0x11000 + 0x1000}"
    unfolding ms_demo_areas(2) by simp_all
  have n: "in_nvm 0x30000004" "\<not> in_nvm 0x5004" "in_nvm 0x30000000" "\<not> in_nvm 0x11000" by (simp_all add: in_nvm_unat)
  have c: "pt_translate pt_demo 0x11004 = Some 0x5004" "in_nvm 0x5004 \<longleftrightarrow> nvm_page 0x11004"
    "nvm_page (0x11004 + (0x30000000 - 0x11000)) \<noteq> nvm_page 0x11004"
    using n by (simp_all add: pt_demo_translate(1) page_span_def nvm_page_def)
  from mremap_breaks_separation [OF se_demo_running(1) served_demo ms_demo_ok demo_space(1,2) a b c, of params_demo host_none]
  show ?thesis using n by (auto simp: se_demo_simps)
qed

end
