(* ===== verification/Spec2Isabelle.thy ===== *)
theory Spec2Isabelle
  imports Addr_Range_Map Byte_Order Sys_Steps
begin

text \<open>
  A verification library for gem5-20.1 with a separate non-volatile memory (NVM) space.

  The program. gem5 simulates a computer. In system-call emulation a simulated process runs on a
  page table that the simulator keeps (\<open>src/mem/page_table.cc\<close>); pages of physical memory come from
  \<open>System\<close> (\<open>src/sim/system.cc\<close>), which this fork extends with a second allocator for a fixed window of
  physical addresses that belongs to NVM. Accesses carry a \<open>Request\<close> (\<open>src/mem/request.hh\<close>), which the TLB
  of the ARM processor translates (\<open>src/arch/arm/tlb.cc\<close>); physical accesses are routed by address ranges
  (\<open>src/base/addr_range.hh\<close>, \<open>src/base/addr_range_map.hh\<close>) and cut into cache lines
  (\<open>src/base/chunk_generator.hh\<close>, \<open>src/mem/port_proxy.cc\<close>). The memory state of a process (\<open>src/sim/mem_state.cc\<close>,
  \<open>src/sim/vma.cc\<close>) records which regions of its address space are in use.

  Conventions. Addresses are 64-bit words, and every other integer has the width of the source.
  A computation that can fail returns \<open>sim_error + 'a\<close>: \<open>Err Assert\<close>, \<open>Err Panic\<close>, \<open>Err Fatal\<close> for the checks in the code
  and \<open>Err Undefined\<close> where C++ leaves the behaviour undefined (a shift by the width or more, reading an erased
  iterator, an access past the end of a vector). Objects are records that operations take and return. Most loops are
  functions with a termination proof. The loops of \<open>src/sim/mem_state.cc\<close> do not end on every input; they are
  \<open>partial_function (option)\<close> with results \<open>'a run\<close>, in which \<open>None\<close> means that the loop runs for ever, and that they end
  on the inputs of interest is part of the theorems. Nothing uses fuel.

  Theories.
  \<^item> \<open>Prelude\<close>: results and their inversion rules, the predicate \<open>returns\<close>, lemmas on words and lists.
  \<^item> \<open>Bitfield\<close>, \<open>IntMath\<close>: \<open>src/base/bitfield.hh\<close> and \<open>src/base/intmath.hh\<close>, with the correctness of field access,
    searches, logarithms and rounding.
  \<^item> \<open>Addr_Range\<close>, \<open>Addr_Intlv\<close>: \<open>AddrRange\<close> with its interleaving masks. Membership, subset and intersection tests
    against sets of addresses; offsets inside a range are injective; the transformation that removes
    interleaving bits is undone by the one that adds them for up to two masks, and not for three.
  \<^item> \<open>Addr_Range_Map\<close>: \<open>AddrRangeMap\<close> with its iterator cache. The locale \<open>addr_decoder\<close> is the contract of an
    address decoder; its interpretation shows that the map implements it on plain ranges.
  \<^item> \<open>Sys_Alloc\<close>: the DRAM and NVM page allocators. The locale \<open>page_source\<close> is the contract of a source of fresh
    pages, interpreted for both allocators.
  \<^item> \<open>Page_Table\<close>: \<open>EmulationPageTable\<close>; the locale \<open>address_space\<close> is the contract of an address space and its
    interpretation is the page table.
  \<^item> \<open>Chunk_Gen\<close>: the chunk generator and the blob accesses of the port proxy, equal to one flat access.
  \<^item> \<open>Arm_State\<close>: exception levels, modes, security state and address tags (\<open>src/arch/arm/utility.cc\<close>). The register
    file is the field \<open>readMiscReg\<close> of the thread context.
  \<^item> \<open>Arm_TLB\<close>: entries and table of the TLB, with lookup, insertion and flushes. The locale \<open>flush_contract\<close> states
    what a flush does to a table and is interpreted for the loops over the table and for the flush by address.
  \<^item> \<open>Request\<close>: the request object, its flags and validity bits.
  \<^item> \<open>Arm_MMU\<close>: the cached registers, the permission checks of AArch32 and AArch64, translation with the MMU off
    and translation in system-call emulation, which is shown to follow the page table.
  \<^item> \<open>Vma\<close>: one virtual memory area with its host file (\<open>src/sim/vma.cc\<close>). Cutting and moving an area keeps the byte
    of the file behind every address.
  \<^item> \<open>Mem_State\<close>: the memory state of a process (\<open>src/sim/mem_state.cc\<close>) and the walks over its list of areas, which
    refine operations on the set of addresses with their names and file bytes.
  \<^item> \<open>Mem_Ops\<close>: well-formed address spaces (areas, page table and TLBs together), kept by unmapping, remapping, mapping,
    growing the heap and searching for a free region, with the exact effect of each; restored checkpoints.
  \<^item> \<open>Process\<close>: processes (\<open>src/sim/process.cc\<close>), the proxies of their threads (\<open>src/mem/translating_port_proxy.cc\<close>,
    \<open>src/mem/se_translating_port_proxy.cc\<close>), page faults and cloning, over an explicit store in which processes, page tables
    and memory states are objects with addresses. Accesses to mapped memory equal accesses byte by byte.
  \<^item> \<open>Separation\<close>: the invariant of the store (\<open>se_ok\<close>: NVM pages lead to NVM frames, all others to DRAM, and no byte of
    physical memory has two virtual addresses) and what operations that only add pages leave alone (\<open>extends\<close>).
  \<^item> \<open>Proxy\<close>: the locale \<open>page_fixer\<close> is the contract of \<open>fixupAddr\<close>; writes through a proxy are verified once in it. Its
    interpretations are the proxy that always allocates and, in \<open>Page_Fault\<close>, the one that asks for a page fault.
  \<^item> \<open>Page_Fault\<close>, \<open>Clone\<close>: faults in an area, in the stack and below the stack; copies of a page and of an address space.
  \<^item> \<open>Process_Memory\<close>: the properties of these parts, with a system of two processes as the example.
  \<^item> \<open>Byte_Order\<close>: swaps and conversions of \<open>src/sim/byteswap.hh\<close> and the typed accesses of a port proxy, whose bytes in the
    memory of a process do not depend on the host.
  \<^item> \<open>Fd_Array\<close>: the file descriptors of a process (\<open>src/sim/fd_array.cc\<close>, \<open>src/sim/fd_entry.hh\<close>) and the system calls that
    only change them. The calls of the host are the parameter \<open>posix\<close>, and \<open>posix_ok\<close> states what the code relies on:
    a new descriptor was not open, and only \<open>close\<close> closes. Every descriptor of the host has one owner.
  \<^item> \<open>Syscalls\<close>: the system calls that change an address space (\<open>src/sim/syscall_emul.cc\<close>, \<open>src/sim/syscall_emul.hh\<close>): \<open>brk\<close>, \<open>munmap\<close>,
    \<open>mremap\<close> and \<open>mmap\<close>, with the full effect of \<open>munmap\<close> and of an anonymous \<open>mmap\<close>.
  \<^item> \<open>Sys_Steps\<close>: a system of processes as a transition system whose steps are these calls, accesses, page faults and clones.
    The locale \<open>space_op\<close> is the contract of an operation on a memory state. \<open>se_ok\<close> holds in every reachable state, and a
    \<open>mremap\<close> across the border of the NVM window breaks it.

  Not modelled: the table walker and the delayed part of translation with the MMU on (they depend on the timing of
  memory accesses), statistics, tracing and probe points, output of debug messages, ports and packets (a physical
  access is reduced to the bytes it reads or writes), processor models, devices, caches and Ruby, the event queue, loading of
  executables, and the system calls that move data between files and memory or manage threads and signals. The steps of
  \<open>Sys_Steps\<close> leave out a \<open>mremap\<close> that grows a region, whose new pages have no area, and the \<open>mmap\<close> of device drivers.
\<close>

end
